(* ===== verification/Prelude.thy ===== *)
theory Prelude
  imports Main "HOL-Library.Sublist" "HOL-Library.AList"
begin

text \<open>
  Shared vocabulary of the development: Python byte strings and the operations of
  \<^verbatim>\<open>bytes\<close> and \<^verbatim>\<open>str\<close> that waitress uses, dictionaries, numerals, and the lemmas about
  them that every component needs.

  A Python \<^verbatim>\<open>bytes\<close> value is a list of 8-bit characters (\<^typ>\<open>char list\<close>). A \<^verbatim>\<open>str\<close> that was
  decoded from bytes with the codec latin-1 holds code points below 256 only, and is the same
  list; WSGI native strings are of this kind. The operations of \<^verbatim>\<open>bytes\<close> (ASCII only) and of
  \<^verbatim>\<open>str\<close> (Unicode, here on code points below 256) differ and have different names here.

  A dictionary is an association list in insertion order with distinct keys.
\<close>

named_theorems find_facts \<open>where the first occurrence of a byte string is\<close>
named_theorems wf_rules \<open>operations keep the invariant of their component\<close>
named_theorems content_simps \<open>what the operations of a buffer do to its content\<close>

type_synonym bytes = "char list"
type_synonym dict = "(string \<times> string) list"

abbreviation CR :: char where "CR \<equiv> CHR 0x0D"
abbreviation LF :: char where "LF \<equiv> CHR 0x0A"
abbreviation SP :: char where "SP \<equiv> CHR 0x20"
abbreviation HT :: char where "HT \<equiv> CHR 0x09"
abbreviation CRLF :: bytes where "CRLF \<equiv> [CR, LF]"
abbreviation CRLF2 :: bytes where "CRLF2 \<equiv> [CR, LF, CR, LF]"

subsection \<open>Exceptions\<close>

text \<open>
  The exceptions that the modelled code raises, its own and the built-in ones. A computation that
  may raise has the type \<open>exn + 'a\<close>.
\<close>

datatype exn =
    ValueError string
  | UnicodeError
  | RuntimeError string
  | AssertionError string
  | NotImplementedError
  | OSError
  | ParsingError string
  | TransferEncodingNotImplemented string
  | ClientDisconnected
  | Diverges              \<comment> \<open>a loop that does not end\<close>
  | AppError string        \<comment> \<open>raised by the application\<close>

subsection \<open>Characters\<close>

definition in_range :: "nat \<Rightarrow> nat \<Rightarrow> char \<Rightarrow> bool" where
  "in_range lo hi c \<longleftrightarrow> lo \<le> (of_char c :: nat) \<and> (of_char c :: nat) \<le> hi"

text \<open>\<^verbatim>\<open>bytes.upper\<close> and \<^verbatim>\<open>bytes.lower\<close> change the ASCII letters only.\<close>

definition byte_upper :: "char \<Rightarrow> char" where
  "byte_upper c = (if in_range 97 122 c then char_of (of_char c - 32 :: nat) else c)"

definition byte_lower :: "char \<Rightarrow> char" where
  "byte_lower c = (if in_range 65 90 c then char_of (of_char c + 32 :: nat) else c)"

text \<open>
  \<^verbatim>\<open>str.lower\<close> on a code point below 256 also maps the capital letters of Latin-1
  (0xC0 to 0xDE, but for the multiplication sign 0xD7).
\<close>

definition str_lower_char :: "char \<Rightarrow> char" where
  "str_lower_char c =
     (if in_range 65 90 c \<or> (in_range 192 222 c \<and> (of_char c :: nat) \<noteq> 215)
      then char_of (of_char c + 32 :: nat) else c)"

definition str_lower :: "string \<Rightarrow> string" where
  "str_lower s = map str_lower_char s"

text \<open>White space: of \<^verbatim>\<open>bytes.strip()\<close>, and of \<^verbatim>\<open>str.strip()\<close> below 256.\<close>

definition byte_ws :: "char \<Rightarrow> bool" where
  "byte_ws c \<longleftrightarrow> c = SP \<or> in_range 9 13 c"

definition str_ws :: "char \<Rightarrow> bool" where
  "str_ws c \<longleftrightarrow> in_range 9 13 c \<or> in_range 28 32 c
     \<or> (of_char c :: nat) = 133 \<or> (of_char c :: nat) = 160"

definition http_ws :: "char \<Rightarrow> bool" where
  "http_ws c \<longleftrightarrow> c = SP \<or> c = HT"

lemma byte_ws_crlf [simp]: "byte_ws CR" "byte_ws LF" "byte_ws SP" "byte_ws HT"
  by (simp_all add: byte_ws_def in_range_def)

lemma http_ws_crlf [simp]: "\<not> http_ws CR" "\<not> http_ws LF" "http_ws SP" "http_ws HT"
  by (simp_all add: http_ws_def)

subsection \<open>Stripping\<close>

definition lstrip :: "(char \<Rightarrow> bool) \<Rightarrow> bytes \<Rightarrow> bytes" where
  "lstrip p s = dropWhile p s"

definition rstrip :: "(char \<Rightarrow> bool) \<Rightarrow> bytes \<Rightarrow> bytes" where
  "rstrip p s = rev (dropWhile p (rev s))"

definition strip :: "(char \<Rightarrow> bool) \<Rightarrow> bytes \<Rightarrow> bytes" where
  "strip p s = rstrip p (lstrip p s)"

lemma lstrip_hd: "lstrip p s \<noteq> [] \<Longrightarrow> \<not> p (hd (lstrip p s))"
  by (simp add: lstrip_def hd_dropWhile)

lemma rstrip_last: "rstrip p s \<noteq> [] \<Longrightarrow> \<not> p (last (rstrip p s))"
  by (simp add: rstrip_def last_rev hd_dropWhile)

lemma set_lstrip: "set (lstrip p s) \<subseteq> set s"
  by (auto simp: lstrip_def dest: set_dropWhileD)

lemma set_rstrip: "set (rstrip p s) \<subseteq> set s"
  by (auto simp: rstrip_def dest: set_dropWhileD)

lemma set_strip: "set (strip p s) \<subseteq> set s"
  using set_lstrip set_rstrip by (fastforce simp: strip_def)

lemma lstrip_Nil [simp]: "lstrip p [] = []"
  by (simp add: lstrip_def)

lemma rstrip_Nil [simp]: "rstrip p [] = []"
  by (simp add: rstrip_def)

lemma rstrip_prefix: "prefix (rstrip p s) s"
proof -
  have "suffix (dropWhile p (rev s)) (rev s)"
    by (rule suffix_dropWhile)
  then show ?thesis
    by (simp add: rstrip_def suffix_to_prefix)
qed

lemma rstrip_id: "s = [] \<or> \<not> p (last s) \<Longrightarrow> rstrip p s = s"
  by (cases s rule: rev_cases) (auto simp: rstrip_def)

lemma lstrip_id: "s = [] \<or> \<not> p (hd s) \<Longrightarrow> lstrip p s = s"
  by (cases s) (auto simp: lstrip_def)

subsection \<open>Searching\<close>

text \<open>
  \<^verbatim>\<open>s.find(p)\<close>: the position of the first occurrence, \<^const>\<open>None\<close> for the code's -1.
\<close>

fun bfind :: "bytes \<Rightarrow> bytes \<Rightarrow> nat option" where
  "bfind p [] = (if p = [] then Some 0 else None)"
| "bfind p (c # s) = (if prefix p (c # s) then Some 0 else map_option Suc (bfind p s))"

lemma bfind_SomeD: "bfind p s = Some i \<Longrightarrow> prefix p (drop i s) \<and> i + length p \<le> length s"
proof (induction p s arbitrary: i rule: bfind.induct)
  case (2 p c s)
  then show ?case
    by (auto split: if_splits dest: prefix_length_le)
qed (auto split: if_splits)

lemma bfind_first: "bfind p s = Some i \<Longrightarrow> j < i \<Longrightarrow> \<not> prefix p (drop j s)"
proof (induction p s arbitrary: i j rule: bfind.induct)
  case (2 p c s)
  then show ?case
    by (cases j) (auto split: if_splits)
qed (auto split: if_splits)

lemma bfind_NoneD: "bfind p s = None \<Longrightarrow> \<not> prefix p (drop j s)"
proof (induction p s arbitrary: j rule: bfind.induct)
  case (2 p c s)
  then show ?case
    by (cases j) (auto split: if_splits)
qed (auto split: if_splits)

lemma bfind_SomeI:
  assumes "prefix p (drop i s)" and "\<And>j. j < i \<Longrightarrow> \<not> prefix p (drop j s)"
  shows "bfind p s = Some i"
proof (cases "bfind p s")
  case None
  then show ?thesis using bfind_NoneD assms(1) by blast
next
  case (Some k)
  then have "prefix p (drop k s)" by (blast dest: bfind_SomeD)
  moreover have "\<not> k < i" using calculation assms(2) by blast
  moreover have "\<not> i < k" using bfind_first [OF Some] assms(1) by blast
  ultimately show ?thesis using Some by simp
qed

lemma bfind_NoneI: "(\<And>j. \<not> prefix p (drop j s)) \<Longrightarrow> bfind p s = None"
  by (metis bfind_SomeD not_None_eq)

lemma bfind_le [find_facts]: "bfind p s = Some i \<Longrightarrow> i + length p \<le> length s"
  by (simp add: bfind_SomeD)

lemma bfind_decomp [find_facts]:
  assumes "bfind p s = Some i"
  shows "s = take i s @ p @ drop (i + length p) s"
proof -
  from assms obtain r where r: "drop i s = p @ r"
    using bfind_SomeD [OF assms] by (auto simp: prefix_def)
  then have "drop (length p) (drop i s) = r" by simp
  then have "drop (i + length p) s = r" by (simp add: add.commute)
  with r show ?thesis by (metis append_take_drop_id)
qed

lemma prefix_iff_take: "prefix p s \<longleftrightarrow> take (length p) s = p"
  by (metis append_eq_conv_conj prefix_def)

lemma prefix_append_long [simp]: "length p \<le> length s \<Longrightarrow> prefix p (s @ t) \<longleftrightarrow> prefix p s"
  by (simp add: prefix_iff_take)

text \<open>More input never moves an occurrence; a new one must reach into the new input.\<close>

lemma bfind_append_Some [find_facts]: "bfind p s = Some i \<Longrightarrow> bfind p (s @ t) = Some i"
proof (rule bfind_SomeI)
  assume i: "bfind p s = Some i"
  then show "prefix p (drop i (s @ t))"
    using bfind_SomeD [OF i] by simp
  fix j assume "j < i"
  with i show "\<not> prefix p (drop j (s @ t))"
    using bfind_first [OF i] bfind_le [OF i] by simp
qed

lemma bfind_append_None [find_facts]:
  assumes "bfind p s = None" and "bfind p (s @ t) = Some i"
  shows "length s < i + length p"
proof (rule ccontr)
  assume "\<not> length s < i + length p"
  then have "prefix p (drop i s)"
    using bfind_SomeD [OF assms(2)] by simp
  with bfind_NoneD [OF assms(1)] show False by blast
qed

lemma bfind_take_None [find_facts]:
  assumes "bfind p s = Some i" and "p \<noteq> []" and "k < i + length p"
  shows "bfind p (take k s) = None"
proof (rule bfind_NoneI)
  fix j
  show "\<not> prefix p (drop j (take k s))"
  proof
    assume a: "prefix p (drop j (take k s))"
    then have len: "j + length p \<le> k"
      using assms(2) prefix_length_le [OF a] by (cases "j \<le> k") auto
    then have "j < i" using assms(3) by simp
    moreover have "prefix p (drop j s)"
      using a len by (simp add: prefix_iff_take drop_take min_absorb1)
    ultimately show False using bfind_first [OF assms(1)] by blast
  qed
qed

lemma bfind_self [simp]: "bfind p (p @ s) = Some 0"
  by (rule bfind_SomeI) simp_all

lemma bfind_single_None [simp]: "bfind [c] s = None \<longleftrightarrow> c \<notin> set s"
  by (induction s) auto

lemma bfind_single: "c \<notin> set u \<Longrightarrow> bfind [c] (u @ c # v) = Some (length u)"
  by (induction u) auto

lemma bfind_skip:
  "c \<notin> set u \<Longrightarrow> bfind (c # p) (u @ s) = map_option (\<lambda>i. length u + i) (bfind (c # p) s)"
  by (cases "bfind (c # p) s"; induction u) auto

text \<open>\<^verbatim>\<open>utilities.find_double_newline\<close> and every other caller tests \<^verbatim>\<open>sub in s\<close> this way.\<close>

abbreviation contains :: "bytes \<Rightarrow> bytes \<Rightarrow> bool" where
  "contains p s \<equiv> bfind p s \<noteq> None"

subsection \<open>Splitting and joining\<close>

text \<open>\<^verbatim>\<open>s.split(sep)\<close> for a separator that is not empty.\<close>

function bsplit :: "bytes \<Rightarrow> bytes \<Rightarrow> bytes list" where
  "bsplit sep s =
     (case bfind sep s of
        None \<Rightarrow> [s]
      | Some i \<Rightarrow> if sep = [] then [s] else take i s # bsplit sep (drop (i + length sep) s))"
  by pat_completeness auto
termination
  by (relation "measure (\<lambda>(sep, s). length s)") (auto dest!: bfind_le simp: neq_Nil_conv)

declare bsplit.simps [simp del]

text \<open>\<^verbatim>\<open>s.split(sep, 1)\<close> where the separator occurs, \<^verbatim>\<open>s.rsplit(c, 1)\<close> where the character does.\<close>

definition bsplit1 :: "bytes \<Rightarrow> bytes \<Rightarrow> bytes \<times> bytes" where
  "bsplit1 sep s =
     (case bfind sep s of None \<Rightarrow> (s, []) | Some i \<Rightarrow> (take i s, drop (i + length sep) s))"

definition rsplit1 :: "char \<Rightarrow> bytes \<Rightarrow> bytes \<times> bytes" where
  "rsplit1 c s =
     (let r = rev s in (rev (tl (dropWhile (\<lambda>x. x \<noteq> c) r)), rev (takeWhile (\<lambda>x. x \<noteq> c) r)))"

text \<open>\<^verbatim>\<open>sep.join(xs)\<close>.\<close>

fun bjoin :: "bytes \<Rightarrow> bytes list \<Rightarrow> bytes" where
  "bjoin sep [] = []"
| "bjoin sep [x] = x"
| "bjoin sep (x # y # xs) = x @ sep @ bjoin sep (y # xs)"

lemma bjoin_Cons: "xs \<noteq> [] \<Longrightarrow> bjoin sep (x # xs) = x @ sep @ bjoin sep xs"
  by (cases xs) auto

lemma bsplit_nonempty [simp]: "bsplit sep s \<noteq> []"
  by (subst bsplit.simps) (auto split: option.splits)

lemma bjoin_bsplit: "bjoin sep (bsplit sep s) = s"
proof (induction sep s rule: bsplit.induct)
  case (1 sep s)
  show ?case
  proof (cases "bfind sep s")
    case None
    then show ?thesis by (subst bsplit.simps) simp
  next
    case (Some i)
    with "1.IH" show ?thesis
      by (subst bsplit.simps) (simp add: bjoin_Cons bfind_decomp [symmetric])
  qed
qed

lemma set_bsplit: "x \<in> set (bsplit sep s) \<Longrightarrow> set x \<subseteq> set s"
proof (induction sep s rule: bsplit.induct)
  case (1 sep s)
  then show ?case
    by (subst (asm) (2) bsplit.simps)
      (auto split: option.splits if_splits dest: in_set_takeD in_set_dropD)
qed

lemma set_bjoin: "set (bjoin sep xs) \<subseteq> set sep \<union> (\<Union>x \<in> set xs. set x)"
  by (induction sep xs rule: bjoin.induct) auto

subsection \<open>Slices with signed bounds\<close>

text \<open>\<^verbatim>\<open>s[:n]\<close>: a negative bound counts from the end.\<close>

definition py_take :: "int \<Rightarrow> 'a list \<Rightarrow> 'a list" where
  "py_take n s = (if 0 \<le> n then take (nat n) s else take (length s - nat (- n)) s)"

text \<open>\<^verbatim>\<open>xs[-n:]\<close>, for any integer \<^verbatim>\<open>n\<close>: \<^verbatim>\<open>xs[-0:]\<close> is the whole list.\<close>

definition py_last :: "int \<Rightarrow> 'a list \<Rightarrow> 'a list" where
  "py_last n xs = (if 0 < n then drop (length xs - nat n) xs else drop (nat (- n)) xs)"

subsection \<open>Numerals\<close>

definition digit_char :: "nat \<Rightarrow> char" where
  "digit_char d = char_of (if d < 10 then 48 + d else 55 + d)"

definition digit_val :: "char \<Rightarrow> nat" where
  "digit_val c =
     (if in_range 48 57 c then of_char c - 48
      else if in_range 65 70 c then of_char c - 55
      else if in_range 97 102 c then of_char c - 87 else 0)"

fun to_base :: "nat \<Rightarrow> nat \<Rightarrow> bytes" where
  "to_base b n =
     (if n < b \<or> b < 2 then [digit_char n] else to_base b (n div b) @ [digit_char (n mod b)])"

declare to_base.simps [simp del]

definition from_base :: "nat \<Rightarrow> bytes \<Rightarrow> nat" where
  "from_base b s = foldl (\<lambda>a c. b * a + digit_val c) 0 s"

text \<open>\<^verbatim>\<open>str(n)\<close> and \<^verbatim>\<open>hex(n)[2:].upper()\<close> for a natural number; \<^verbatim>\<open>str(n)\<close> for an integer.\<close>

abbreviation str_of_nat :: "nat \<Rightarrow> string" where "str_of_nat \<equiv> to_base 10"
abbreviation hex_upper :: "nat \<Rightarrow> bytes" where "hex_upper \<equiv> to_base 16"

definition str_of_int :: "int \<Rightarrow> string" where
  "str_of_int i = (if i < 0 then CHR ''-'' # str_of_nat (nat (- i)) else str_of_nat (nat i))"

definition is_hexdig :: "char \<Rightarrow> bool" where
  "is_hexdig c \<longleftrightarrow> in_range 48 57 c \<or> in_range 65 70 c \<or> in_range 97 102 c"

definition is_digit :: "char \<Rightarrow> bool" where
  "is_digit c \<longleftrightarrow> in_range 48 57 c"

lemma digit_val_char: "d < 16 \<Longrightarrow> digit_val (digit_char d) = d"
  by (auto simp: digit_val_def digit_char_def in_range_def)

lemma is_hexdig_digit_char: "d < 16 \<Longrightarrow> is_hexdig (digit_char d)"
  by (auto simp: is_hexdig_def digit_char_def in_range_def)

lemma is_digit_digit_char: "d < 10 \<Longrightarrow> is_digit (digit_char d)"
  by (auto simp: is_digit_def digit_char_def in_range_def)

lemma to_base_nonempty [simp]: "to_base b n \<noteq> []"
  by (subst to_base.simps) simp

lemma to_base_roundtrip:
  assumes "2 \<le> b" and "b \<le> 16"
  shows "from_base b (to_base b n) = n"
proof (induction n rule: less_induct)
  case (less n)
  show ?case
  proof (cases "n < b")
    case True
    with assms show ?thesis
      by (subst to_base.simps) (simp add: from_base_def digit_val_char)
  next
    case False
    have "n mod b < b" using assms by simp
    with assms(2) have "n mod b < 16" by linarith
    moreover from False assms have "n div b < n"
      by (intro div_less_dividend) auto
    ultimately show ?thesis
      using less [of "n div b"] False assms
      by (subst to_base.simps) (simp add: from_base_def digit_val_char)
  qed
qed

lemma hex_upper_hexdig: "c \<in> set (hex_upper n) \<Longrightarrow> is_hexdig c"
proof (induction n rule: less_induct)
  case (less n)
  show ?case
  proof (cases "n < 16")
    case True
    with less.prems show ?thesis
      by (subst (asm) to_base.simps) (simp add: is_hexdig_digit_char)
  next
    case False
    with less.prems have "c \<in> set (hex_upper (n div 16)) \<or> c = digit_char (n mod 16)"
      by (subst (asm) to_base.simps) auto
    with less.IH [of "n div 16"] False show ?thesis
      by (auto simp: is_hexdig_digit_char)
  qed
qed

lemma str_of_nat_digit: "c \<in> set (str_of_nat n) \<Longrightarrow> is_digit c"
proof (induction n rule: less_induct)
  case (less n)
  show ?case
  proof (cases "n < 10")
    case True
    with less.prems show ?thesis
      by (subst (asm) to_base.simps) (simp add: is_digit_digit_char)
  next
    case False
    with less.prems have "c \<in> set (str_of_nat (n div 10)) \<or> c = digit_char (n mod 10)"
      by (subst (asm) to_base.simps) auto
    with less.IH [of "n div 10"] False show ?thesis
      by (auto simp: is_digit_digit_char)
  qed
qed

lemma is_hexdig_not_ctl: "is_hexdig c \<Longrightarrow> c \<noteq> CR \<and> c \<noteq> LF \<and> c \<noteq> CHR '';'' \<and> \<not> byte_ws c"
  by (auto simp: is_hexdig_def in_range_def byte_ws_def)

lemma is_digit_not_ctl: "is_digit c \<Longrightarrow> c \<noteq> CR \<and> c \<noteq> LF"
  by (auto simp: is_digit_def in_range_def)

subsection \<open>Dictionaries\<close>

abbreviation dict_get :: "dict \<Rightarrow> string \<Rightarrow> string option" where
  "dict_get d k \<equiv> map_of d k"

abbreviation dict_set :: "string \<Rightarrow> string \<Rightarrow> dict \<Rightarrow> dict" where
  "dict_set \<equiv> AList.update"

abbreviation dict_del :: "string \<Rightarrow> dict \<Rightarrow> dict" where
  "dict_del \<equiv> AList.delete"

text \<open>\<^verbatim>\<open>d.get(k, default)\<close>.\<close>

definition dict_get_or :: "dict \<Rightarrow> string \<Rightarrow> string \<Rightarrow> string" where
  "dict_get_or d k v = (case dict_get d k of None \<Rightarrow> v | Some x \<Rightarrow> x)"

lemmas dict_simps = update_conv' delete_conv' dict_get_or_def

end
