(* ===== verification/Regex.thy ===== *)
theory Regex
  imports Prelude
begin

text \<open>
  Regular expressions as Python's \<^verbatim>\<open>re\<close> module reads them: a backtracking matcher with
  greedy and lazy repetition, ordered alternation, named groups and the end anchor. The
  patterns of \<^verbatim>\<open>rfc7230.py\<close> and \<^verbatim>\<open>parser.py\<close> are transcribed into the type \<open>rx\<close>
  constructor by constructor, so that a match of the model picks the groups that Python picks.

  \<open>rmatch r cs s\<close> lists every way to match \<open>r\<close> at the start of \<open>s\<close>, the preferred one first:
  the captured groups and what is left of \<open>s\<close>. A repetition whose body matches nothing stops,
  as in Python.
\<close>

datatype rx =
    RCls "char \<Rightarrow> bool"      \<comment> \<open>\<^verbatim>\<open>[...]\<close>\<close>
  | REps
  | RSeq rx rx
  | RAlt rx rx               \<comment> \<open>\<^verbatim>\<open>a|b\<close>\<close>
  | RStar bool rx            \<comment> \<open>\<^verbatim>\<open>r*\<close>; with \<^const>\<open>False\<close>, the lazy \<^verbatim>\<open>r*?\<close>\<close>
  | RGroup string rx         \<comment> \<open>\<^verbatim>\<open>(?P<name>r)\<close>\<close>
  | REnd                     \<comment> \<open>\<^verbatim>\<open>$\<close>: the end, or the line feed that ends the string\<close>

type_synonym caps = "(string \<times> bytes) list"

function (sequential) rmatch :: "rx \<Rightarrow> caps \<Rightarrow> bytes \<Rightarrow> (caps \<times> bytes) list" where
  "rmatch (RCls p) cs [] = []"
| "rmatch (RCls p) cs (c # s) = (if p c then [(cs, s)] else [])"
| "rmatch REps cs s = [(cs, s)]"
| "rmatch (RSeq a b) cs s = concat (map (\<lambda>(cs', s'). rmatch b cs' s') (rmatch a cs s))"
| "rmatch (RAlt a b) cs s = rmatch a cs s @ rmatch b cs s"
| "rmatch (RStar greedy r) cs s =
     (let more = concat (map (\<lambda>(cs', s').
                   if length s' < length s then rmatch (RStar greedy r) cs' s' else [])
                 (rmatch r cs s))
      in if greedy then more @ [(cs, s)] else (cs, s) # more)"
| "rmatch (RGroup n r) cs s =
     map (\<lambda>(cs', s'). ((n, take (length s - length s') s) # cs', s')) (rmatch r cs s)"
| "rmatch REnd cs s = (if s = [] \<or> s = [LF] then [(cs, s)] else [])"
  by pat_completeness auto
termination
  by (relation "measures [\<lambda>(r, cs, s). size r, \<lambda>(r, cs, s). length s]") auto

declare rmatch.simps [simp del]

lemmas rmatch_basic = rmatch.simps(1-5,7,8)

text \<open>Derived forms: a literal, \<^verbatim>\<open>r+\<close>, \<^verbatim>\<open>r?\<close>, \<^verbatim>\<open>r{1,n}\<close> and a sequence of patterns.\<close>

fun rlit :: "bytes \<Rightarrow> rx" where
  "rlit [] = REps"
| "rlit (c # s) = RSeq (RCls (\<lambda>x. x = c)) (rlit s)"

abbreviation rplus :: "rx \<Rightarrow> rx" where "rplus r \<equiv> RSeq r (RStar True r)"
abbreviation ropt :: "rx \<Rightarrow> rx" where "ropt r \<equiv> RAlt r REps"

fun rupto :: "nat \<Rightarrow> rx \<Rightarrow> rx" where
  "rupto 0 r = REps"
| "rupto (Suc n) r = ropt (RSeq r (rupto n r))"

fun rseq :: "rx list \<Rightarrow> rx" where
  "rseq [] = REps"
| "rseq [r] = r"
| "rseq (r # rs) = RSeq r (rseq rs)"

text \<open>
  \<^verbatim>\<open>p.match(s)\<close> takes the first way; \<^verbatim>\<open>p.fullmatch(s)\<close> the first way that uses the whole string.
  Both give the groups, \<^const>\<open>None\<close> when nothing matches.
\<close>

definition re_match :: "rx \<Rightarrow> bytes \<Rightarrow> (caps \<times> bytes) option" where
  "re_match r s = (case rmatch r [] s of [] \<Rightarrow> None | m # _ \<Rightarrow> Some m)"

definition re_fullmatch :: "rx \<Rightarrow> bytes \<Rightarrow> caps option" where
  "re_fullmatch r s = map_option fst (List.find (\<lambda>(cs, t). t = []) (rmatch r [] s))"

subsection \<open>What a match consumes\<close>

text \<open>Every way to match consumes a prefix; a condition that the classes imply holds for it.\<close>

fun rx_chars :: "(char \<Rightarrow> bool) \<Rightarrow> rx \<Rightarrow> bool" where
  "rx_chars P (RCls p) = (\<forall>c. p c \<longrightarrow> P c)"
| "rx_chars P REps = True"
| "rx_chars P (RSeq a b) = (rx_chars P a \<and> rx_chars P b)"
| "rx_chars P (RAlt a b) = (rx_chars P a \<and> rx_chars P b)"
| "rx_chars P (RStar g r) = rx_chars P r"
| "rx_chars P (RGroup n r) = rx_chars P r"
| "rx_chars P REnd = True"

lemma rmatch_star_unfold:
  "set (rmatch (RStar g r) cs s) =
     insert (cs, s) (\<Union>(cs', s') \<in> {x \<in> set (rmatch r cs s). length (snd x) < length s}.
                       set (rmatch (RStar g r) cs' s'))"
  by (subst rmatch.simps) (auto simp: Let_def split: if_splits)

lemma rmatch_chars:
  "(cs', t) \<in> set (rmatch r cs s) \<Longrightarrow> rx_chars P r \<Longrightarrow> \<exists>u. s = u @ t \<and> (\<forall>c \<in> set u. P c)"
proof (induction r cs s arbitrary: cs' t rule: rmatch.induct)
  case (4 a b cs s)
  from "4.prems" obtain cs1 s1 where
    1: "(cs1, s1) \<in> set (rmatch a cs s)" "(cs', t) \<in> set (rmatch b cs1 s1)"
    by (auto simp: rmatch_basic)
  with "4.prems" "4.IH"(1) [of cs1 s1] obtain u where "s = u @ s1" "\<forall>c \<in> set u. P c" by auto
  moreover from 1 "4.prems" "4.IH"(2) [of "(cs1, s1)" cs1 s1] obtain v
    where "s1 = v @ t" "\<forall>c \<in> set v. P c" by auto
  ultimately have "s = (u @ v) @ t \<and> (\<forall>c \<in> set (u @ v). P c)" by auto
  then show ?case by blast
next
  case (6 g r cs s)
  show ?case
  proof (cases "(cs', t) = (cs, s)")
    case False
    with "6.prems" obtain cs1 s1 where
      1: "(cs1, s1) \<in> set (rmatch r cs s)" "length s1 < length s"
         "(cs', t) \<in> set (rmatch (RStar g r) cs1 s1)"
      by (subst (asm) rmatch_star_unfold) auto
    with "6.prems" "6.IH"(1) [of cs1 s1] obtain u where "s = u @ s1" "\<forall>c \<in> set u. P c" by auto
    moreover from 1 "6.prems" "6.IH"(2) [of "(cs1, s1)" cs1 s1] obtain v
      where "s1 = v @ t" "\<forall>c \<in> set v. P c" by auto
    ultimately have "s = (u @ v) @ t \<and> (\<forall>c \<in> set (u @ v). P c)" by auto
    then show ?thesis by blast
  qed auto
qed (auto simp: rmatch_basic split: if_splits)

lemma rmatch_suffix: "(cs', t) \<in> set (rmatch r cs s) \<Longrightarrow> \<exists>u. s = u @ t"
proof -
  assume "(cs', t) \<in> set (rmatch r cs s)"
  moreover have "rx_chars (\<lambda>_. True) r" by (induction r) auto
  ultimately show ?thesis by (blast dest: rmatch_chars)
qed

subsection \<open>Captured groups\<close>

text \<open>A pattern without groups keeps the groups; a group captures what its body consumes.\<close>

fun rx_nogroup :: "rx \<Rightarrow> bool" where
  "rx_nogroup (RSeq a b) = (rx_nogroup a \<and> rx_nogroup b)"
| "rx_nogroup (RAlt a b) = (rx_nogroup a \<and> rx_nogroup b)"
| "rx_nogroup (RStar g r) = rx_nogroup r"
| "rx_nogroup (RGroup n r) = False"
| "rx_nogroup r = True"

lemma rmatch_nogroup: "(cs', t) \<in> set (rmatch r cs s) \<Longrightarrow> rx_nogroup r \<Longrightarrow> cs' = cs"
proof (induction r cs s arbitrary: cs' t rule: rmatch.induct)
  case (4 a b cs s)
  then show ?case by (fastforce simp: rmatch_basic)
next
  case (6 g r cs s)
  show ?case
  proof (cases "(cs', t) = (cs, s)")
    case False
    with "6.prems" obtain cs1 s1 where
      1: "(cs1, s1) \<in> set (rmatch r cs s)" "length s1 < length s"
         "(cs', t) \<in> set (rmatch (RStar g r) cs1 s1)"
      by (subst (asm) rmatch_star_unfold) auto
    with "6.prems" "6.IH"(1) [of cs1 s1] "6.IH"(2) [of "(cs1, s1)" cs1 s1] show ?thesis by auto
  qed auto
qed (auto simp: rmatch_basic split: if_splits)

lemma rmatch_seqE:
  assumes "(cs', t) \<in> set (rmatch (RSeq a b) cs s)"
  obtains cs1 s1 where "(cs1, s1) \<in> set (rmatch a cs s)" "(cs', t) \<in> set (rmatch b cs1 s1)"
  using assms by (auto simp: rmatch_basic)

lemma rmatch_groupE:
  assumes "(cs', t) \<in> set (rmatch (RGroup n r) cs s)"
  obtains cs1 u where "(cs1, t) \<in> set (rmatch r cs s)" "s = u @ t" "cs' = (n, u) # cs1"
proof -
  from assms obtain cs1 where c: "(cs1, t) \<in> set (rmatch r cs s)"
    "cs' = (n, take (length s - length t) s) # cs1"
    by (auto simp: rmatch_basic)
  from rmatch_suffix [OF c(1)] obtain u where "s = u @ t" by blast
  with c show thesis by (intro that [of cs1 u]) auto
qed

lemma rmatch_seqI:
  "(cs1, s1) \<in> set (rmatch a cs s) \<Longrightarrow> (cs', t) \<in> set (rmatch b cs1 s1) \<Longrightarrow>
   (cs', t) \<in> set (rmatch (RSeq a b) cs s)"
  by (force simp: rmatch_basic)

lemma rmatch_groupI:
  "(cs1, t) \<in> set (rmatch r cs (u @ t)) \<Longrightarrow> ((n, u) # cs1, t) \<in> set (rmatch (RGroup n r) cs (u @ t))"
  by (force simp: rmatch_basic)

lemma rmatch_clsE:
  assumes "(cs', t) \<in> set (rmatch (RCls p) cs s)"
  obtains c where "s = c # t" "p c" "cs' = cs"
  using assms by (cases s) (auto simp: rmatch_basic split: if_splits)

lemma rmatch_clsI: "p c \<Longrightarrow> (cs, t) \<in> set (rmatch (RCls p) cs (c # t))"
  by (simp add: rmatch_basic)

subsection \<open>Runs of one class\<close>

lemma rmatch_star_cls:
  "(cs', t) \<in> set (rmatch (RStar g (RCls p)) cs s) \<longleftrightarrow>
     cs' = cs \<and> (\<exists>u. s = u @ t \<and> (\<forall>c \<in> set u. p c))"
proof
  assume a: "(cs', t) \<in> set (rmatch (RStar g (RCls p)) cs s)"
  then show "cs' = cs \<and> (\<exists>u. s = u @ t \<and> (\<forall>c \<in> set u. p c))"
    using rmatch_nogroup [OF a] rmatch_chars [OF a, of p] by simp
next
  assume "cs' = cs \<and> (\<exists>u. s = u @ t \<and> (\<forall>c \<in> set u. p c))"
  then obtain u where u: "cs' = cs" "s = u @ t" "\<forall>c \<in> set u. p c" by blast
  have "(cs, t) \<in> set (rmatch (RStar g (RCls p)) cs (u @ t))"
    using u(3)
  proof (induction u)
    case Nil
    then show ?case by (subst rmatch_star_unfold) simp
  next
    case (Cons c u)
    then show ?case by (subst rmatch_star_unfold) (auto simp: rmatch_basic)
  qed
  with u show "(cs', t) \<in> set (rmatch (RStar g (RCls p)) cs s)" by simp
qed

lemma rmatch_plus_cls:
  "(cs', t) \<in> set (rmatch (rplus (RCls p)) cs s) \<longleftrightarrow>
     cs' = cs \<and> (\<exists>u. u \<noteq> [] \<and> s = u @ t \<and> (\<forall>c \<in> set u. p c))"
proof -
  have "(cs', t) \<in> set (rmatch (rplus (RCls p)) cs s) \<longleftrightarrow>
     (\<exists>c s'. s = c # s' \<and> p c \<and> (cs', t) \<in> set (rmatch (RStar True (RCls p)) cs s'))"
    by (cases s) (auto simp: rmatch.simps(1,2,4))
  also have "\<dots> \<longleftrightarrow> cs' = cs \<and> (\<exists>u. u \<noteq> [] \<and> s = u @ t \<and> (\<forall>c \<in> set u. p c))"
    by (auto simp: rmatch_star_cls neq_Nil_conv)
  finally show ?thesis .
qed

lemma rmatch_lit:
  "(cs', t) \<in> set (rmatch (rlit u) cs s) \<longleftrightarrow> cs' = cs \<and> s = u @ t"
proof (induction u arbitrary: s)
  case (Cons c u)
  then show ?case by (cases s) (auto simp: rmatch_basic)
qed (auto simp: rmatch_basic)

lemma rmatch_end:
  "(cs', t) \<in> set (rmatch REnd cs s) \<longleftrightarrow> cs' = cs \<and> t = s \<and> (s = [] \<or> s = [LF])"
  by (auto simp: rmatch_basic)

lemma re_match_SomeD: "re_match r s = Some m \<Longrightarrow> m \<in> set (rmatch r [] s)"
  by (auto simp: re_match_def split: list.splits)

lemma re_match_NoneD: "re_match r s = None \<Longrightarrow> rmatch r [] s = []"
  by (auto simp: re_match_def split: list.splits)

lemma re_match_Some_iff: "(\<exists>m. re_match r s = Some m) \<longleftrightarrow> (\<exists>m. m \<in> set (rmatch r [] s))"
  by (auto simp: re_match_def split: list.splits)

lemma re_fullmatch_SomeD: "re_fullmatch r s = Some cs \<Longrightarrow> (cs, []) \<in> set (rmatch r [] s)"
  by (auto simp: re_fullmatch_def find_Some_iff) (metis nth_mem)

lemma re_fullmatch_SomeI: "(cs, []) \<in> set (rmatch r [] s) \<Longrightarrow> \<exists>cs'. re_fullmatch r s = Some cs'"
  by (cases "List.find (\<lambda>(cs, t). t = []) (rmatch r [] s)")
    (auto simp: re_fullmatch_def find_None_iff)

end
