(* ===== verification/Rfc7230.thy ===== *)
theory Rfc7230
  imports Regex
begin

text \<open>
  The patterns of \<^verbatim>\<open>rfc7230.py\<close>, transcribed, and what they accept. The leading \<^verbatim>\<open>^\<close> of a
  pattern has no constructor: \<^verbatim>\<open>match\<close> starts at the beginning of the string anyway. The
  final \<^verbatim>\<open>$\<close> is Python's: it also matches before a line feed that ends the string.
\<close>

subsection \<open>Character classes\<close>

definition HEXDIG :: "char \<Rightarrow> bool" where "HEXDIG c \<longleftrightarrow> is_hexdig c"
definition DIGIT :: "char \<Rightarrow> bool" where "DIGIT c \<longleftrightarrow> is_digit c"
definition WS :: "char \<Rightarrow> bool" where "WS c \<longleftrightarrow> c = SP \<or> c = HT"
definition OBS_TEXT :: "char \<Rightarrow> bool" where "OBS_TEXT c \<longleftrightarrow> in_range 128 255 c"
definition VCHAR :: "char \<Rightarrow> bool" where "VCHAR c \<longleftrightarrow> in_range 33 126 c"

text \<open>\<^verbatim>\<open>[!#$%&'*+\-.^_`|~0-9A-Za-z]\<close>, punctuation by code.\<close>

definition TCHAR :: "char \<Rightarrow> bool" where
  "TCHAR c \<longleftrightarrow>
     c \<in> set [CHR 0x21, CHR 0x23, CHR 0x24, CHR 0x25, CHR 0x26, CHR 0x27, CHR 0x2A, CHR 0x2B,
              CHR 0x2D, CHR 0x2E, CHR 0x5E, CHR 0x5F, CHR 0x60, CHR 0x7C, CHR 0x7E]
     \<or> in_range 48 57 c \<or> in_range 65 90 c \<or> in_range 97 122 c"

definition FIELD_VCHAR :: "char \<Rightarrow> bool" where
  "FIELD_VCHAR c \<longleftrightarrow> VCHAR c \<or> OBS_TEXT c"

definition QDTEXT :: "char \<Rightarrow> bool" where
  "QDTEXT c \<longleftrightarrow> c = HT \<or> c = SP \<or> c = CHR 0x21 \<or> in_range 35 91 c \<or> in_range 93 126 c \<or> OBS_TEXT c"

definition quotable :: "char \<Rightarrow> bool" where
  "quotable c \<longleftrightarrow> c = HT \<or> c = SP \<or> VCHAR c \<or> OBS_TEXT c"

subsection \<open>Patterns\<close>

definition OWS :: rx where "OWS = RStar False (RCls WS)"
definition TOKEN :: rx where "TOKEN = rplus (RCls TCHAR)"

definition QUOTED_PAIR :: rx where
  "QUOTED_PAIR = RSeq (RCls (\<lambda>c. c = CHR 0x5C)) (RGroup ''1'' (RCls quotable))"

definition QUOTED_STRING :: rx where
  "QUOTED_STRING =
     rseq [RCls (\<lambda>c. c = CHR 0x22), RStar True (RAlt (RCls QDTEXT) QUOTED_PAIR), RCls (\<lambda>c. c = CHR 0x22)]"

definition FIELD_CONTENT :: rx where
  "FIELD_CONTENT =
     RSeq (rplus (RCls FIELD_VCHAR)) (RStar True (RSeq (rplus (RCls WS)) (rplus (RCls FIELD_VCHAR))))"

definition FIELD_VALUE :: rx where "FIELD_VALUE = ropt FIELD_CONTENT"

definition CHUNK_EXT_VAL :: rx where "CHUNK_EXT_VAL = RAlt TOKEN QUOTED_STRING"

definition CHUNK_EXT :: rx where
  "CHUNK_EXT =
     RStar True (rseq [RCls (\<lambda>c. c = CHR '';''), RGroup ''extension'' TOKEN,
       ropt (RSeq (RCls (\<lambda>c. c = CHR ''='')) (RGroup ''value'' CHUNK_EXT_VAL))])"

definition ONLY_HEXDIG_RE :: rx where "ONLY_HEXDIG_RE = RSeq (rplus (RCls HEXDIG)) REnd"
definition ONLY_DIGIT_RE :: rx where "ONLY_DIGIT_RE = RSeq (rplus (RCls DIGIT)) REnd"
definition CHUNK_EXT_RE :: rx where "CHUNK_EXT_RE = RSeq CHUNK_EXT REnd"

definition HEADER_FIELD_RE :: rx where
  "HEADER_FIELD_RE =
     rseq [RGroup ''name'' TOKEN, RCls (\<lambda>c. c = CHR '':''), OWS, RGroup ''value'' FIELD_VALUE, OWS, REnd]"

definition re_matches :: "rx \<Rightarrow> bytes \<Rightarrow> bool" where
  "re_matches r s \<longleftrightarrow> re_match r s \<noteq> None"

subsection \<open>Facts about the classes\<close>

lemma WS_http_ws: "WS = http_ws"
  by (simp add: WS_def http_ws_def fun_eq_iff)

lemma TCHAR_special [simp]:
  "\<not> TCHAR CR" "\<not> TCHAR LF" "\<not> TCHAR SP" "\<not> TCHAR HT" "\<not> TCHAR (CHR '':'')"
  by (simp_all add: TCHAR_def in_range_def)

lemma FIELD_VCHAR_special [simp]:
  "\<not> FIELD_VCHAR CR" "\<not> FIELD_VCHAR LF" "\<not> FIELD_VCHAR SP" "\<not> FIELD_VCHAR HT" "\<not> FIELD_VCHAR (CHR 0x00)"
  by (simp_all add: FIELD_VCHAR_def VCHAR_def OBS_TEXT_def in_range_def)

lemma FIELD_VCHAR_not_ws: "FIELD_VCHAR c \<Longrightarrow> \<not> http_ws c"
  by (auto simp: http_ws_def)

lemma TCHAR_FIELD_VCHAR: "TCHAR c \<Longrightarrow> FIELD_VCHAR c"
  by (auto simp: TCHAR_def FIELD_VCHAR_def VCHAR_def in_range_def)

lemma is_hexdig_LF [simp]: "\<not> is_hexdig LF"
  by (simp add: is_hexdig_def in_range_def)

lemma is_digit_LF [simp]: "\<not> is_digit LF"
  by (simp add: is_digit_def in_range_def)

subsection \<open>Digits only\<close>

lemma re_matches_run:
  "re_matches (RSeq (rplus (RCls p)) REnd) s \<longleftrightarrow>
     (\<exists>d. d \<noteq> [] \<and> (\<forall>c \<in> set d. p c) \<and> (s = d \<or> s = d @ [LF]))"
proof -
  have "re_matches (RSeq (rplus (RCls p)) REnd) s \<longleftrightarrow>
      (\<exists>cs t. (cs, t) \<in> set (rmatch (RSeq (rplus (RCls p)) REnd) [] s))"
    unfolding re_matches_def using re_match_Some_iff [of _ s] by auto
  also have "\<dots> \<longleftrightarrow> (\<exists>d. d \<noteq> [] \<and> (\<forall>c \<in> set d. p c) \<and> (s = d \<or> s = d @ [LF]))"
  proof
    assume "\<exists>cs t. (cs, t) \<in> set (rmatch (RSeq (rplus (RCls p)) REnd) [] s)"
    then show "\<exists>d. d \<noteq> [] \<and> (\<forall>c \<in> set d. p c) \<and> (s = d \<or> s = d @ [LF])"
      by (elim exE rmatch_seqE [of _ _ "rplus (RCls p)"]) (auto simp: rmatch_plus_cls rmatch_end)
  next
    assume "\<exists>d. d \<noteq> [] \<and> (\<forall>c \<in> set d. p c) \<and> (s = d \<or> s = d @ [LF])"
    then obtain d t where d: "d \<noteq> []" "\<forall>c \<in> set d. p c" "s = d @ t" "t = [] \<or> t = [LF]" by auto
    then have "([], t) \<in> set (rmatch (rplus (RCls p)) [] s)" by (auto simp: rmatch_plus_cls)
    moreover have "([], t) \<in> set (rmatch REnd [] t)" using d by (auto simp: rmatch_end)
    ultimately show "\<exists>cs t. (cs, t) \<in> set (rmatch (RSeq (rplus (RCls p)) REnd) [] s)"
      by (blast intro: rmatch_seqI)
  qed
  finally show ?thesis .
qed

lemma only_hexdig_iff:
  "re_matches ONLY_HEXDIG_RE s \<longleftrightarrow> (\<exists>d. d \<noteq> [] \<and> (\<forall>c \<in> set d. is_hexdig c) \<and> (s = d \<or> s = d @ [LF]))"
  by (simp add: ONLY_HEXDIG_RE_def re_matches_run HEXDIG_def)

lemma only_digit_iff:
  "re_matches ONLY_DIGIT_RE s \<longleftrightarrow> (\<exists>d. d \<noteq> [] \<and> (\<forall>c \<in> set d. is_digit c) \<and> (s = d \<or> s = d @ [LF]))"
  by (simp add: ONLY_DIGIT_RE_def re_matches_run DIGIT_def)

lemma chunk_ext_empty: "re_matches CHUNK_EXT_RE []"
proof -
  have "([], []) \<in> set (rmatch CHUNK_EXT [] [])"
    unfolding CHUNK_EXT_def by (subst rmatch_star_unfold) simp
  then have "([], []) \<in> set (rmatch CHUNK_EXT_RE [] [])"
    unfolding CHUNK_EXT_RE_def by (rule rmatch_seqI) (simp add: rmatch_end)
  then show ?thesis using re_match_NoneD by (fastforce simp: re_matches_def)
qed

subsection \<open>Header fields\<close>

definition field_value :: "bytes \<Rightarrow> bool" where
  "field_value v \<longleftrightarrow> v = [] \<or> (FIELD_VCHAR (hd v) \<and> FIELD_VCHAR (last v)
     \<and> (\<forall>c \<in> set v. FIELD_VCHAR c \<or> http_ws c))"

lemma rmatch_star_rule:
  assumes "(cs', t) \<in> set (rmatch (RStar g r) cs s)" and "P []"
    and "\<And>cs cs1 u t v. (cs1, t) \<in> set (rmatch r cs (u @ t)) \<Longrightarrow> u \<noteq> [] \<Longrightarrow> P v \<Longrightarrow> P (u @ v)"
  shows "\<exists>u. s = u @ t \<and> P u"
  using assms(1)
proof (induction "length s" arbitrary: cs s rule: less_induct)
  case less
  show ?case
  proof (cases "(cs', t) = (cs, s)")
    case True
    with assms(2) show ?thesis by auto
  next
    case False
    with less.prems obtain cs1 s1 where
      1: "(cs1, s1) \<in> set (rmatch r cs s)" "length s1 < length s"
         "(cs', t) \<in> set (rmatch (RStar g r) cs1 s1)"
      by (subst (asm) rmatch_star_unfold) auto
    then obtain v where v: "s1 = v @ t" "P v" using less.hyps by blast
    from rmatch_suffix [OF 1(1)] obtain u where u: "s = u @ s1" by blast
    with 1 v assms(3) [of cs1 s1 cs u v] show ?thesis by auto
  qed
qed

lemma field_content_sound:
  assumes "(cs', t) \<in> set (rmatch FIELD_CONTENT cs s)"
  shows "cs' = cs \<and> (\<exists>u. u \<noteq> [] \<and> s = u @ t \<and> field_value u)"
proof -
  have nog: "cs' = cs"
    using rmatch_nogroup [OF assms] by (simp add: FIELD_CONTENT_def)
  from assms obtain cs1 s1 where
    1: "(cs1, s1) \<in> set (rmatch (rplus (RCls FIELD_VCHAR)) cs s)" and
    2: "(cs', t) \<in> set (rmatch (RStar True (RSeq (rplus (RCls WS)) (rplus (RCls FIELD_VCHAR)))) cs1 s1)"
    unfolding FIELD_CONTENT_def by (rule rmatch_seqE)
  let ?P = "\<lambda>v. (v = [] \<or> FIELD_VCHAR (last v)) \<and> (\<forall>c \<in> set v. FIELD_VCHAR c \<or> http_ws c)"
  from 1 obtain u where u: "u \<noteq> []" "s = u @ s1" "\<forall>c \<in> set u. FIELD_VCHAR c"
    by (auto simp: rmatch_plus_cls)
  have "\<exists>v. s1 = v @ t \<and> ?P v"
  proof (rule rmatch_star_rule [OF 2, where P = ?P])
    fix cs cs1 u t v
    assume m: "(cs1, t) \<in> set (rmatch (RSeq (rplus (RCls WS)) (rplus (RCls FIELD_VCHAR))) cs (u @ t))"
      and v: "?P v"
    from m obtain a b where "u = a @ b" "\<forall>c \<in> set a. http_ws c" "b \<noteq> []" "\<forall>c \<in> set b. FIELD_VCHAR c"
      by (elim rmatch_seqE [of _ _ "rplus (RCls WS)"]) (auto simp: rmatch_plus_cls WS_http_ws)
    with v show "?P (u @ v)" by (auto simp: last_append)
  qed simp
  then obtain v where "s1 = v @ t" "?P v" by blast
  with u have "s = (u @ v) @ t" "field_value (u @ v)" "u @ v \<noteq> []"
    by (auto simp: field_value_def last_append)
  with nog show ?thesis by blast
qed

lemma field_content_tail:
  assumes "v = [] \<or> (http_ws (hd v) \<and> FIELD_VCHAR (last v))" and "\<forall>c \<in> set v. FIELD_VCHAR c \<or> http_ws c"
  shows "(cs, t) \<in> set (rmatch (RStar True (RSeq (rplus (RCls WS)) (rplus (RCls FIELD_VCHAR)))) cs (v @ t))"
  using assms
proof (induction "length v" arbitrary: v rule: less_induct)
  case less
  let ?r = "RSeq (rplus (RCls WS)) (rplus (RCls FIELD_VCHAR))"
  show ?case
  proof (cases "v = []")
    case True
    then show ?thesis by (subst rmatch_star_unfold) simp
  next
    case False
    define a where "a = takeWhile http_ws v"
    define w where "w = dropWhile http_ws v"
    define b where "b = takeWhile FIELD_VCHAR w"
    define x where "x = dropWhile FIELD_VCHAR w"
    have v: "v = a @ w" "w = b @ x" by (simp_all add: a_def w_def b_def x_def)
    have a: "a \<noteq> []" "\<forall>c \<in> set a. WS c" using less.prems False
      by (cases v; auto simp: a_def WS_http_ws dest: set_takeWhileD)+
    have "w \<noteq> []"
      using False less.prems FIELD_VCHAR_not_ws last_in_set by (force simp: w_def)
    moreover from this have "\<not> http_ws (hd w)" by (simp add: w_def hd_dropWhile)
    ultimately have hw: "FIELD_VCHAR (hd w)" using less.prems v by (metis UnCI hd_in_set set_append)
    with \<open>w \<noteq> []\<close> have b: "b \<noteq> []" "\<forall>c \<in> set b. FIELD_VCHAR c"
      by (cases w; auto simp: b_def dest: set_takeWhileD)+
    have x: "x = [] \<or> (http_ws (hd x) \<and> FIELD_VCHAR (last x))"
    proof (cases "x = []")
      case False
      then have "\<not> FIELD_VCHAR (hd x)" by (simp add: x_def hd_dropWhile)
      moreover have "hd x \<in> set v" using False v by simp
      moreover have "last v = last x" using False v by (simp add: last_append)
      ultimately show ?thesis using less.prems v by auto
    qed simp
    have "length x < length v" using v a by simp
    then have ih: "(cs, t) \<in> set (rmatch (RStar True ?r) cs (x @ t))"
      using less.hyps x less.prems(2) v by simp
    have "(cs, b @ x @ t) \<in> set (rmatch (rplus (RCls WS)) cs (v @ t))"
      using a v by (auto simp: rmatch_plus_cls)
    moreover have "(cs, x @ t) \<in> set (rmatch (rplus (RCls FIELD_VCHAR)) cs (b @ x @ t))"
      using b by (auto simp: rmatch_plus_cls)
    ultimately have "(cs, x @ t) \<in> set (rmatch ?r cs (v @ t))" by (rule rmatch_seqI)
    with ih \<open>length x < length v\<close> show ?thesis
      by (subst rmatch_star_unfold) fastforce
  qed
qed

lemma field_value_complete:
  assumes "field_value v"
  shows "(cs, t) \<in> set (rmatch FIELD_VALUE cs (v @ t))"
proof (cases "v = []")
  case True
  then show ?thesis by (simp add: FIELD_VALUE_def rmatch_basic)
next
  case False
  define a where "a = takeWhile FIELD_VCHAR v"
  define x where "x = dropWhile FIELD_VCHAR v"
  have v: "v = a @ x" by (simp add: a_def x_def)
  have a: "a \<noteq> []" "\<forall>c \<in> set a. FIELD_VCHAR c"
    using assms False by (cases v; auto simp: a_def field_value_def dest: set_takeWhileD)+
  have x: "x = [] \<or> (http_ws (hd x) \<and> FIELD_VCHAR (last x))"
  proof (cases "x = []")
    case nx: False
    then have "\<not> FIELD_VCHAR (hd x)" by (simp add: x_def hd_dropWhile)
    moreover have "hd x \<in> set v" "last v = last x" using nx v by (simp_all add: last_append)
    ultimately show ?thesis using assms False by (auto simp: field_value_def)
  qed simp
  have "\<forall>c \<in> set x. FIELD_VCHAR c \<or> http_ws c"
    using assms False v by (auto simp: field_value_def)
  with x have "(cs, t) \<in> set (rmatch (RStar True (RSeq (rplus (RCls WS)) (rplus (RCls FIELD_VCHAR)))) cs (x @ t))"
    by (intro field_content_tail)
  moreover have "(cs, x @ t) \<in> set (rmatch (rplus (RCls FIELD_VCHAR)) cs (v @ t))"
    using a v by (auto simp: rmatch_plus_cls)
  ultimately have "(cs, t) \<in> set (rmatch FIELD_CONTENT cs (v @ t))"
    unfolding FIELD_CONTENT_def by (blast intro: rmatch_seqI)
  then show ?thesis by (simp add: FIELD_VALUE_def rmatch_basic)
qed

lemma field_value_sound:
  "(cs', t) \<in> set (rmatch FIELD_VALUE cs s) \<Longrightarrow> cs' = cs \<and> (\<exists>u. s = u @ t \<and> field_value u)"
  by (auto simp: FIELD_VALUE_def rmatch_basic field_value_def dest!: field_content_sound)

text \<open>The ways to match a header field are exactly the ways to read the line in its five parts.\<close>

lemma header_field_ways:
  "(cs, t) \<in> set (rmatch HEADER_FIELD_RE [] s) \<longleftrightarrow>
     (\<exists>name ws1 value ws2. s = name @ CHR '':'' # ws1 @ value @ ws2 @ t \<and> name \<noteq> [] \<and>
        (\<forall>c \<in> set name. TCHAR c) \<and> (\<forall>c \<in> set (ws1 @ ws2). http_ws c) \<and> field_value value \<and>
        (t = [] \<or> t = [LF]) \<and> cs = [(''value'', value), (''name'', name)])"
    (is "?L \<longleftrightarrow> ?R")
proof
  assume ?L
  then show ?R
    unfolding HEADER_FIELD_RE_def rseq.simps
    apply (elim rmatch_seqE rmatch_groupE rmatch_clsE)
    apply (auto simp: TOKEN_def OWS_def rmatch_plus_cls rmatch_star_cls rmatch_end WS_http_ws
      dest!: field_value_sound)
    by (metis Un_iff set_append)+
next
  assume ?R
  then obtain name ws1 v ws2 where
    s: "s = name @ CHR '':'' # ws1 @ v @ ws2 @ t" and n: "name \<noteq> []" "\<forall>c \<in> set name. TCHAR c" and
    w: "\<forall>c \<in> set ws1. WS c" "\<forall>c \<in> set ws2. WS c" and v: "field_value v" and
    t: "t = [] \<or> t = [LF]" and cs: "cs = [(''value'', v), (''name'', name)]"
    by (auto simp: WS_http_ws)
  let ?n = "[(''name'', name)]"
  have 1: "(?n, CHR '':'' # ws1 @ v @ ws2 @ t) \<in> set (rmatch (RGroup ''name'' TOKEN) [] s)"
    unfolding s by (rule rmatch_groupI) (auto simp: TOKEN_def rmatch_plus_cls n)
  have 2: "(?n, ws1 @ v @ ws2 @ t) \<in> set (rmatch (RCls (\<lambda>c. c = CHR '':'')) ?n (CHR '':'' # ws1 @ v @ ws2 @ t))"
    by (rule rmatch_clsI) simp
  have 3: "(?n, v @ ws2 @ t) \<in> set (rmatch OWS ?n (ws1 @ v @ ws2 @ t))"
    using w by (auto simp: OWS_def rmatch_star_cls)
  have 4: "(cs, ws2 @ t) \<in> set (rmatch (RGroup ''value'' FIELD_VALUE) ?n (v @ ws2 @ t))"
    unfolding cs by (rule rmatch_groupI, rule field_value_complete, rule v)
  have 5: "(cs, t) \<in> set (rmatch OWS cs (ws2 @ t))"
    using w by (auto simp: OWS_def rmatch_star_cls)
  have 6: "(cs, t) \<in> set (rmatch REnd cs t)" using t by (auto simp: rmatch_end)
  from 1 2 3 4 5 6 show ?L
    unfolding HEADER_FIELD_RE_def rseq.simps by (blast intro: rmatch_seqI)
qed

text \<open>The same reading without regular expressions: name, colon, stripped value.\<close>

definition header_field_spec :: "bytes \<Rightarrow> (bytes \<times> bytes) option" where
  "header_field_spec s =
     (let name = takeWhile TCHAR s; rest = dropWhile TCHAR s;
          body = (if rest \<noteq> [] \<and> last rest = LF then butlast rest else rest)
      in if name \<noteq> [] \<and> rest \<noteq> [] \<and> hd rest = CHR '':'' \<and>
            (\<forall>c \<in> set (tl body). FIELD_VCHAR c \<or> http_ws c)
         then Some (name, strip http_ws (tl body)) else None)"

definition header_groups :: "caps \<Rightarrow> bytes \<times> bytes" where
  "header_groups cs = (the (map_of cs ''name''), the (map_of cs ''value''))"

lemma strip_of_parts:
  assumes "field_value v" and "\<forall>c \<in> set (a @ b). http_ws c"
  shows "strip http_ws (a @ v @ b) = v"
proof (cases "v = []")
  case True
  have "lstrip http_ws (a @ b) = []" using assms(2) by (simp add: lstrip_def)
  with True show ?thesis by (simp add: strip_def)
next
  case False
  with assms have h: "\<not> http_ws (hd v)" "\<not> http_ws (last v)"
    using FIELD_VCHAR_not_ws by (auto simp: field_value_def)
  have "lstrip http_ws (a @ v @ b) = v @ b"
    using assms(2) h False by (cases v) (auto simp: lstrip_def dropWhile_append)
  moreover have "rstrip http_ws (v @ b) = v"
    using assms(2) h False by (cases v rule: rev_cases) (auto simp: rstrip_def dropWhile_append)
  ultimately show ?thesis by (simp add: strip_def)
qed

lemma strip_parts:
  assumes "\<forall>c \<in> set s. FIELD_VCHAR c \<or> http_ws c"
  shows "\<exists>a b. s = a @ strip http_ws s @ b \<and> (\<forall>c \<in> set (a @ b). http_ws c) \<and> field_value (strip http_ws s)"
proof -
  let ?l = "lstrip http_ws s" and ?v = "strip http_ws s"
  let ?b = "rev (takeWhile http_ws (rev ?l))"
  have s: "s = takeWhile http_ws s @ ?l" by (simp add: lstrip_def)
  have l: "?l = ?v @ ?b"
    by (metis rev_append rev_rev_ident rstrip_def strip_def takeWhile_dropWhile_id)
  have "field_value ?v"
  proof (cases "?v = []")
    case True
    then show ?thesis by (simp add: field_value_def)
  next
    case False
    then have nl: "?l \<noteq> []" using l by auto
    have "hd ?v = hd ?l" using False l by (metis hd_append2)
    then have "\<not> http_ws (hd ?v)" using nl lstrip_hd by metis
    moreover have "\<not> http_ws (last ?v)" using False rstrip_last by (metis strip_def)
    moreover have "\<forall>c \<in> set ?v. FIELD_VCHAR c \<or> http_ws c" using assms set_strip by blast
    ultimately show ?thesis using False by (auto simp: field_value_def)
  qed
  moreover have "s = takeWhile http_ws s @ ?v @ ?b" using s l by metis
  moreover have "\<forall>c \<in> set (takeWhile http_ws s @ ?b). http_ws c" by (auto dest: set_takeWhileD)
  ultimately show ?thesis by blast
qed

lemma header_field_way_spec:
  assumes "(cs, t) \<in> set (rmatch HEADER_FIELD_RE [] s)"
  shows "header_field_spec s = Some (header_groups cs)"
proof -
  from assms obtain name ws1 v ws2 where
    s: "s = name @ CHR '':'' # ws1 @ v @ ws2 @ t" and n: "name \<noteq> []" "\<forall>c \<in> set name. TCHAR c" and
    w: "\<forall>c \<in> set (ws1 @ ws2). http_ws c" and v: "field_value v" and
    t: "t = [] \<or> t = [LF]" and cs: "cs = [(''value'', v), (''name'', name)]"
    by (auto simp: header_field_ways)
  have tw: "takeWhile TCHAR s = name" "dropWhile TCHAR s = CHR '':'' # ws1 @ v @ ws2 @ t"
    using n unfolding s by (simp_all add: takeWhile_append dropWhile_append)
  have ok: "\<forall>c \<in> set (ws1 @ v @ ws2). FIELD_VCHAR c \<or> http_ws c"
    using w v by (auto simp: field_value_def)
  moreover have "\<not> (FIELD_VCHAR LF \<or> http_ws LF)" by simp
  ultimately have "LF \<notin> set (ws1 @ v @ ws2)" by blast
  then have nl: "LF \<notin> set (CHR '':'' # ws1 @ v @ ws2)" by simp
  then have "last (CHR '':'' # ws1 @ v @ ws2) \<noteq> LF" by (metis last_in_set list.discI)
  then have "(if last (CHR '':'' # ws1 @ v @ ws2 @ t) = LF then butlast (CHR '':'' # ws1 @ v @ ws2 @ t)
       else CHR '':'' # ws1 @ v @ ws2 @ t) = CHR '':'' # ws1 @ v @ ws2"
    using t by (auto simp: butlast_append)
  with ok show ?thesis
    by (simp add: header_field_spec_def tw n Let_def strip_of_parts [OF v w] header_groups_def cs)
qed

lemma header_field_spec_way:
  assumes "header_field_spec s = Some (name, value)"
  shows "\<exists>m. m \<in> set (rmatch HEADER_FIELD_RE [] s)"
proof -
  let ?rest = "dropWhile TCHAR s"
  define body where "body = (if ?rest \<noteq> [] \<and> last ?rest = LF then butlast ?rest else ?rest)"
  from assms have n: "takeWhile TCHAR s \<noteq> []" "?rest \<noteq> []" "hd ?rest = CHR '':''"
    "\<forall>c \<in> set (tl body). FIELD_VCHAR c \<or> http_ws c"
    by (auto simp: header_field_spec_def Let_def body_def split: if_splits)
  have b0: "body = ?rest \<or> (?rest = body @ [LF])"
    using append_butlast_last_id [OF n(2)] by (metis body_def)
  moreover have "body \<noteq> []"
  proof
    assume "body = []"
    with b0 n(2) have "?rest = [LF]" by (metis append_Nil)
    with n(3) show False by simp
  qed
  ultimately have "hd body = CHR '':''" using n(3) by (metis hd_append2)
  with \<open>body \<noteq> []\<close> have b: "body = CHR '':'' # tl body" by (metis list.collapse)
  have "?rest = body @ [] \<or> ?rest = body @ [LF]" using b0 by (metis append_Nil2)
  then obtain t where "t = [] \<or> t = [LF]" "?rest = body @ t" by blast
  with b have t: "t = [] \<or> t = [LF]" "?rest = CHR '':'' # tl body @ t" by (metis append_Cons)+
  from strip_parts [OF n(4)] obtain a c where
    ac: "tl body = a @ strip http_ws (tl body) @ c" "\<forall>x \<in> set (a @ c). http_ws x"
      "field_value (strip http_ws (tl body))"
    by blast
  have s: "s = takeWhile TCHAR s @ CHR '':'' # a @ strip http_ws (tl body) @ c @ t"
    using t ac(1) by (metis append.assoc append_Cons takeWhile_dropWhile_id)
  have "([(''value'', strip http_ws (tl body)), (''name'', takeWhile TCHAR s)], t)
      \<in> set (rmatch HEADER_FIELD_RE [] s)"
    unfolding header_field_ways using s n(1) ac(2,3) t(1) by (blast dest: set_takeWhileD)
  then show ?thesis ..
qed

text \<open>
  C33: the expression that splits a header line matches exactly the lines of the form token, colon,
  white space, field value, white space (and, because of its \<^verbatim>\<open>$\<close>, one line feed at the end);
  the groups it finds, in the order in which it backtracks, are the name and the value stripped.
\<close>

theorem header_field_match_spec:
  "map_option (\<lambda>(cs, t). header_groups cs) (re_match HEADER_FIELD_RE s) = header_field_spec s"
proof (cases "re_match HEADER_FIELD_RE s")
  case None
  then have "\<not> (\<exists>m. m \<in> set (rmatch HEADER_FIELD_RE [] s))" by (auto dest: re_match_NoneD)
  then have "header_field_spec s = None" using header_field_spec_way by (metis not_None_eq surj_pair)
  with None show ?thesis by simp
next
  case (Some m)
  then show ?thesis using header_field_way_spec re_match_SomeD by (cases m) fastforce
qed

end
