(* ===== verification/Utilities.thy ===== *)
theory Utilities
  imports Rfc7230
begin

text \<open>
  \<^verbatim>\<open>utilities.py\<close>: the end of a header block, the error responses, and the reading of quoted
  strings. The date functions are in the theory \<open>Http_Date\<close>.
\<close>

subsection \<open>find_double_newline\<close>

text \<open>The position just after the first blank line; \<^const>\<open>None\<close> for -1.\<close>

definition find_double_newline :: "bytes \<Rightarrow> nat option" where
  "find_double_newline s = (case bfind CRLF2 s of None \<Rightarrow> None | Some pos \<Rightarrow> Some (pos + 4))"

lemma fdn_None: "find_double_newline s = None \<longleftrightarrow> bfind CRLF2 s = None"
  by (simp add: find_double_newline_def split: option.splits)

lemma fdn_bounds [find_facts]: "find_double_newline s = Some i \<Longrightarrow> 4 \<le> i \<and> i \<le> length s"
  by (auto simp: find_double_newline_def dest: bfind_le split: option.splits)

lemma fdn_append_Some [find_facts]:
  "find_double_newline s = Some i \<Longrightarrow> find_double_newline (s @ t) = Some i"
  by (auto simp: find_double_newline_def bfind_append_Some split: option.splits)

lemma fdn_append_None [find_facts]:
  "find_double_newline s = None \<Longrightarrow> find_double_newline (s @ t) = Some i \<Longrightarrow> length s < i"
  by (auto simp: find_double_newline_def dest: bfind_append_None split: option.splits)

subsection \<open>Error responses\<close>

datatype http_error =
    BadRequest string
  | RequestHeaderFieldsTooLarge string
  | RequestEntityTooLarge string
  | InternalServerError string
  | ServerNotImplemented string

fun err_code :: "http_error \<Rightarrow> nat" where
  "err_code (BadRequest _) = 400"
| "err_code (RequestHeaderFieldsTooLarge _) = 431"
| "err_code (RequestEntityTooLarge _) = 413"
| "err_code (InternalServerError _) = 500"
| "err_code (ServerNotImplemented _) = 501"

fun err_reason :: "http_error \<Rightarrow> string" where
  "err_reason (BadRequest _) = ''Bad Request''"
| "err_reason (RequestHeaderFieldsTooLarge _) = ''Request Header Fields Too Large''"
| "err_reason (RequestEntityTooLarge _) = ''Request Entity Too Large''"
| "err_reason (InternalServerError _) = ''Internal Server Error''"
| "err_reason (ServerNotImplemented _) = ''Not Implemented''"

fun err_body :: "http_error \<Rightarrow> string" where
  "err_body (BadRequest b) = b"
| "err_body (RequestHeaderFieldsTooLarge b) = b"
| "err_body (RequestEntityTooLarge b) = b"
| "err_body (InternalServerError b) = b"
| "err_body (ServerNotImplemented b) = b"

text \<open>\<^verbatim>\<open>str.encode("utf-8")\<close> on code points below 256.\<close>

definition utf8_char :: "char \<Rightarrow> bytes" where
  "utf8_char c =
     (let n = of_char c :: nat
      in if n < 128 then [c] else [char_of (192 + n div 64), char_of (128 + n mod 64)])"

definition utf8_encode :: "string \<Rightarrow> bytes" where
  "utf8_encode s = concat (map utf8_char s)"

definition to_response :: "string option \<Rightarrow> http_error \<Rightarrow> string \<times> (string \<times> string) list \<times> bytes" where
  "to_response ident e =
     (let status = str_of_nat (err_code e) @ '' '' @ err_reason e;
          body = err_reason e @ CRLF @ CRLF @ err_body e;
          ident = (case ident of None \<Rightarrow> ''server'' | Some i \<Rightarrow> if i = [] then ''server'' else i);
          tag = CRLF @ CRLF @ ''(generated by '' @ ident @ '')'';
          body = utf8_encode (body @ tag);
          headers = [(''Content-Type'', ''text/plain; charset=utf-8'')]
      in (status, headers, body))"

subsection \<open>undquote\<close>

abbreviation DQUOTE :: char where "DQUOTE \<equiv> CHR 0x22"
abbreviation BSLASH :: char where "BSLASH \<equiv> CHR 0x5C"

text \<open>\<^verbatim>\<open>r.sub(r"\1", s)\<close>: each match, from the left, is replaced by its group.\<close>

function re_sub_group :: "rx \<Rightarrow> string \<Rightarrow> bytes \<Rightarrow> bytes" where
  "re_sub_group r n s =
     (case s of
        [] \<Rightarrow> []
      | c # s' \<Rightarrow>
          (case re_match r s of
             None \<Rightarrow> c # re_sub_group r n s'
           | Some (cs, t) \<Rightarrow>
               if length t < length s then the (map_of cs n) @ re_sub_group r n t
               else c # re_sub_group r n s'))"
  by pat_completeness auto
termination
  by (relation "measure (\<lambda>(r, n, s). length s)") auto

declare re_sub_group.simps [simp del]

definition undquote :: "string \<Rightarrow> exn + string" where
  "undquote value =
     (let starts = (value \<noteq> [] \<and> hd value = DQUOTE); ends = (value \<noteq> [] \<and> last value = DQUOTE);
          err = Inl (ValueError ''Invalid quoting in value'')
      in if starts \<and> ends
         then (case re_match QUOTED_STRING value of
                 Some (cs, []) \<Rightarrow> Inr (re_sub_group QUOTED_PAIR ''1'' (butlast (tl value)))
               | _ \<Rightarrow> err)
         else if \<not> starts \<and> \<not> ends then Inr value else err)"

text \<open>The quoted form of a string: what \<^const>\<open>undquote\<close> undoes.\<close>

fun quote_chars :: "string \<Rightarrow> string" where
  "quote_chars [] = []"
| "quote_chars (c # s) = (if c = DQUOTE \<or> c = BSLASH then [BSLASH, c] else [c]) @ quote_chars s"

definition dquote :: "string \<Rightarrow> string" where
  "dquote s = DQUOTE # quote_chars s @ [DQUOTE]"

lemma quotable_special [simp]: "quotable DQUOTE" "quotable BSLASH"
  by (simp_all add: quotable_def VCHAR_def in_range_def)

lemma QDTEXT_special [simp]: "\<not> QDTEXT DQUOTE" "\<not> QDTEXT BSLASH"
  by (simp_all add: QDTEXT_def OBS_TEXT_def in_range_def)

lemma QDTEXT_iff: "QDTEXT c \<longleftrightarrow> quotable c \<and> c \<noteq> DQUOTE \<and> c \<noteq> BSLASH"
proof -
  define n where "n = (of_char c :: nat)"
  have eq: "c = HT \<longleftrightarrow> n = 9" "c = SP \<longleftrightarrow> n = 32" "c = CHR 0x21 \<longleftrightarrow> n = 33"
    "c = DQUOTE \<longleftrightarrow> n = 34" "c = BSLASH \<longleftrightarrow> n = 92"
    unfolding n_def using of_char_eq_iff [of c HT, where 'a = nat] of_char_eq_iff [of c SP, where 'a = nat]
      of_char_eq_iff [of c "CHR 0x21", where 'a = nat] of_char_eq_iff [of c DQUOTE, where 'a = nat]
      of_char_eq_iff [of c BSLASH, where 'a = nat] by simp_all
  show ?thesis
    unfolding QDTEXT_def quotable_def VCHAR_def OBS_TEXT_def in_range_def eq n_def [symmetric]
    by presburger
qed

lemma quoted_pair_match:
  "re_match QUOTED_PAIR s =
     (case s of b # c # t \<Rightarrow> if b = BSLASH \<and> quotable c then Some ([(''1'', [c])], t) else None | _ \<Rightarrow> None)"
  by (auto simp: re_match_def QUOTED_PAIR_def rmatch_basic split: list.splits)

lemma sub_quoted_pairs:
  "\<forall>c \<in> set s. quotable c \<Longrightarrow> re_sub_group QUOTED_PAIR ''1'' (quote_chars s) = s"
proof (induction s)
  case Nil
  then show ?case by (simp add: re_sub_group.simps)
next
  case (Cons c s)
  then show ?case
    by (subst re_sub_group.simps) (auto simp: quoted_pair_match split: list.splits)
qed

text \<open>What the starred body of a quoted string consumes: plain characters and escaped pairs.\<close>

fun quoted_units :: "bytes \<Rightarrow> bool" where
  "quoted_units [] = True"
| "quoted_units [c] = QDTEXT c"
| "quoted_units (c # d # u) =
     (if c = BSLASH then quotable d \<and> quoted_units u else QDTEXT c \<and> quoted_units (d # u))"

abbreviation quoted_body :: rx where
  "quoted_body \<equiv> RStar True (RAlt (RCls QDTEXT) QUOTED_PAIR)"

lemma quoted_units_plain: "QDTEXT c \<Longrightarrow> quoted_units (c # u) = quoted_units u"
  by (cases u) auto

lemma quoted_body_sound:
  assumes "(cs', t) \<in> set (rmatch quoted_body cs s)"
  shows "\<exists>u. s = u @ t \<and> quoted_units u"
proof (rule rmatch_star_rule [OF assms, where P = quoted_units])
  fix cs cs1 u t v
  assume m: "(cs1, t) \<in> set (rmatch (RAlt (RCls QDTEXT) QUOTED_PAIR) cs (u @ t))"
    and "u \<noteq> []" and v: "quoted_units v"
  from m consider (plain) c where "u = [c]" "QDTEXT c" | (pair) d where "u = [BSLASH, d]" "quotable d"
    by (auto simp: rmatch_basic QUOTED_PAIR_def elim!: rmatch_clsE)
  then show "quoted_units (u @ v)"
    by cases (use v in \<open>auto simp: quoted_units_plain\<close>)
qed simp

lemma quoted_body_complete:
  "quoted_units u \<Longrightarrow> \<exists>cs'. (cs', t) \<in> set (rmatch quoted_body cs (u @ t))"
proof (induction u arbitrary: cs rule: quoted_units.induct)
  case 1
  then show ?case by (subst rmatch_star_unfold) auto
next
  case (2 c)
  have "(cs, t) \<in> set (rmatch quoted_body cs t)" by (subst rmatch_star_unfold) simp
  with 2 show ?case by (subst rmatch_star_unfold) (force simp: rmatch_basic)
next
  case (3 c d u)
  show ?case
  proof (cases "c = BSLASH")
    case True
    with 3 obtain cs' where "(cs', t) \<in> set (rmatch quoted_body ((''1'', [d]) # cs) (u @ t))" by auto
    with True 3(3) show ?thesis
      by (subst rmatch_star_unfold) (force simp: rmatch_basic QUOTED_PAIR_def)
  next
    case False
    with 3 obtain cs' where "(cs', t) \<in> set (rmatch quoted_body cs (d # u @ t))" by auto
    with False 3(3) show ?thesis by (subst rmatch_star_unfold) (force simp: rmatch_basic)
  qed
qed

lemma quoted_units_quote_chars: "\<forall>c \<in> set s. quotable c \<Longrightarrow> quoted_units (quote_chars s)"
  by (induction s) (auto simp: QDTEXT_iff quoted_units_plain)

lemma quoted_units_stop:
  "quoted_units u \<Longrightarrow> u @ DQUOTE # t = quote_chars s @ [DQUOTE] \<Longrightarrow> t = []"
proof (induction s arbitrary: u)
  case Nil
  then show ?case by (cases u) auto
next
  case (Cons c s)
  show ?case
  proof (cases "c = DQUOTE \<or> c = BSLASH")
    case True
    with Cons.prems have eq: "u @ DQUOTE # t = BSLASH # c # quote_chars s @ [DQUOTE]" by auto
    then obtain u1 where u1: "u = BSLASH # u1" "u1 @ DQUOTE # t = c # quote_chars s @ [DQUOTE]"
      by (cases u) auto
    then have "u1 \<noteq> []" using Cons.prems(1) by auto
    with u1 obtain u' where u': "u = BSLASH # c # u'" "u' @ DQUOTE # t = quote_chars s @ [DQUOTE]"
      by (cases u1) auto
    then show ?thesis using Cons.IH [of u'] Cons.prems(1) by simp
  next
    case False
    with Cons.prems obtain u' where u: "u = c # u'" "u' @ DQUOTE # t = quote_chars s @ [DQUOTE]"
      by (cases u) auto
    with Cons.prems(1) have "QDTEXT c" using False by (cases u') (auto split: if_splits)
    then show ?thesis using Cons.IH [of u'] Cons.prems(1) u by (simp add: quoted_units_plain)
  qed
qed

lemma quoted_string_ways:
  "(cs', t) \<in> set (rmatch QUOTED_STRING cs (DQUOTE # s)) \<Longrightarrow> \<exists>u. s = u @ DQUOTE # t \<and> quoted_units u"
  unfolding QUOTED_STRING_def rseq.simps
  by (elim rmatch_seqE rmatch_clsE) (auto dest!: quoted_body_sound)

lemma quoted_string_match:
  assumes "\<forall>c \<in> set s. quotable c"
  shows "\<exists>cs. re_match QUOTED_STRING (dquote s) = Some (cs, [])"
proof -
  let ?q = "quote_chars s"
  from quoted_body_complete [OF quoted_units_quote_chars [OF assms], of "[DQUOTE]" "[]"] obtain cs
    where "(cs, [DQUOTE]) \<in> set (rmatch quoted_body [] (?q @ [DQUOTE]))" ..
  moreover have "([], ?q @ [DQUOTE]) \<in> set (rmatch (RCls (\<lambda>c. c = DQUOTE)) [] (dquote s))"
    by (simp add: dquote_def rmatch_basic)
  moreover have "(cs, []) \<in> set (rmatch (RCls (\<lambda>c. c = DQUOTE)) cs [DQUOTE])"
    by (simp add: rmatch_basic)
  ultimately have "(cs, []) \<in> set (rmatch QUOTED_STRING [] (dquote s))"
    unfolding QUOTED_STRING_def rseq.simps by (blast intro: rmatch_seqI)
  then obtain cs' t where m: "re_match QUOTED_STRING (dquote s) = Some (cs', t)"
    using re_match_Some_iff by fastforce
  then have "(cs', t) \<in> set (rmatch QUOTED_STRING [] (DQUOTE # ?q @ [DQUOTE]))"
    unfolding dquote_def by (rule re_match_SomeD)
  then obtain u where "?q @ [DQUOTE] = u @ DQUOTE # t" "quoted_units u"
    using quoted_string_ways by blast
  then have "t = []" using quoted_units_stop [of u t s] by simp
  with m show ?thesis by blast
qed

text \<open>
  \<^verbatim>\<open>undquote\<close> undoes quoting. A string of quotable characters, put in double quotes with
  its quotes and backslashes escaped, is read back unchanged.
\<close>

theorem undquote_dquote:
  assumes "\<forall>c \<in> set s. quotable c"
  shows "undquote (dquote s) = Inr s"
proof -
  from quoted_string_match [OF assms] obtain cs where "re_match QUOTED_STRING (dquote s) = Some (cs, [])" ..
  then show ?thesis
    using sub_quoted_pairs [OF assms] by (simp add: undquote_def Let_def) (simp add: dquote_def)
qed

theorem undquote_dquote_witness:
  "undquote (dquote [CHR ''a'', DQUOTE, BSLASH]) = Inr [CHR ''a'', DQUOTE, BSLASH]"
  by (rule undquote_dquote) (simp add: quotable_def VCHAR_def in_range_def)

end
