(* ===== verification/Http_Date.thy ===== *)
theory Http_Date
  imports Prelude
begin

text \<open>
  \<^verbatim>\<open>utilities.build_http_date\<close>: the value of the \<^verbatim>\<open>Date\<close> header, with \<^verbatim>\<open>time.gmtime\<close> for a whole
  number of seconds since 1970 (Python drops the fraction).
\<close>

definition leap_year :: "nat \<Rightarrow> bool" where
  "leap_year y \<longleftrightarrow> y mod 4 = 0 \<and> (y mod 100 \<noteq> 0 \<or> y mod 400 = 0)"

definition year_length :: "nat \<Rightarrow> nat" where
  "year_length y = (if leap_year y then 366 else 365)"

definition month_lengths :: "nat \<Rightarrow> nat list" where
  "month_lengths y = [31, if leap_year y then 29 else 28, 31, 30, 31, 30, 31, 31, 30, 31, 30, 31]"

text \<open>The year, the month (from 1) and the day of the month (from 1) of a number of days.\<close>

function find_year :: "nat \<Rightarrow> nat \<Rightarrow> nat \<times> nat" where
  "find_year y d = (if d < year_length y then (y, d) else find_year (y + 1) (d - year_length y))"
  by pat_completeness auto
termination
  by (relation "measure (\<lambda>(y, d). d)") (auto simp: year_length_def)

declare find_year.simps [simp del]

fun find_month :: "nat list \<Rightarrow> nat \<Rightarrow> nat \<Rightarrow> nat \<times> nat" where
  "find_month [] m d = (m, d)"
| "find_month (l # ls) m d = (if d < l then (m, d) else find_month ls (m + 1) (d - l))"

record gmtime =
  tm_year :: nat
  tm_mon :: nat
  tm_mday :: nat
  tm_hour :: nat
  tm_min :: nat
  tm_sec :: nat
  tm_wday :: nat

definition gmtime :: "nat \<Rightarrow> gmtime" where
  "gmtime when =
     (let days = when div 86400; s = when mod 86400;
          (y, yd) = find_year 1970 days; (m, md) = find_month (month_lengths y) 1 yd
      in \<lparr>tm_year = y, tm_mon = m, tm_mday = md + 1, tm_hour = s div 3600, tm_min = s mod 3600 div 60,
          tm_sec = s mod 60, tm_wday = (days + 3) mod 7\<rparr>)"

definition weekdayname :: "string list" where
  "weekdayname = [''Mon'', ''Tue'', ''Wed'', ''Thu'', ''Fri'', ''Sat'', ''Sun'']"

definition monthname :: "string list" where
  "monthname = [[], ''Jan'', ''Feb'', ''Mar'', ''Apr'', ''May'', ''Jun'', ''Jul'', ''Aug'', ''Sep'',
     ''Oct'', ''Nov'', ''Dec'']"

text \<open>\<^verbatim>\<open>%0wd\<close> and \<^verbatim>\<open>%wd\<close>.\<close>

definition pad :: "char \<Rightarrow> nat \<Rightarrow> nat \<Rightarrow> string" where
  "pad c w n = (let s = str_of_nat n in replicate (w - length s) c @ s)"

definition build_http_date :: "nat \<Rightarrow> string" where
  "build_http_date when =
     (let t = gmtime when; two = pad (CHR ''0'') 2
      in weekdayname ! tm_wday t @ '', '' @ two (tm_mday t) @ '' '' @ monthname ! tm_mon t @ '' '' @
         pad SP 4 (tm_year t) @ '' '' @ two (tm_hour t) @ '':'' @ two (tm_min t) @ '':'' @
         two (tm_sec t) @ '' GMT'')"

subsection \<open>The calendar\<close>

lemma find_year_ok:
  "find_year y d = (y', d') \<Longrightarrow> d' < year_length y' \<and> y \<le> y' \<and> d = d' + sum_list (map year_length [y..<y'])"
proof (induction y d rule: find_year.induct)
  case (1 y d)
  show ?case
  proof (cases "d < year_length y")
    case True
    with "1.prems" show ?thesis by (simp add: find_year.simps [of y d])
  next
    case False
    with "1.prems" have r: "find_year (y + 1) (d - year_length y) = (y', d')"
      by (simp add: find_year.simps [of y d])
    have "d = (d - year_length y) + year_length y" using False by simp
    with "1.IH" [OF False r] show ?thesis by (simp add: upt_conv_Cons)
  qed
qed

lemma find_month_ok:
  "find_month ls m d = (m', d') \<Longrightarrow> d < sum_list ls \<Longrightarrow>
   m \<le> m' \<and> m' - m < length ls \<and> d' < ls ! (m' - m) \<and> d = d' + sum_list (take (m' - m) ls)"
proof (induction ls m d rule: find_month.induct)
  case (2 l ls m d)
  show ?case
  proof (cases "d < l")
    case True
    with "2.prems" show ?thesis by simp
  next
    case False
    with "2.prems" have "find_month ls (m + 1) (d - l) = (m', d')" "d - l < sum_list ls" by auto
    from "2.IH" [OF False this] have
      ih: "m + 1 \<le> m'" "m' - (m + 1) < length ls" "d' < ls ! (m' - (m + 1))"
        "d - l = d' + sum_list (take (m' - (m + 1)) ls)" by auto
    from ih(1) have s: "m' - m = Suc (m' - (m + 1))" by simp
    show ?thesis unfolding s using ih False by auto
  qed
qed simp

lemma month_lengths_sum: "sum_list (month_lengths y) = year_length y"
  by (simp add: month_lengths_def year_length_def)

text \<open>\<^verbatim>\<open>calendar.timegm\<close>, the inverse.\<close>

definition timegm :: "gmtime \<Rightarrow> nat" where
  "timegm t =
     ((sum_list (map year_length [1970..<tm_year t]) + sum_list (take (tm_mon t - 1) (month_lengths (tm_year t)))
        + (tm_mday t - 1)) * 24 + tm_hour t) * 3600 + tm_min t * 60 + tm_sec t"

lemma hms: "s < 86400 \<Longrightarrow> (s div 3600) * 3600 + (s mod 3600 div 60) * 60 + s mod 60 = (s :: nat)"
proof -
  have "s mod 60 = s mod 3600 mod 60" by (simp add: mod_mod_cancel)
  then have "(s mod 3600 div 60) * 60 + s mod 60 = s mod 3600" by simp
  moreover have "s div 3600 * 3600 + s mod 3600 = s" by simp
  ultimately show ?thesis by linarith
qed

text \<open>
  The calendar behind the \<^verbatim>\<open>Date\<close> header. The broken-down time of any number of seconds since
  1970 has a month from 1 to 12, a day that this month of this year has, hours, minutes and seconds in
  range, and converts back to the same number of seconds.
\<close>

theorem gmtime_correct:
  "let t = gmtime when in
     timegm t = when \<and> 1 \<le> tm_mon t \<and> tm_mon t \<le> 12 \<and> 1 \<le> tm_mday t \<and>
     tm_mday t \<le> month_lengths (tm_year t) ! (tm_mon t - 1) \<and>
     tm_hour t < 24 \<and> tm_min t < 60 \<and> tm_sec t < 60 \<and> tm_wday t < 7"
proof -
  let ?d = "when div 86400" and ?s = "when mod 86400"
  obtain y yd where y: "find_year 1970 ?d = (y, yd)" by fastforce
  obtain m md where m: "find_month (month_lengths y) 1 yd = (m, md)" by fastforce
  note yo = find_year_ok [OF y]
  have "yd < sum_list (month_lengths y)" using yo by (simp add: month_lengths_sum)
  note mo = find_month_ok [OF m this]
  have l: "length (month_lengths y) = 12" by (simp add: month_lengths_def)
  have g: "gmtime when = \<lparr>tm_year = y, tm_mon = m, tm_mday = md + 1, tm_hour = ?s div 3600,
      tm_min = ?s mod 3600 div 60, tm_sec = ?s mod 60, tm_wday = (?d + 3) mod 7\<rparr>"
    by (simp add: gmtime_def y m [unfolded One_nat_def] Let_def)
  have "timegm (gmtime when) = (?d * 24 + ?s div 3600) * 3600 + (?s mod 3600 div 60) * 60 + ?s mod 60"
    using yo mo by (simp add: g timegm_def)
  also have "\<dots> = ?d * 86400 + (?s div 3600 * 3600 + ?s mod 3600 div 60 * 60 + ?s mod 60)"
    by (simp only: algebra_simps)
  also have "\<dots> = ?d * 86400 + ?s" using hms [of ?s] by simp
  also have "\<dots> = when" by (rule div_mult_mod_eq)
  finally have "timegm (gmtime when) = when" .
  moreover have "?s div 3600 < 24" by (simp add: less_mult_imp_div_less)
  moreover have "?s mod 3600 div 60 < 60" by (simp add: less_mult_imp_div_less)
  moreover have "m \<le> 12" using mo l by linarith
  ultimately show ?thesis using mo by (simp add: g)
qed

lemma gmtime_range: "tm_mon (gmtime when) \<le> 12" "tm_wday (gmtime when) < 7"
proof -
  let ?d = "when div 86400"
  obtain y yd where y: "find_year 1970 ?d = (y, yd)" by fastforce
  obtain m md where m: "find_month (month_lengths y) 1 yd = (m, md)" by fastforce
  have "yd < sum_list (month_lengths y)" using find_year_ok [OF y] by (simp add: month_lengths_sum)
  moreover have "length (month_lengths y) = 12" by (simp add: month_lengths_def)
  ultimately have "m \<le> 12" using find_month_ok [OF m] by linarith
  then show "tm_mon (gmtime when) \<le> 12" "tm_wday (gmtime when) < 7"
    by (simp_all add: gmtime_def y m [unfolded One_nat_def] Let_def)
qed

lemma pad_chars: "c \<in> set (pad p w n) \<Longrightarrow> c = p \<or> is_digit c"
  by (auto simp: pad_def Let_def dest: str_of_nat_digit split: if_splits)

lemma http_date_no_newline: "CR \<notin> set (build_http_date when) \<and> LF \<notin> set (build_http_date when)"
proof -
  have "list_all (\<lambda>s. CR \<notin> set s \<and> LF \<notin> set s) weekdayname" by (simp add: weekdayname_def)
  then have w: "CR \<notin> set (weekdayname ! tm_wday (gmtime when)) \<and> LF \<notin> set (weekdayname ! tm_wday (gmtime when))"
    using gmtime_range [of "when"] by (auto simp: list_all_length weekdayname_def)
  have "list_all (\<lambda>s. CR \<notin> set s \<and> LF \<notin> set s) monthname" by (simp add: monthname_def)
  moreover have "tm_mon (gmtime when) < length monthname"
    using gmtime_range [of "when"] by (simp add: monthname_def)
  ultimately have m: "CR \<notin> set (monthname ! tm_mon (gmtime when)) \<and> LF \<notin> set (monthname ! tm_mon (gmtime when))"
    by (simp add: list_all_length)
  have p: "CR \<notin> set (pad c k n) \<and> LF \<notin> set (pad c k n)" if "c \<noteq> CR" "c \<noteq> LF" for c k n
    using that pad_chars [of _ c k n] is_digit_not_ctl by metis
  show ?thesis using w m p by (simp add: build_http_date_def Let_def)
qed

end
