(* ===== verification/Buffers.thy ===== *)
theory Buffers
  imports Prelude
begin

text \<open>
  \<^verbatim>\<open>buffers.py\<close>: file-based buffers, the overflowable buffer that starts as a byte string and
  moves to memory and then to a temporary file, and the read-only file wrapper. A Python file
  object is its data, its position and whether it is closed; \<^verbatim>\<open>BytesIO\<close> and a temporary file
  behave alike and differ in their kind only. Reading or writing a closed file (a
  \<^verbatim>\<open>ValueError\<close> in Python) has no meaning here: the invariants say that the file is open, and
  only \<^verbatim>\<open>close\<close> closes it.

  The abstract view of a buffer is its content, the bytes not yet taken out. The locales
  \<open>byte_sink\<close> and \<open>byte_queue\<close> say what the receivers and the channel rely on.
\<close>

definition COPY_BYTES :: nat where "COPY_BYTES = 262144"
definition STRBUF_LIMIT :: nat where "STRBUF_LIMIT = 8192"

subsection \<open>Files\<close>

record pyfile =
  f_data :: bytes
  f_pos :: nat
  f_closed :: bool

definition file_new :: pyfile where
  "file_new = \<lparr>f_data = [], f_pos = 0, f_closed = False\<rparr>"

definition file_tell :: "pyfile \<Rightarrow> nat" where
  "file_tell f = f_pos f"

text \<open>\<^verbatim>\<open>seek(offset, whence)\<close>: from the start (0), the position (1) or the end (2).\<close>

definition file_seek :: "nat \<Rightarrow> nat \<Rightarrow> pyfile \<Rightarrow> pyfile" where
  "file_seek off whence f =
     f\<lparr>f_pos := (if whence = 0 then off else if whence = 1 then f_pos f + off
                 else length (f_data f) + off)\<rparr>"

text \<open>\<^verbatim>\<open>read(n)\<close>, everything when \<open>n\<close> is negative.\<close>

definition file_read :: "int \<Rightarrow> pyfile \<Rightarrow> bytes \<times> pyfile" where
  "file_read n f =
     (let rest = drop (f_pos f) (f_data f);
          res = (if n < 0 then rest else take (nat n) rest)
      in (res, f\<lparr>f_pos := f_pos f + length res\<rparr>))"

text \<open>\<^verbatim>\<open>write(s)\<close> overwrites from the position on; a gap after the end is filled with zeros.\<close>

definition file_write :: "bytes \<Rightarrow> pyfile \<Rightarrow> pyfile" where
  "file_write s f =
     (if s = [] then f
      else f\<lparr>f_data := take (f_pos f) (f_data f) @ replicate (f_pos f - length (f_data f)) (CHR 0x00)
                      @ s @ drop (f_pos f + length s) (f_data f),
             f_pos := f_pos f + length s\<rparr>)"

definition file_close :: "pyfile \<Rightarrow> pyfile" where
  "file_close f = f\<lparr>f_closed := True\<rparr>"

subsection \<open>The copy loop\<close>

text \<open>\<^verbatim>\<open>while True: data = src.read(COPY_BYTES); if not data: break; dst.write(data)\<close>\<close>

function copy_loop :: "pyfile \<Rightarrow> pyfile \<Rightarrow> pyfile \<times> pyfile" where
  "copy_loop src dst =
     (let (data, src') = file_read (int COPY_BYTES) src
      in if data = [] then (src', dst) else copy_loop src' (file_write data dst))"
  by pat_completeness auto
termination
  by (relation "measure (\<lambda>(src, dst). length (f_data src) - f_pos src)")
    (auto simp: file_read_def Let_def COPY_BYTES_def)

declare copy_loop.simps [simp del]

lemma file_write_at_end:
  "f_pos f = length (f_data f) \<Longrightarrow>
   file_write s f = f\<lparr>f_data := f_data f @ s, f_pos := length (f_data f) + length s\<rparr>"
  by (cases f) (auto simp: file_write_def)

lemma copy_loop_copies:
  "f_pos dst = length (f_data dst) \<Longrightarrow>
   copy_loop src dst =
     (src\<lparr>f_pos := max (f_pos src) (length (f_data src))\<rparr>,
      dst\<lparr>f_data := f_data dst @ drop (f_pos src) (f_data src),
          f_pos := length (f_data dst) + (length (f_data src) - f_pos src)\<rparr>)"
proof (induction src dst rule: copy_loop.induct)
  case (1 src dst)
  let ?rest = "drop (f_pos src) (f_data src)"
  define data where "data = take COPY_BYTES ?rest"
  define src' where "src' = src\<lparr>f_pos := f_pos src + length data\<rparr>"
  have r: "file_read (int COPY_BYTES) src = (data, src')"
    by (simp add: file_read_def data_def src'_def Let_def)
  show ?case
  proof (cases "data = []")
    case True
    then have "length (f_data src) \<le> f_pos src" by (simp add: data_def COPY_BYTES_def)
    with True "1.prems" r show ?thesis
      by (subst copy_loop.simps) (simp add: src'_def max_absorb1)
  next
    case False
    let ?dst' = "file_write data dst"
    have d: "?dst' = dst\<lparr>f_data := f_data dst @ data, f_pos := length (f_data dst) + length data\<rparr>"
      using "1.prems" by (rule file_write_at_end)
    have "take (length data) ?rest = data" by (simp add: data_def min_def)
    moreover have "drop (f_pos src + length data) (f_data src) = drop (length data) ?rest"
      by (simp add: add.commute)
    moreover have len: "length data \<le> length (f_data src) - f_pos src" "f_pos src < length (f_data src)"
      using False by (simp_all add: data_def)
    ultimately have app: "data @ drop (f_pos src + length data) (f_data src) = ?rest"
      by (metis append_take_drop_id)
    have "copy_loop src dst = copy_loop src' ?dst'"
      using False r by (subst copy_loop.simps) simp
    also have "\<dots> = (src'\<lparr>f_pos := max (f_pos src') (length (f_data src'))\<rparr>,
      ?dst'\<lparr>f_data := f_data ?dst' @ drop (f_pos src') (f_data src'),
          f_pos := length (f_data ?dst') + (length (f_data src') - f_pos src')\<rparr>)"
      using "1.IH" [OF r [symmetric] refl False] by (simp add: d)
    also have "\<dots> = (src\<lparr>f_pos := max (f_pos src) (length (f_data src))\<rparr>,
      dst\<lparr>f_data := f_data dst @ ?rest,
          f_pos := length (f_data dst) + (length (f_data src) - f_pos src)\<rparr>)"
      using app len by (auto simp: src'_def d)
    finally show ?thesis .
  qed
qed

subsection \<open>FileBasedBuffer\<close>

datatype fkind = BytesIOKind | TempfileKind

record fbuf =
  fb_kind :: fkind          \<comment> \<open>which subclass: what \<^verbatim>\<open>newfile\<close> makes\<close>
  fb_file :: pyfile
  fb_remain :: int

definition newfile :: "fkind \<Rightarrow> pyfile" where
  "newfile k = file_new"

text \<open>\<^verbatim>\<open>FileBasedBuffer.__init__(file, from_buffer)\<close>, with the empty file the subclasses pass.\<close>

definition fb_init :: "fkind \<Rightarrow> fbuf option \<Rightarrow> fbuf" where
  "fb_init k from =
     (case from of
        None \<Rightarrow> \<lparr>fb_kind = k, fb_file = newfile k, fb_remain = 0\<rparr>
      | Some fb \<Rightarrow>
          let read_pos = file_tell (fb_file fb);
              (_, file) = copy_loop (file_seek 0 0 (fb_file fb)) (newfile k);
              remain = int (file_tell file) - int read_pos
          in \<lparr>fb_kind = k, fb_file = file_seek read_pos 0 file, fb_remain = remain\<rparr>)"

definition fb_len :: "fbuf \<Rightarrow> int" where
  "fb_len b = fb_remain b"

definition fb_append :: "fbuf \<Rightarrow> bytes \<Rightarrow> fbuf" where
  "fb_append b s =
     (let read_pos = file_tell (fb_file b);
          file = file_write s (file_seek 0 2 (fb_file b))
      in b\<lparr>fb_file := file_seek read_pos 0 file, fb_remain := fb_remain b + int (length s)\<rparr>)"

definition fb_get :: "int \<Rightarrow> bool \<Rightarrow> fbuf \<Rightarrow> bytes \<times> fbuf" where
  "fb_get numbytes skip b =
     (let read_pos = file_tell (fb_file b);
          (res, file) = file_read numbytes (fb_file b)
      in if skip then (res, b\<lparr>fb_file := file, fb_remain := fb_remain b - int (length res)\<rparr>)
         else (res, b\<lparr>fb_file := file_seek read_pos 0 file\<rparr>))"

definition skip_error :: "nat \<Rightarrow> int \<Rightarrow> exn" where
  "skip_error n remain =
     ValueError (''Can'' @ [CHR 0x27] @ ''t skip '' @ str_of_nat n @ '' bytes in buffer of '' @ str_of_int remain @ '' bytes'')"

definition fb_skip :: "nat \<Rightarrow> fbuf \<Rightarrow> exn + fbuf" where
  "fb_skip numbytes b =
     (if fb_remain b < int numbytes then Inl (skip_error numbytes (fb_remain b))
      else Inr (b\<lparr>fb_file := file_seek numbytes 1 (fb_file b), fb_remain := fb_remain b - int numbytes\<rparr>))"

text \<open>\<^verbatim>\<open>prune\<close> copies what is unread into a new file, and leaves that file at its end.\<close>

definition fb_prune :: "fbuf \<Rightarrow> fbuf" where
  "fb_prune b =
     (let file = fb_file b in
      if fb_remain b = 0 \<and> file_tell (file_seek 0 2 file) = 0 then b
      else b\<lparr>fb_file := snd (copy_loop file (newfile (fb_kind b)))\<rparr>)"

definition fb_getfile :: "fbuf \<Rightarrow> pyfile" where
  "fb_getfile b = fb_file b"

definition fb_close :: "fbuf \<Rightarrow> fbuf" where
  "fb_close b = b\<lparr>fb_file := file_close (fb_file b), fb_remain := 0\<rparr>"

definition fb_content :: "fbuf \<Rightarrow> bytes" where
  "fb_content b = drop (f_pos (fb_file b)) (f_data (fb_file b))"

definition fb_wf :: "fbuf \<Rightarrow> bool" where
  "fb_wf b \<longleftrightarrow> f_pos (fb_file b) \<le> length (f_data (fb_file b)) \<and> \<not> f_closed (fb_file b)
     \<and> fb_remain b = int (length (fb_content b))"

lemmas file_defs = file_seek_def file_tell_def file_read_def file_close_def newfile_def file_new_def
lemmas fb_defs = fb_len_def fb_append_def fb_get_def fb_skip_def fb_content_def file_defs Let_def

lemma fb_new [simp]: "fb_wf (fb_init k None)" "fb_content (fb_init k None) = []" "fb_kind (fb_init k None) = k"
  "fb_remain (fb_init k None) = 0"
  by (simp_all add: fb_wf_def fb_init_def fb_content_def file_defs)

text \<open>Copying a buffer into a new one keeps its content and its invariant.\<close>

lemma fb_init_from:
  assumes "fb_wf b"
  shows "fb_wf (fb_init k (Some b)) \<and> fb_content (fb_init k (Some b)) = fb_content b
     \<and> fb_remain (fb_init k (Some b)) = fb_remain b \<and> fb_kind (fb_init k (Some b)) = k"
  using assms by (simp add: fb_init_def fb_wf_def fb_content_def copy_loop_copies file_defs Let_def)

lemma fb_append_ok [wf_rules, content_simps]:
  assumes "fb_wf b"
  shows "fb_wf (fb_append b s)" and "fb_content (fb_append b s) = fb_content b @ s"
  using assms by (simp_all add: fb_wf_def fb_defs file_write_at_end)

lemma fb_len_content: "fb_wf b \<Longrightarrow> fb_len b = int (length (fb_content b))"
  by (simp add: fb_wf_def fb_len_def)

lemma fb_append_len: "fb_remain (fb_append b s) = fb_remain b + int (length s)"
  by (simp add: fb_append_def Let_def)

lemma fb_kind_simps [simp]:
  "fb_kind (fb_append b s) = fb_kind b" "fb_kind (snd (fb_get n sk b)) = fb_kind b"
  "fb_kind (fb_prune b) = fb_kind b" "fb_kind (fb_close b) = fb_kind b"
  by (simp_all add: fb_append_def fb_get_def fb_prune_def fb_close_def Let_def split: prod.splits)

lemma fb_get_peek:
  "fb_wf b \<Longrightarrow> fb_get n False b = (if n < 0 then fb_content b else take (nat n) (fb_content b), b)"
  by (cases b) (auto simp: fb_wf_def fb_defs)

lemma fb_get_take:
  assumes "fb_wf b" and "fb_get n True b = (r, b')"
  shows "fb_wf b' \<and> fb_content b = r @ fb_content b' \<and> r = (if n < 0 then fb_content b else take (nat n) (fb_content b))"
  using assms by (auto simp: fb_wf_def fb_defs min_def split: if_splits)
    (metis append_take_drop_id drop_drop add.commute)+

lemma fb_skip_ok:
  "fb_wf b \<Longrightarrow> n \<le> length (fb_content b) \<Longrightarrow>
   \<exists>b'. fb_skip n b = Inr b' \<and> fb_wf b' \<and> fb_content b' = drop n (fb_content b) \<and> fb_kind b' = fb_kind b"
  by (auto simp: fb_wf_def fb_defs add.commute)

lemma fb_skip_err: "fb_wf b \<Longrightarrow> length (fb_content b) < n \<Longrightarrow> \<exists>e. fb_skip n b = Inl e"
  by (auto simp: fb_wf_def fb_skip_def)

subsection \<open>OverflowableBuffer\<close>

record overbuf =
  ob_overflow :: int
  ob_overflowed :: bool
  ob_buf :: "fbuf option"
  ob_strbuf :: bytes

definition ob_init :: "int \<Rightarrow> overbuf" where
  "ob_init overflow = \<lparr>ob_overflow = overflow, ob_overflowed = False, ob_buf = None, ob_strbuf = []\<rparr>"

definition ob_len :: "overbuf \<Rightarrow> int" where
  "ob_len b = (case ob_buf b of Some fb \<Rightarrow> fb_len fb | None \<Rightarrow> int (length (ob_strbuf b)))"

definition ob_bool :: "overbuf \<Rightarrow> bool" where
  "ob_bool b \<longleftrightarrow> 0 < ob_len b"

text \<open>The old buffer is copied and then closed; nothing else refers to it.\<close>

definition ob_set_small :: "overbuf \<Rightarrow> overbuf" where
  "ob_set_small b = b\<lparr>ob_buf := Some (fb_init BytesIOKind (ob_buf b)), ob_overflowed := False\<rparr>"

definition ob_set_large :: "overbuf \<Rightarrow> overbuf" where
  "ob_set_large b = b\<lparr>ob_buf := Some (fb_init TempfileKind (ob_buf b)), ob_overflowed := True\<rparr>"

text \<open>\<^verbatim>\<open>_create_buffer\<close> returns the buffer that it installs.\<close>

definition ob_create_buffer :: "overbuf \<Rightarrow> fbuf \<times> overbuf" where
  "ob_create_buffer b =
     (let b1 = (if ob_overflow b \<le> int (length (ob_strbuf b)) then ob_set_large b else ob_set_small b);
          buf = the (ob_buf b1)
      in if ob_strbuf b \<noteq> []
         then (let buf' = fb_append buf (ob_strbuf b)
               in (buf', b1\<lparr>ob_buf := Some buf', ob_strbuf := []\<rparr>))
         else (buf, b1))"

definition ob_the_buffer :: "overbuf \<Rightarrow> fbuf \<times> overbuf" where
  "ob_the_buffer b = (case ob_buf b of None \<Rightarrow> ob_create_buffer b | Some fb \<Rightarrow> (fb, b))"

definition ob_append :: "overbuf \<Rightarrow> bytes \<Rightarrow> overbuf" where
  "ob_append b s =
     (if ob_buf b = None \<and> length (ob_strbuf b) + length s < STRBUF_LIMIT
      then b\<lparr>ob_strbuf := ob_strbuf b @ s\<rparr>
      else let (buf, b1) = ob_the_buffer b;
               buf' = fb_append buf s;
               b2 = b1\<lparr>ob_buf := Some buf'\<rparr>
           in if \<not> ob_overflowed b2 \<and> ob_overflow b2 \<le> fb_len buf' then ob_set_large b2 else b2)"

definition ob_get :: "int \<Rightarrow> bool \<Rightarrow> overbuf \<Rightarrow> bytes \<times> overbuf" where
  "ob_get numbytes skip b =
     (if ob_buf b = None \<and> \<not> skip then (ob_strbuf b, b)
      else let (buf, b1) = ob_the_buffer b;
               (res, buf') = fb_get numbytes skip buf
           in (res, b1\<lparr>ob_buf := Some buf'\<rparr>))"

text \<open>A failing \<^verbatim>\<open>skip\<close> raises after the buffer was created; the state is returned with it.\<close>

definition ob_skip :: "nat \<Rightarrow> bool \<Rightarrow> overbuf \<Rightarrow> exn option \<times> overbuf" where
  "ob_skip numbytes allow_prune b =
     (if ob_buf b = None \<and> allow_prune \<and> numbytes = length (ob_strbuf b)
      then (None, b\<lparr>ob_strbuf := []\<rparr>)
      else let (buf, b1) = ob_the_buffer b
           in case fb_skip numbytes buf of
                Inl e \<Rightarrow> (Some e, b1)
              | Inr buf' \<Rightarrow> (None, b1\<lparr>ob_buf := Some buf'\<rparr>))"

definition ob_prune :: "overbuf \<Rightarrow> overbuf" where
  "ob_prune b =
     (case ob_buf b of
        None \<Rightarrow> b\<lparr>ob_strbuf := []\<rparr>
      | Some buf \<Rightarrow>
          let buf' = fb_prune buf; b1 = b\<lparr>ob_buf := Some buf'\<rparr>
          in if ob_overflowed b1 \<and> fb_len buf' < ob_overflow b1 then ob_set_small b1 else b1)"

definition ob_getfile :: "overbuf \<Rightarrow> pyfile \<times> overbuf" where
  "ob_getfile b = (let (buf, b1) = ob_the_buffer b in (fb_getfile buf, b1))"

definition ob_close :: "overbuf \<Rightarrow> overbuf" where
  "ob_close b = (case ob_buf b of None \<Rightarrow> b | Some buf \<Rightarrow> b\<lparr>ob_buf := Some (fb_close buf)\<rparr>)"

definition ob_content :: "overbuf \<Rightarrow> bytes" where
  "ob_content b = (case ob_buf b of None \<Rightarrow> ob_strbuf b | Some fb \<Rightarrow> fb_content fb)"

text \<open>
  The invariant: one of the two stages holds the data, a byte string stays below
  \<^const>\<open>STRBUF_LIMIT\<close>, the flag says which kind of file is in use, and a buffer in memory holds
  fewer unread bytes than the overflow limit.
\<close>

definition ob_wf :: "overbuf \<Rightarrow> bool" where
  "ob_wf b \<longleftrightarrow>
     (case ob_buf b of
        None \<Rightarrow> \<not> ob_overflowed b \<and> length (ob_strbuf b) < STRBUF_LIMIT
      | Some fb \<Rightarrow> ob_strbuf b = [] \<and> fb_wf fb \<and> (ob_overflowed b \<longleftrightarrow> fb_kind fb = TempfileKind)
          \<and> (\<not> ob_overflowed b \<longrightarrow> fb_remain fb < ob_overflow b))"

lemma ob_init_ok [simp]: "ob_wf (ob_init n)" "ob_content (ob_init n) = []"
  "ob_overflow (ob_init n) = n"
  by (simp_all add: ob_wf_def ob_init_def ob_content_def STRBUF_LIMIT_def)

lemma ob_len_content: "ob_wf b \<Longrightarrow> ob_len b = int (length (ob_content b))"
  by (auto simp: ob_wf_def ob_len_def ob_content_def fb_wf_def fb_len_def split: option.splits)

lemma ob_set_ok:
  assumes "ob_buf b = Some fb" and "fb_wf fb"
  shows "ob_content (ob_set_large b) = ob_content b" and "ob_content (ob_set_small b) = ob_content b"
    and "ob_strbuf b = [] \<Longrightarrow> ob_wf (ob_set_large b)"
    and "ob_strbuf b = [] \<Longrightarrow> fb_remain fb < ob_overflow b \<Longrightarrow> ob_wf (ob_set_small b)"
  using assms fb_init_from [OF assms(2), of TempfileKind] fb_init_from [OF assms(2), of BytesIOKind]
  by (auto simp: ob_set_large_def ob_set_small_def ob_content_def ob_wf_def)

lemma ob_set_overflow [simp]:
  "ob_overflow (ob_set_large b) = ob_overflow b" "ob_overflow (ob_set_small b) = ob_overflow b"
  by (simp_all add: ob_set_large_def ob_set_small_def)

text \<open>Whatever stage the buffer is in, the file buffer that it hands out has its content.\<close>

lemma ob_the_buffer_ok:
  assumes "ob_wf b" and "ob_the_buffer b = (fb, b1)"
  shows "ob_buf b1 = Some fb" and "fb_wf fb" and "fb_content fb = ob_content b" and "ob_wf b1"
    and "ob_strbuf b1 = []" and "ob_overflow b1 = ob_overflow b"
proof -
  have "ob_buf b1 = Some fb \<and> fb_wf fb \<and> fb_content fb = ob_content b \<and> ob_wf b1
    \<and> ob_strbuf b1 = [] \<and> ob_overflow b1 = ob_overflow b"
  proof (cases "ob_buf b")
    case (Some fb')
    with assms show ?thesis by (auto simp: ob_the_buffer_def ob_content_def ob_wf_def)
  next
    case None
    with assms show ?thesis
      by (auto simp: ob_the_buffer_def ob_create_buffer_def Let_def ob_content_def ob_wf_def
          ob_set_large_def ob_set_small_def fb_append_len fb_append_ok split: if_splits)
  qed
  then show "ob_buf b1 = Some fb" "fb_wf fb" "fb_content fb = ob_content b" "ob_wf b1"
    "ob_strbuf b1 = []" "ob_overflow b1 = ob_overflow b" by simp_all
qed

lemma ob_content_buf: "ob_buf b = Some fb \<Longrightarrow> ob_content b = fb_content fb"
  by (simp add: ob_content_def)

lemma ob_append_ok [wf_rules, content_simps]:
  assumes "ob_wf b"
  shows "ob_wf (ob_append b s)" and "ob_content (ob_append b s) = ob_content b @ s"
proof -
  have "ob_wf (ob_append b s) \<and> ob_content (ob_append b s) = ob_content b @ s"
  proof (cases "ob_buf b = None \<and> length (ob_strbuf b) + length s < STRBUF_LIMIT")
    case True
    with assms show ?thesis by (auto simp: ob_append_def ob_wf_def ob_content_def)
  next
    case False
    obtain fb b1 where t: "ob_the_buffer b = (fb, b1)" by fastforce
    note ok = ob_the_buffer_ok [OF assms t]
    let ?b2 = "b1\<lparr>ob_buf := Some (fb_append fb s)\<rparr>"
    have eq: "ob_append b s =
        (if \<not> ob_overflowed ?b2 \<and> ob_overflow ?b2 \<le> fb_len (fb_append fb s) then ob_set_large ?b2 else ?b2)"
      unfolding ob_append_def Let_def using False t by auto
    have wf: "fb_wf (fb_append fb s)" using ok(2) by (rule fb_append_ok)
    show ?thesis
    proof (cases "\<not> ob_overflowed ?b2 \<and> ob_overflow ?b2 \<le> fb_len (fb_append fb s)")
      case True
      with eq ok ob_set_ok [of ?b2, OF _ wf] show ?thesis
        by (simp add: ob_content_buf fb_append_ok)
    next
      case small: False
      then show ?thesis unfolding eq if_not_P [OF small] using ok wf
        by (auto simp: ob_wf_def ob_content_buf fb_append_ok fb_len_def)
    qed
  qed
  then show "ob_wf (ob_append b s)" "ob_content (ob_append b s) = ob_content b @ s" by simp_all
qed

lemma ob_append_overflow [simp]: "ob_wf b \<Longrightarrow> ob_overflow (ob_append b s) = ob_overflow b"
  by (cases "ob_the_buffer b") (auto simp: ob_append_def Let_def dest: ob_the_buffer_ok(6))

text \<open>
  \<^verbatim>\<open>get\<close> without \<^verbatim>\<open>skip\<close> looks at a prefix of the content and changes nothing. In the byte-string
  stage it returns the whole content, whatever number was asked for.
\<close>

lemma ob_get_peek:
  assumes "ob_wf b"
  shows "ob_get n False b =
    (if ob_buf b = None \<or> n < 0 then ob_content b else take (nat n) (ob_content b), b)"
proof (cases "ob_buf b")
  case None
  then show ?thesis by (simp add: ob_get_def ob_content_def)
next
  case (Some fb)
  with assms have "fb_wf fb" by (simp add: ob_wf_def)
  with Some show ?thesis by (cases b) (simp add: ob_get_def ob_the_buffer_def fb_get_peek ob_content_def)
qed

lemma ob_get_take:
  assumes "ob_wf b" and "ob_get n True b = (r, b')"
  shows "ob_wf b' \<and> ob_content b = r @ ob_content b'
    \<and> r = (if n < 0 then ob_content b else take (nat n) (ob_content b))"
proof -
  obtain fb b1 where t: "ob_the_buffer b = (fb, b1)" by fastforce
  note ok = ob_the_buffer_ok [OF assms(1) t]
  obtain fb' where g: "fb_get n True fb = (r, fb')" and b': "b' = b1\<lparr>ob_buf := Some fb'\<rparr>"
    using assms(2) t by (auto simp: ob_get_def split: prod.splits)
  note f = fb_get_take [OF ok(2) g]
  have "length (fb_content fb') \<le> length (fb_content fb)" using f by simp
  then have "fb_remain fb' \<le> fb_remain fb" "fb_kind fb' = fb_kind fb"
    using f ok(2) fb_kind_simps(2) [of n True fb] g by (auto simp: fb_wf_def)
  then have "ob_wf b'" using f ok by (auto simp: b' ob_wf_def)
  moreover have "ob_content b' = fb_content fb'" by (simp add: b' ob_content_buf)
  ultimately show ?thesis using f ok(3) by metis
qed

lemma ob_skip_ok:
  assumes "ob_wf b" and "n \<le> length (ob_content b)"
  shows "\<exists>b'. ob_skip n ap b = (None, b') \<and> ob_wf b' \<and> ob_content b' = drop n (ob_content b)
    \<and> ob_overflow b' = ob_overflow b"
proof (cases "ob_buf b = None \<and> ap \<and> n = length (ob_strbuf b)")
  case True
  with assms show ?thesis by (auto simp: ob_skip_def ob_wf_def ob_content_def)
next
  case False
  obtain fb b1 where t: "ob_the_buffer b = (fb, b1)" by fastforce
  note ok = ob_the_buffer_ok [OF assms(1) t]
  from fb_skip_ok [OF ok(2)] assms(2) ok(3) obtain fb' where
    f: "fb_skip n fb = Inr fb'" "fb_wf fb'" "fb_content fb' = drop n (fb_content fb)" "fb_kind fb' = fb_kind fb"
    by metis
  have "fb_remain fb' \<le> fb_remain fb" using f ok(2) by (auto simp: fb_wf_def)
  with f ok False t show ?thesis by (auto simp: ob_skip_def ob_wf_def ob_content_buf)
qed

lemma ob_skip_err:
  assumes "ob_wf b" and "length (ob_content b) < n"
  shows "\<exists>e b'. ob_skip n ap b = (Some e, b') \<and> ob_wf b' \<and> ob_content b' = ob_content b"
proof -
  obtain fb b1 where t: "ob_the_buffer b = (fb, b1)" by fastforce
  note ok = ob_the_buffer_ok [OF assms(1) t]
  from fb_skip_err [OF ok(2)] assms(2) ok(3) obtain e where "fb_skip n fb = Inl e" by metis
  moreover have "ob_buf b = None \<Longrightarrow> n \<noteq> length (ob_strbuf b)"
    using assms(2) by (auto simp: ob_content_def)
  ultimately show ?thesis using t ok by (auto simp: ob_skip_def ob_content_buf)
qed

lemma ob_getfile_ok:
  assumes "ob_wf b" and "ob_getfile b = (f, b')"
  shows "drop (f_pos f) (f_data f) = ob_content b \<and> ob_wf b' \<and> ob_content b' = ob_content b"
proof -
  obtain fb b1 where t: "ob_the_buffer b = (fb, b1)" by fastforce
  note ok = ob_the_buffer_ok [OF assms(1) t]
  with assms(2) t show ?thesis
    by (auto simp: ob_getfile_def fb_getfile_def ob_content_buf) (simp_all add: fb_content_def)
qed

subsection \<open>ReadOnlyFileBasedBuffer\<close>

text \<open>
  The \<^verbatim>\<open>wsgi.file_wrapper\<close>: a file of the application, read where it stands. \<^verbatim>\<open>remain\<close> is 0
  until \<^verbatim>\<open>prepare\<close>. Whether the file is seekable is the file's own answer.
\<close>

record rofbuf =
  ro_file :: pyfile
  ro_block_size :: int
  ro_seekable :: bool
  ro_remain :: int

definition ro_init :: "pyfile \<Rightarrow> bool \<Rightarrow> int \<Rightarrow> rofbuf" where
  "ro_init file seekable block_size =
     \<lparr>ro_file = file, ro_block_size = block_size, ro_seekable = seekable, ro_remain = 0\<rparr>"

definition ro_prepare :: "int option \<Rightarrow> rofbuf \<Rightarrow> int \<times> rofbuf" where
  "ro_prepare sz b =
     (let b' = (if ro_seekable b
                then (let start_pos = file_tell (ro_file b);
                          end_pos = file_tell (file_seek 0 2 (ro_file b));
                          fsize = int end_pos - int start_pos
                      in b\<lparr>ro_remain := (case sz of None \<Rightarrow> fsize | Some n \<Rightarrow> min fsize n)\<rparr>)
                else b)
      in (ro_remain b', b'))"

definition ro_get :: "int \<Rightarrow> bool \<Rightarrow> rofbuf \<Rightarrow> bytes \<times> rofbuf" where
  "ro_get numbytes skip b =
     (let n = (if numbytes = -1 \<or> ro_remain b < numbytes then ro_remain b else numbytes);
          read_pos = file_tell (ro_file b);
          (res, file) = file_read n (ro_file b)
      in if skip then (res, b\<lparr>ro_file := file, ro_remain := ro_remain b - int (length res)\<rparr>)
         else (res, b\<lparr>ro_file := file_seek read_pos 0 file\<rparr>))"

definition ro_skip :: "nat \<Rightarrow> rofbuf \<Rightarrow> exn + rofbuf" where
  "ro_skip numbytes b =
     (if ro_remain b < int numbytes then Inl (skip_error numbytes (ro_remain b))
      else Inr (b\<lparr>ro_file := file_seek numbytes 1 (ro_file b), ro_remain := ro_remain b - int numbytes\<rparr>))"

text \<open>\<^verbatim>\<open>next\<close>: one block, \<^const>\<open>None\<close> for \<^verbatim>\<open>StopIteration\<close>.\<close>

definition ro_next :: "rofbuf \<Rightarrow> (bytes \<times> rofbuf) option" where
  "ro_next b =
     (let (val, file) = file_read (ro_block_size b) (ro_file b)
      in if val = [] then None else Some (val, b\<lparr>ro_file := file\<rparr>))"

definition ro_append :: "rofbuf \<Rightarrow> bytes \<Rightarrow> exn + rofbuf" where
  "ro_append b s = Inl NotImplementedError"

definition ro_close :: "rofbuf \<Rightarrow> rofbuf" where
  "ro_close b = b\<lparr>ro_file := file_close (ro_file b), ro_remain := 0\<rparr>"

definition ro_content :: "rofbuf \<Rightarrow> bytes" where
  "ro_content b = take (nat (ro_remain b)) (drop (f_pos (ro_file b)) (f_data (ro_file b)))"

definition ro_wf :: "rofbuf \<Rightarrow> bool" where
  "ro_wf b \<longleftrightarrow> ro_remain b = int (length (ro_content b)) \<and> \<not> f_closed (ro_file b)"

text \<open>
  \<^verbatim>\<open>prepare\<close> limits what is served to the file and to the declared sz, and nothing that
  follows reads beyond it.
\<close>

lemma ro_prepare_ok:
  assumes "ro_seekable b" and "f_pos (ro_file b) \<le> length (f_data (ro_file b))"
    and "\<not> f_closed (ro_file b)" and "case sz of None \<Rightarrow> True | Some n \<Rightarrow> 0 \<le> n"
  shows "ro_wf (snd (ro_prepare sz b))"
    and "ro_content (snd (ro_prepare sz b)) =
       (case sz of None \<Rightarrow> id | Some n \<Rightarrow> take (nat n)) (drop (f_pos (ro_file b)) (f_data (ro_file b)))"
  using assms
  by (auto simp: ro_prepare_def ro_wf_def ro_content_def file_defs Let_def min_def split: option.splits)

lemma ro_get_peek:
  assumes "ro_wf b" and "0 \<le> n"
  shows "ro_get n False b = (take (nat n) (ro_content b), b)"
  using assms by (cases b) (auto simp: ro_get_def ro_wf_def ro_content_def file_defs Let_def min_def)

lemma ro_skip_ok:
  assumes "ro_wf b" and "n \<le> length (ro_content b)"
  shows "\<exists>b'. ro_skip n b = Inr b' \<and> ro_wf b' \<and> ro_content b' = drop n (ro_content b)"
  using assms
  by (auto simp: ro_skip_def ro_wf_def ro_content_def file_defs drop_take nat_diff_distrib add.commute)

subsection \<open>Output buffers\<close>

text \<open>
  The elements of \<^verbatim>\<open>HTTPChannel.outbufs\<close>: a writable overflowable buffer, or the file of a
  \<^verbatim>\<open>wsgi.file_wrapper\<close>. Both classes answer the same calls.
\<close>

datatype outbuf = OB overbuf | RO rofbuf

fun out_len :: "outbuf \<Rightarrow> int" where
  "out_len (OB b) = ob_len b"
| "out_len (RO b) = ro_remain b"

fun out_get :: "int \<Rightarrow> outbuf \<Rightarrow> bytes \<times> outbuf" where
  "out_get n (OB b) = (let (r, b') = ob_get n False b in (r, OB b'))"
| "out_get n (RO b) = (let (r, b') = ro_get n False b in (r, RO b'))"

fun out_skip :: "nat \<Rightarrow> outbuf \<Rightarrow> exn option \<times> outbuf" where
  "out_skip n (OB b) = (let (e, b') = ob_skip n True b in (e, OB b'))"
| "out_skip n (RO b) = (case ro_skip n b of Inl e \<Rightarrow> (Some e, RO b) | Inr b' \<Rightarrow> (None, RO b'))"

fun out_append :: "outbuf \<Rightarrow> bytes \<Rightarrow> exn + outbuf" where
  "out_append (OB b) s = Inr (OB (ob_append b s))"
| "out_append (RO b) s = map_sum id RO (ro_append b s)"

fun out_close :: "outbuf \<Rightarrow> outbuf" where
  "out_close (OB b) = OB (ob_close b)"
| "out_close (RO b) = RO (ro_close b)"

fun out_content :: "outbuf \<Rightarrow> bytes" where
  "out_content (OB b) = ob_content b"
| "out_content (RO b) = ro_content b"

fun out_wf :: "outbuf \<Rightarrow> bool" where
  "out_wf (OB b) = ob_wf b"
| "out_wf (RO b) = ro_wf b"

subsection \<open>Interfaces\<close>

text \<open>What the receivers rely on: a buffer to which bytes are appended.\<close>

locale byte_sink =
  fixes put :: "'b \<Rightarrow> bytes \<Rightarrow> 'b"
    and content :: "'b \<Rightarrow> bytes"
    and wf :: "'b \<Rightarrow> bool"
  assumes wf_put: "wf b \<Longrightarrow> wf (put b s)"
    and content_put: "wf b \<Longrightarrow> content (put b s) = content b @ s"
begin

lemma put_all: "wf b \<Longrightarrow> wf (foldl put b ss) \<and> content (foldl put b ss) = content b @ concat ss"
  by (induction ss arbitrary: b) (simp_all add: wf_put content_put)

end

text \<open>What the channel relies on: a buffer from which bytes are sent and then skipped.\<close>

locale byte_queue =
  fixes peek :: "int \<Rightarrow> 'b \<Rightarrow> bytes \<times> 'b"
    and skip :: "nat \<Rightarrow> 'b \<Rightarrow> exn option \<times> 'b"
    and qlen :: "'b \<Rightarrow> int"
    and content :: "'b \<Rightarrow> bytes"
    and wf :: "'b \<Rightarrow> bool"
  assumes qlen_content: "wf b \<Longrightarrow> qlen b = int (length (content b))"
    and peek_prefix: "wf b \<Longrightarrow> 0 < n \<Longrightarrow> peek n b = (r, b') \<Longrightarrow> b' = b \<and> prefix r (content b)"
    and peek_progress: "wf b \<Longrightarrow> 0 < n \<Longrightarrow> content b \<noteq> [] \<Longrightarrow> fst (peek n b) \<noteq> []"
    and skip_drop: "wf b \<Longrightarrow> k \<le> length (content b) \<Longrightarrow>
           \<exists>b'. skip k b = (None, b') \<and> wf b' \<and> content b' = drop k (content b)"
begin

text \<open>One round of sending: look, send a prefix of what was seen, skip it.\<close>

lemma send_round:
  assumes "wf b" and "0 < n" and "peek n b = (r, b1)" and "k \<le> length r"
  obtains b2 where "skip k b1 = (None, b2)" and "wf b2" and "content b = take k r @ content b2"
    and "qlen b2 = qlen b - int k"
proof -
  from peek_prefix [OF assms(1-3)] obtain z where b1: "b1 = b" and z: "content b = r @ z"
    by (auto simp: prefix_def)
  with skip_drop [of b k] assms obtain b2 where
    b2: "skip k b = (None, b2)" "wf b2" "content b2 = drop k (content b)" by auto
  have "content b = take k r @ content b2" using b2(3) z assms(4) by simp
  moreover from this have "qlen b2 = qlen b - int k"
    using qlen_content [OF assms(1)] qlen_content [OF b2(2)] assms(4) by simp
  ultimately show thesis using b2 b1 by (intro that) auto
qed

lemma peek_bounds: "wf b \<Longrightarrow> 0 < n \<Longrightarrow> peek n b = (r, b') \<Longrightarrow> int (length r) \<le> qlen b"
  using peek_prefix [of b n r b'] by (auto simp: qlen_content dest: prefix_length_le)

end

text \<open>Both at once: a FIFO of bytes.\<close>

locale byte_buffer = byte_sink put content wf + byte_queue peek skip qlen content wf
  for put :: "'b \<Rightarrow> bytes \<Rightarrow> 'b" and peek skip qlen content wf
begin

lemma put_skip:
  assumes "wf b" and "k \<le> length (content b)"
  obtains b' where "skip k (put b s) = (None, b')" and "wf b'" and "content b' = drop k (content b) @ s"
  using skip_drop [of "put b s" k] assms that by (auto simp: wf_put content_put)

end

lemma prefix_take_self [simp]: "prefix (take n s) s"
  by (rule take_is_prefix)

interpretation ob_fifo: byte_buffer ob_append "\<lambda>n. ob_get n False" "\<lambda>n. ob_skip n True" ob_len ob_content ob_wf
proof unfold_locales
  fix b :: overbuf and k
  assume "ob_wf b" "k \<le> length (ob_content b)"
  then show "\<exists>b'. ob_skip k True b = (None, b') \<and> ob_wf b' \<and> ob_content b' = drop k (ob_content b)"
    using ob_skip_ok by blast
qed (auto simp: ob_append_ok ob_len_content ob_get_peek)

interpretation fb_fifo: byte_buffer fb_append "\<lambda>n. fb_get n False"
  "\<lambda>n b. case fb_skip n b of Inl e \<Rightarrow> (Some e, b) | Inr b' \<Rightarrow> (None, b')" fb_len fb_content fb_wf
proof unfold_locales
  fix b :: fbuf and k
  assume "fb_wf b" "k \<le> length (fb_content b)"
  then show "\<exists>b'. (case fb_skip k b of Inl e \<Rightarrow> (Some e, b) | Inr b' \<Rightarrow> (None, b')) = (None, b')
      \<and> fb_wf b' \<and> fb_content b' = drop k (fb_content b)"
    using fb_skip_ok [of b k] by auto
qed (auto simp: fb_append_ok fb_get_peek fb_len_content)

interpretation out_fifo: byte_queue out_get out_skip out_len out_content out_wf
proof unfold_locales
  fix b :: outbuf and k
  assume "out_wf b" "k \<le> length (out_content b)"
  then show "\<exists>b'. out_skip k b = (None, b') \<and> out_wf b' \<and> out_content b' = drop k (out_content b)"
  proof (cases b)
    case (OB x)
    then show ?thesis using \<open>out_wf b\<close> \<open>k \<le> length (out_content b)\<close> ob_skip_ok [of x k True] by auto
  next
    case (RO x)
    then show ?thesis using \<open>out_wf b\<close> \<open>k \<le> length (out_content b)\<close> ro_skip_ok [of x k] by auto
  qed
next
  fix b b' :: outbuf and n r
  assume "out_wf b" "0 < n" "out_get n b = (r, b')"
  then show "b' = b \<and> prefix r (out_content b)"
    by (cases b) (auto simp: ob_get_peek ro_get_peek)
next
  fix b :: outbuf and n :: int
  assume "out_wf b" "0 < n" "out_content b \<noteq> []"
  then show "fst (out_get n b) \<noteq> []"
    by (cases b) (auto simp: ob_get_peek ro_get_peek)
qed (rename_tac b, case_tac b; auto simp: ob_len_content ro_wf_def)

subsection \<open>A whole life of a buffer\<close>

text \<open>
  Any sequence of calls on an overflowable buffer but \<^verbatim>\<open>prune\<close> and \<^verbatim>\<open>close\<close>, against the same
  calls on a plain list of bytes. The observed value is what the call returns: the bytes of a
  \<^verbatim>\<open>get\<close> that takes, whether a \<^verbatim>\<open>skip\<close> raised, the length.
\<close>

datatype buf_op = OpAppend bytes | OpPeek int | OpTake int | OpSkip nat bool | OpGetfile | OpLen

datatype buf_out = NoOut | Bytes bytes | Raised bool | Len int

fun ob_op :: "overbuf \<Rightarrow> buf_op \<Rightarrow> buf_out \<times> overbuf" where
  "ob_op b (OpAppend s) = (NoOut, ob_append b s)"
| "ob_op b (OpPeek n) = (NoOut, snd (ob_get n False b))"
| "ob_op b (OpTake n) = (let (r, b') = ob_get n True b in (Bytes r, b'))"
| "ob_op b (OpSkip n ap) = (let (e, b') = ob_skip n ap b in (Raised (e \<noteq> None), b'))"
| "ob_op b OpGetfile = (NoOut, snd (ob_getfile b))"
| "ob_op b OpLen = (Len (ob_len b), b)"

fun spec_op :: "bytes \<Rightarrow> buf_op \<Rightarrow> buf_out \<times> bytes" where
  "spec_op c (OpAppend s) = (NoOut, c @ s)"
| "spec_op c (OpPeek n) = (NoOut, c)"
| "spec_op c (OpTake n) = (if n < 0 then (Bytes c, []) else (Bytes (take (nat n) c), drop (nat n) c))"
| "spec_op c (OpSkip n ap) = (if n \<le> length c then (Raised False, drop n c) else (Raised True, c))"
| "spec_op c OpGetfile = (NoOut, c)"
| "spec_op c OpLen = (Len (int (length c)), c)"

fun run_ops :: "('s \<Rightarrow> buf_op \<Rightarrow> buf_out \<times> 's) \<Rightarrow> 's \<Rightarrow> buf_op list \<Rightarrow> buf_out list \<times> 's" where
  "run_ops f s [] = ([], s)"
| "run_ops f s (x # xs) = (let (o1, s1) = f s x; (os, s2) = run_ops f s1 xs in (o1 # os, s2))"

lemma ob_op_refines:
  assumes "ob_wf b" and "ob_op b x = (r, b')"
  shows "ob_wf b' \<and> spec_op (ob_content b) x = (r, ob_content b')"
proof (cases x)
  case (OpTake n)
  with assms obtain bs where g: "ob_get n True b = (bs, b')" "r = Bytes bs"
    by (auto split: prod.splits)
  from ob_get_take [OF assms(1) g(1)]
  have w: "ob_wf b'" and c: "ob_content b = bs @ ob_content b'"
    and e: "bs = (if n < 0 then ob_content b else take (nat n) (ob_content b))" by simp_all
  have "ob_content b' = drop (length bs) (ob_content b)" by (subst c) simp
  then have "ob_content b' = (if n < 0 then [] else drop (nat n) (ob_content b))"
    using e by (simp add: min_def)
  with w e g OpTake show ?thesis by auto
next
  case (OpSkip n ap)
  then show ?thesis
    using assms ob_skip_ok [OF assms(1), of n ap] ob_skip_err [OF assms(1), of n ap]
    by (cases "n \<le> length (ob_content b)") auto
next
  case OpGetfile
  with assms ob_getfile_ok [OF assms(1), of "fst (ob_getfile b)" b'] show ?thesis
    by (cases "ob_getfile b") auto
qed (use assms in \<open>auto simp: ob_append_ok ob_get_peek ob_len_content\<close>)

lemma run_ops_refines:
  "ob_wf b \<Longrightarrow> run_ops ob_op b xs = (os, b') \<Longrightarrow>
   ob_wf b' \<and> run_ops spec_op (ob_content b) xs = (os, ob_content b')"
proof (induction xs arbitrary: b os)
  case (Cons x xs)
  then obtain o1 b1 os' where
    1: "ob_op b x = (o1, b1)" "run_ops ob_op b1 xs = (os', b')" "os = o1 # os'"
    by (auto split: prod.splits)
  with Cons.IH [of b1 os'] ob_op_refines [OF Cons.prems(1) 1(1)] show ?case by auto
qed auto

lemma ob_op_overflow: "ob_wf b \<Longrightarrow> ob_overflow (snd (ob_op b x)) = ob_overflow b"
  by (cases x; cases "ob_the_buffer b")
    (auto simp: ob_get_def ob_skip_def ob_getfile_def split: prod.splits sum.splits
      dest: ob_the_buffer_ok(6))

lemma run_ops_overflow:
  "ob_wf b \<Longrightarrow> ob_overflow (snd (run_ops ob_op b xs)) = ob_overflow b"
proof (induction xs arbitrary: b)
  case (Cons x xs)
  obtain o1 b1 where 1: "ob_op b x = (o1, b1)" by fastforce
  with Cons.IH [of b1] ob_op_refines [OF Cons.prems 1] ob_op_overflow [OF Cons.prems, of x]
  show ?case by (auto split: prod.splits)
qed simp


text \<open>
  What a buffer keeps in memory is bounded. After any calls, the byte string is shorter than
  \<^const>\<open>STRBUF_LIMIT\<close>, and a buffer that was not moved to a temporary file holds fewer unread
  bytes than the overflow limit.
\<close>

theorem overflowable_buffer_memory_bound:
  "let b = snd (run_ops ob_op (ob_init overflow) ops) in
     length (ob_strbuf b) < STRBUF_LIMIT \<and>
     (case ob_buf b of
        None \<Rightarrow> ob_len b = int (length (ob_strbuf b))
      | Some fb \<Rightarrow> fb_kind fb = (if ob_overflowed b then TempfileKind else BytesIOKind)
          \<and> (if ob_overflowed b then True else fb_remain fb < overflow))"
proof -
  obtain os b where r: "run_ops ob_op (ob_init overflow) ops = (os, b)" by fastforce
  have "ob_wf b" using run_ops_refines [OF _ r] by simp
  moreover have "ob_overflow b = overflow"
    using run_ops_overflow [of "ob_init overflow" ops] r by simp
  ultimately show ?thesis
    using r fkind.exhaust by (auto simp: ob_wf_def ob_len_def STRBUF_LIMIT_def split: option.splits)
qed

text \<open>
  \<^verbatim>\<open>prune\<close> loses data. It leaves the new file at its end, so a buffer with unread bytes
  still reports them in its length, but \<^verbatim>\<open>get\<close> returns nothing any more.
\<close>

theorem prune_loses_unread_data:
  assumes "fb_wf b" and "fb_content b \<noteq> []"
  shows "fb_len (fb_prune b) = int (length (fb_content b)) \<and> fst (fb_get n False (fb_prune b)) = []"
proof -
  have "fb_remain b \<noteq> 0" using assms by (simp add: fb_wf_def)
  then have "fb_prune b = b\<lparr>fb_file := snd (copy_loop (fb_file b) (newfile (fb_kind b)))\<rparr>"
    by (simp add: fb_prune_def Let_def)
  with assms show ?thesis
    by (simp add: copy_loop_copies fb_len_content [symmetric] fb_wf_def fb_defs split: prod.splits)
qed

theorem prune_loses_unread_data_witness:
  "let b = fb_append (fb_init BytesIOKind None) ''abc'' in
     fb_len (fb_prune b) = 3 \<and> fst (fb_get 10 False (fb_prune b)) = []"
proof -
  let ?b = "fb_append (fb_init BytesIOKind None) ''abc''"
  have wf: "fb_wf ?b" and c: "fb_content ?b = ''abc''" by (simp_all add: fb_append_ok)
  show ?thesis using prune_loses_unread_data [OF wf, of 10] by (simp add: c)
qed

end
