(* ===== verification/Receiver.thy ===== *)
theory Receiver
  imports Utilities Buffers
begin

text \<open>
  \<^verbatim>\<open>receiver.py\<close>: the two consumers of a request body. A receiver writes the body into a
  buffer of which it calls only \<^verbatim>\<open>append\<close>; the operations below take that call as their first
  argument, so that they apply to any buffer, as the code does. \<^verbatim>\<open>received\<close> returns the number
  of bytes consumed and the new state.
\<close>

subsection \<open>FixedStreamReceiver\<close>

record 'b fixed_rcv =
  fr_remain :: int
  fr_buf :: 'b
  fr_completed :: bool

definition fr_init :: "int \<Rightarrow> 'b \<Rightarrow> 'b fixed_rcv" where
  "fr_init cl buf = \<lparr>fr_remain = cl, fr_buf = buf, fr_completed = False\<rparr>"

definition fr_received ::
  "('b \<Rightarrow> bytes \<Rightarrow> 'b) \<Rightarrow> 'b fixed_rcv \<Rightarrow> bytes \<Rightarrow> int \<times> 'b fixed_rcv" where
  "fr_received put r data =
     (let rm = fr_remain r; datalen = int (length data)
      in if rm < 1 then (0, r\<lparr>fr_completed := True\<rparr>)
         else if rm \<le> datalen
         then (rm, r\<lparr>fr_buf := put (fr_buf r) (py_take rm data), fr_remain := 0, fr_completed := True\<rparr>)
         else (datalen, r\<lparr>fr_buf := put (fr_buf r) data, fr_remain := rm - datalen\<rparr>))"

subsection \<open>ChunkedReceiver\<close>

record 'b chunked_rcv =
  cr_chunk_remainder :: nat
  cr_validate_chunk_end :: bool
  cr_control_line :: bytes
  cr_chunk_end :: bytes
  cr_all_chunks_received :: bool
  cr_trailer :: bytes
  cr_completed :: bool
  cr_error :: "http_error option"
  cr_buf :: 'b

definition cr_init :: "'b \<Rightarrow> 'b chunked_rcv" where
  "cr_init buf =
     \<lparr>cr_chunk_remainder = 0, cr_validate_chunk_end = False, cr_control_line = [], cr_chunk_end = [],
      cr_all_chunks_received = False, cr_trailer = [], cr_completed = False, cr_error = None,
      cr_buf = buf\<rparr>"

text \<open>
  How one pass through the loop body ends: with the next \<^verbatim>\<open>s\<close>, with \<^verbatim>\<open>break\<close> (after which
  \<^verbatim>\<open>orig_size\<close> is returned), or with \<^verbatim>\<open>return n\<close>.
\<close>

datatype 'r pass = Next 'r bytes | Break 'r | Return int 'r

definition cr_fail :: "string \<Rightarrow> 'b chunked_rcv \<Rightarrow> 'b chunked_rcv" where
  "cr_fail msg r = r\<lparr>cr_error := Some (BadRequest msg), cr_all_chunks_received := True\<rparr>"

text \<open>\<^verbatim>\<open>int(line, 16)\<close>, which skips white space around the digits.\<close>

definition int16 :: "bytes \<Rightarrow> nat" where
  "int16 line = from_base 16 (strip byte_ws line)"

text \<open>The size of a chunk, once the extension was cut off: \<^verbatim>\<open>if not ONLY_HEXDIG_RE.match(line)\<close> on.\<close>

definition cr_chunk_size :: "'b chunked_rcv \<Rightarrow> bytes \<Rightarrow> bytes \<Rightarrow> 'b chunked_rcv pass" where
  "cr_chunk_size r line s =
     (if \<not> re_matches ONLY_HEXDIG_RE line then Break (cr_fail ''Invalid chunk size'' r)
      else let sz = int16 line
           in if 0 < sz then Next (r\<lparr>cr_chunk_remainder := sz\<rparr>) s
              else Next (r\<lparr>cr_all_chunks_received := True\<rparr>) s)"

text \<open>The four branches of the loop body, in the order of the code.\<close>

definition cr_pass_data ::
  "('b \<Rightarrow> bytes \<Rightarrow> 'b) \<Rightarrow> 'b chunked_rcv \<Rightarrow> bytes \<Rightarrow> 'b chunked_rcv pass" where
  "cr_pass_data put r s =
     (let rm = cr_chunk_remainder r; to_write = take rm s; written = length to_write;
          r1 = r\<lparr>cr_buf := put (cr_buf r) to_write, cr_chunk_remainder := rm - written\<rparr>
      in Next (if cr_chunk_remainder r1 = 0 then r1\<lparr>cr_validate_chunk_end := True\<rparr> else r1)
           (drop written s))"

definition cr_pass_end :: "'b chunked_rcv \<Rightarrow> bytes \<Rightarrow> 'b chunked_rcv pass" where
  "cr_pass_end r s =
     (let s1 = cr_chunk_end r @ s; pos = bfind CRLF s1 in
      if pos = None \<and> length s1 < 2 then Next (r\<lparr>cr_chunk_end := s1\<rparr>) []
      else let r1 = r\<lparr>cr_chunk_end := []\<rparr> in
           if pos = Some 0 then Next (r1\<lparr>cr_validate_chunk_end := False\<rparr>) (drop 2 s1)
           else Next ((cr_fail ''Chunk not properly terminated'' r1)\<lparr>cr_validate_chunk_end := False\<rparr>) s1)"

definition cr_begin_chunk :: "'b chunked_rcv \<Rightarrow> bytes \<Rightarrow> bytes \<Rightarrow> 'b chunked_rcv pass" where
  "cr_begin_chunk r line s =
     (if line = [] then Next r s
      else (case bfind '';'' line of
              None \<Rightarrow> cr_chunk_size r line s
            | Some semi \<Rightarrow>
                if \<not> re_matches CHUNK_EXT_RE (drop semi line)
                then Break (cr_fail ''Invalid chunk extension'' r)
                else cr_chunk_size r (take semi line) s))"

definition cr_pass_line :: "'b chunked_rcv \<Rightarrow> bytes \<Rightarrow> 'b chunked_rcv pass" where
  "cr_pass_line r s =
     (let s1 = cr_control_line r @ s in
      case bfind CRLF s1 of
        None \<Rightarrow> Next (r\<lparr>cr_control_line := s1\<rparr>) []
      | Some pos \<Rightarrow>
          cr_begin_chunk (r\<lparr>cr_control_line := []\<rparr>) (take pos s1) (drop (pos + 2) s1))"

definition cr_pass_trailer :: "int \<Rightarrow> 'b chunked_rcv \<Rightarrow> bytes \<Rightarrow> 'b chunked_rcv pass" where
  "cr_pass_trailer orig_size r s =
     (let trailer = cr_trailer r @ s in
      if prefix CRLF trailer
      then Return (orig_size - (int (length trailer) - 2)) (r\<lparr>cr_completed := True\<rparr>)
      else case find_double_newline trailer of
             None \<Rightarrow> Next (r\<lparr>cr_trailer := trailer\<rparr>) []
           | Some pos \<Rightarrow>
               Return (orig_size - (int (length trailer) - int pos))
                 (r\<lparr>cr_completed := True, cr_trailer := take pos trailer\<rparr>))"

definition cr_pass ::
  "('b \<Rightarrow> bytes \<Rightarrow> 'b) \<Rightarrow> int \<Rightarrow> 'b chunked_rcv \<Rightarrow> bytes \<Rightarrow> 'b chunked_rcv pass" where
  "cr_pass put orig_size r s =
     (if 0 < cr_chunk_remainder r then cr_pass_data put r s
      else if cr_validate_chunk_end r then cr_pass_end r s
      else if \<not> cr_all_chunks_received r then cr_pass_line r s
      else cr_pass_trailer orig_size r s)"

text \<open>Every pass that goes on uses up input or leaves the check of a chunk's end.\<close>

definition cr_weight :: "'b chunked_rcv \<Rightarrow> bytes \<Rightarrow> nat" where
  "cr_weight r s = length (cr_control_line r) + length (cr_chunk_end r) + length s"

lemma cr_chunk_size_next:
  "cr_chunk_size r line s = Next r' s' \<Longrightarrow> s' = s \<and> cr_control_line r' = cr_control_line r
     \<and> cr_chunk_end r' = cr_chunk_end r \<and> cr_buf r' = cr_buf r
     \<and> cr_validate_chunk_end r' = cr_validate_chunk_end r"
  by (auto simp: cr_chunk_size_def Let_def split: if_splits)

lemma cr_pass_data_eq:
  "cr_pass_data put r s =
     Next (r\<lparr>cr_buf := put (cr_buf r) (take (cr_chunk_remainder r) s),
             cr_chunk_remainder := cr_chunk_remainder r - length s,
             cr_validate_chunk_end := (cr_validate_chunk_end r \<or> cr_chunk_remainder r \<le> length s)\<rparr>)
       (drop (cr_chunk_remainder r) s)"
  by (cases r) (simp add: cr_pass_data_def Let_def min_def)

lemma cr_pass_end_next:
  "cr_pass_end r s = Next r' s' \<Longrightarrow>
   (bfind CRLF (cr_chunk_end r @ s) = None \<and> length (cr_chunk_end r @ s) < 2 \<and>
      r' = r\<lparr>cr_chunk_end := cr_chunk_end r @ s\<rparr> \<and> s' = []) \<or>
   (bfind CRLF (cr_chunk_end r @ s) = Some 0 \<and>
      r' = r\<lparr>cr_chunk_end := [], cr_validate_chunk_end := False\<rparr> \<and> s' = drop 2 (cr_chunk_end r @ s)) \<or>
   (bfind CRLF (cr_chunk_end r @ s) \<noteq> Some 0 \<and>
      r' = (cr_fail ''Chunk not properly terminated'' (r\<lparr>cr_chunk_end := []\<rparr>))\<lparr>cr_validate_chunk_end := False\<rparr>
      \<and> s' = cr_chunk_end r @ s)"
  unfolding cr_pass_end_def Let_def by (simp split: if_split_asm)

lemma cr_begin_chunk_next:
  "cr_begin_chunk r line s = Next r' s' \<Longrightarrow> s' = s \<and> cr_control_line r' = cr_control_line r
     \<and> cr_chunk_end r' = cr_chunk_end r \<and> cr_buf r' = cr_buf r
     \<and> cr_validate_chunk_end r' = cr_validate_chunk_end r"
  by (simp add: cr_begin_chunk_def cr_chunk_size_next split: if_split_asm option.split_asm)

lemma cr_pass_line_next:
  assumes "cr_pass_line r s = Next r' s'" and "bfind CRLF (cr_control_line r @ s) = Some pos"
  shows "s' = drop (pos + 2) (cr_control_line r @ s) \<and> cr_control_line r' = []
    \<and> cr_chunk_end r' = cr_chunk_end r \<and> cr_validate_chunk_end r' = cr_validate_chunk_end r
    \<and> cr_buf r' = cr_buf r"
  using assms cr_begin_chunk_next [of "r\<lparr>cr_control_line := []\<rparr>" _ _ r' s']
  unfolding cr_pass_line_def Let_def by (simp del: take_append drop_append)

lemma cr_pass_decreases:
  assumes "cr_pass put orig r s = Next r' s'" and "s \<noteq> []"
  shows "cr_weight r' s' < cr_weight r s \<or>
    (cr_weight r' s' = cr_weight r s \<and> cr_validate_chunk_end r \<and> \<not> cr_validate_chunk_end r') \<or>
    (cr_weight r' s' = cr_weight r s \<and> cr_validate_chunk_end r = cr_validate_chunk_end r' \<and> s' = [])"
proof -
  consider "0 < cr_chunk_remainder r" "cr_pass_data put r s = Next r' s'"
    | "cr_validate_chunk_end r" "cr_pass_end r s = Next r' s'"
    | "\<not> cr_validate_chunk_end r" "cr_pass_line r s = Next r' s'"
    | "\<not> cr_validate_chunk_end r" "cr_pass_trailer orig r s = Next r' s'"
    using assms(1) by (auto simp: cr_pass_def split: if_splits)
  then show ?thesis
  proof cases
    case 1
    then show ?thesis using assms(2) by (auto simp: cr_pass_data_eq cr_weight_def)
  next
    case 2
    from cr_pass_end_next [OF 2(2)] show ?thesis
    proof (elim disjE conjE)
      assume "bfind CRLF (cr_chunk_end r @ s) = Some 0" and "s' = drop 2 (cr_chunk_end r @ s)"
        and "r' = r\<lparr>cr_chunk_end := [], cr_validate_chunk_end := False\<rparr>"
      with bfind_le [OF this(1)] have "cr_weight r' s' < cr_weight r s"
        by (simp add: cr_weight_def del: drop_append)
      then show ?thesis ..
    qed (use 2(1) in \<open>simp_all add: cr_weight_def cr_fail_def\<close>)
  next
    case 3
    show ?thesis
    proof (cases "bfind CRLF (cr_control_line r @ s)")
      case None
      with 3 show ?thesis by (auto simp: cr_pass_line_def cr_weight_def Let_def)
    next
      case (Some pos)
      note n = cr_pass_line_next [OF 3(2) this]
      then have "length s' = length (cr_control_line r) + length s - (pos + 2)"
        by (simp only: length_drop length_append)
      with bfind_le [OF Some] have "length s' < length (cr_control_line r) + length s" by simp
      moreover from n have "cr_control_line r' = []" "cr_chunk_end r' = cr_chunk_end r" by simp_all
      ultimately have "cr_weight r' s' < cr_weight r s" unfolding cr_weight_def by simp
      then show ?thesis ..
    qed
  next
    case 4
    then show ?thesis
      by (auto simp: cr_pass_trailer_def Let_def cr_weight_def split: if_splits option.splits)
  qed
qed

function cr_loop ::
  "('b \<Rightarrow> bytes \<Rightarrow> 'b) \<Rightarrow> int \<Rightarrow> 'b chunked_rcv \<Rightarrow> bytes \<Rightarrow> int \<times> 'b chunked_rcv" where
  "cr_loop put orig_size r s =
     (if s = [] then (orig_size, r)
      else case cr_pass put orig_size r s of
             Next r' s' \<Rightarrow> cr_loop put orig_size r' s'
           | Break r' \<Rightarrow> (orig_size, r')
           | Return n r' \<Rightarrow> (n, r'))"
  by pat_completeness auto
termination
proof (relation "measures [\<lambda>(put, orig, r, s). cr_weight r s,
    \<lambda>(put, orig, r, s). if cr_validate_chunk_end r then 1 else 0, \<lambda>(put, orig, r, s). length s]")
  fix put orig and r :: "'b chunked_rcv" and s r' s'
  assume "s \<noteq> []" and "cr_pass put orig r s = Next r' s'"
  from cr_pass_decreases [OF this(2,1)] \<open>s \<noteq> []\<close>
  show "((put, orig, r', s'), (put, orig, r, s)) \<in> measures [\<lambda>(put, orig, r, s). cr_weight r s,
    \<lambda>(put, orig, r, s). if cr_validate_chunk_end r then 1 else 0, \<lambda>(put, orig, r, s). length s]"
    by auto
qed simp

declare cr_loop.simps [simp del]

definition cr_received ::
  "('b \<Rightarrow> bytes \<Rightarrow> 'b) \<Rightarrow> 'b chunked_rcv \<Rightarrow> bytes \<Rightarrow> int \<times> 'b chunked_rcv" where
  "cr_received put r s =
     (if cr_completed r then (0, r) else cr_loop put (int (length s)) r s)"

lemma cr_loop_Nil [simp]: "cr_loop put orig r [] = (orig, r)"
  by (simp add: cr_loop.simps)

lemma cr_loop_step:
  "s \<noteq> [] \<Longrightarrow> cr_loop put orig r s =
     (case cr_pass put orig r s of
        Next r' s' \<Rightarrow> cr_loop put orig r' s' | Break r' \<Rightarrow> (orig, r') | Return n r' \<Rightarrow> (n, r'))"
  by (subst cr_loop.simps) simp

text \<open>The size of the input only shifts the result: \<open>cr_run\<close> gives minus what is left over.\<close>

abbreviation cr_run :: "('b \<Rightarrow> bytes \<Rightarrow> 'b) \<Rightarrow> 'b chunked_rcv \<Rightarrow> bytes \<Rightarrow> int \<times> 'b chunked_rcv" where
  "cr_run put \<equiv> cr_loop put 0"

lemma cr_chunk_size_noreturn [simp]: "cr_chunk_size r l s \<noteq> Return n r'"
  by (simp add: cr_chunk_size_def Let_def)

lemma cr_begin_chunk_noreturn [simp]: "cr_begin_chunk r l s \<noteq> Return n r'"
  by (simp add: cr_begin_chunk_def split: option.split)

lemma cr_pass_line_noreturn [simp]: "cr_pass_line r s \<noteq> Return n r'"
  by (simp add: cr_pass_line_def Let_def del: take_append drop_append split: option.split)

lemma cr_pass_end_noreturn [simp]: "cr_pass_end r s \<noteq> Return n r'"
  unfolding cr_pass_end_def Let_def by simp

lemma cr_pass_orig:
  "cr_pass put orig r s =
     (case cr_pass put 0 r s of Return n r' \<Rightarrow> Return (orig + n) r' | x \<Rightarrow> x)"
proof -
  have t: "cr_pass_trailer orig r s =
      (case cr_pass_trailer 0 r s of Return n r' \<Rightarrow> Return (orig + n) r' | x \<Rightarrow> x)"
    unfolding cr_pass_trailer_def Let_def by (simp split: option.split)
  have l: "(case cr_pass_line r s of Return n r' \<Rightarrow> Return (orig + n) r' | x \<Rightarrow> x) = cr_pass_line r s"
    by (cases "cr_pass_line r s") simp_all
  have e: "(case cr_pass_end r s of Return n r' \<Rightarrow> Return (orig + n) r' | x \<Rightarrow> x) = cr_pass_end r s"
    by (cases "cr_pass_end r s") simp_all
  show ?thesis unfolding cr_pass_def by (simp add: l e t [symmetric] cr_pass_data_eq)
qed

lemma cr_loop_orig: "cr_loop put orig r s = map_prod ((+) orig) id (cr_run put r s)"
proof (induction put orig r s rule: cr_loop.induct)
  case (1 put orig r s)
  show ?case
  proof (cases "s = []")
    case False
    note step = cr_loop_step [OF False, of put] cr_pass_orig [of put orig r s]
    show ?thesis
    proof (cases "cr_pass put 0 r s")
      case (Next r' s')
      then have n: "cr_pass put orig r s = Next r' s'" by (simp add: step)
      from "1.IH" [OF False n] n Next show ?thesis by (simp add: step(1))
    qed (simp_all add: step)
  qed simp
qed

subsection \<open>Fragmentation\<close>

text \<open>An error stays.\<close>

definition pass_errs :: "'b chunked_rcv pass \<Rightarrow> bool" where
  "pass_errs p = (case p of Next r s \<Rightarrow> cr_error r \<noteq> None | Break r \<Rightarrow> cr_error r \<noteq> None
     | Return n r \<Rightarrow> cr_error r \<noteq> None)"

lemma pass_errs_simps [simp]:
  "pass_errs (Next r s) \<longleftrightarrow> cr_error r \<noteq> None" "pass_errs (Break r) \<longleftrightarrow> cr_error r \<noteq> None"
  "pass_errs (Return n r) \<longleftrightarrow> cr_error r \<noteq> None"
  by (simp_all add: pass_errs_def)

lemma cr_fail_error [simp]: "cr_error (cr_fail m r) \<noteq> None"
  by (simp add: cr_fail_def)

lemma cr_chunk_size_error: "cr_error r \<noteq> None \<Longrightarrow> pass_errs (cr_chunk_size r l s)"
  by (auto simp: cr_chunk_size_def Let_def)

lemma cr_begin_chunk_error: "cr_error r \<noteq> None \<Longrightarrow> pass_errs (cr_begin_chunk r l s)"
  by (simp add: cr_begin_chunk_def cr_chunk_size_error del: not_None_eq split: option.split)

lemma cr_pass_error:
  assumes "cr_error r \<noteq> None"
  shows "pass_errs (cr_pass put orig r s)"
proof -
  have "pass_errs (cr_pass_line r s)"
    using assms unfolding cr_pass_line_def Let_def
    by (simp add: cr_begin_chunk_error del: not_None_eq take_append drop_append split: option.split)
  moreover have "pass_errs (cr_pass_end r s)"
    using assms unfolding cr_pass_end_def Let_def by (simp del: not_None_eq add: cr_fail_def)
  moreover have "pass_errs (cr_pass_trailer orig r s)"
    using assms unfolding cr_pass_trailer_def Let_def
    by (simp del: not_None_eq split: option.split)
  ultimately show ?thesis using assms by (simp add: cr_pass_def cr_pass_data_eq del: not_None_eq)
qed

lemma cr_loop_error: "cr_error r \<noteq> None \<Longrightarrow> cr_error (snd (cr_loop put orig r s)) \<noteq> None"
proof (induction put orig r s rule: cr_loop.induct)
  case (1 put orig r s)
  show ?case
  proof (cases "s = []")
    case False
    note e = cr_pass_error [OF "1.prems", of put orig s]
    show ?thesis
    proof (cases "cr_pass put orig r s")
      case (Next r' s')
      with "1.IH" [OF False Next] e False show ?thesis by (simp add: cr_loop_step del: not_None_eq)
    qed (use e False in \<open>simp_all add: cr_loop_step del: not_None_eq\<close>)
  qed (use 1 in simp)
qed

text \<open>
  Two states count as one when they agree on everything but, after completion, the trailer,
  which nothing reads.
\<close>

definition cr_norm :: "'b chunked_rcv \<Rightarrow> 'b chunked_rcv" where
  "cr_norm r = (if cr_completed r then r\<lparr>cr_trailer := []\<rparr> else r)"

text \<open>How a pass over the input \<open>s\<close> relates to the pass over \<open>s @ b\<close>.\<close>

definition pass_extends ::
  "('b \<Rightarrow> bytes \<Rightarrow> 'b) \<Rightarrow> bytes \<Rightarrow> 'b chunked_rcv pass \<Rightarrow> 'b chunked_rcv pass \<Rightarrow> bool" where
  "pass_extends put b p q =
     (case p of
        Next r' s' \<Rightarrow> q = Next r' (s' @ b) \<or>
          (s' = [] \<and> map_pass cr_norm q = map_pass cr_norm (cr_pass put 0 r' b))
      | Break r' \<Rightarrow> q = Break r'
      | Return n r' \<Rightarrow> q = Return (n - int (length b)) r')"

lemma pass_extends_simps [simp]:
  "pass_extends put b (Next r s) (Next r (s @ b))" "pass_extends put b (Break r) (Break r)"
  "pass_extends put b (Return n r) (Return (n - int (length b)) r)"
  by (simp_all add: pass_extends_def)

lemma cr_chunk_size_ext: "pass_extends put b (cr_chunk_size r l s) (cr_chunk_size r l (s @ b))"
  by (simp add: cr_chunk_size_def Let_def pass_extends_def)

lemma cr_begin_chunk_ext: "pass_extends put b (cr_begin_chunk r l s) (cr_begin_chunk r l (s @ b))"
  by (cases "bfind '';'' l")
    (simp_all add: cr_begin_chunk_def cr_chunk_size_ext del: bfind_single_None)

lemma cr_pass_line_resume:
  "cr_pass_line (r\<lparr>cr_control_line := cr_control_line r @ s\<rparr>) b = cr_pass_line r (s @ b)"
  unfolding cr_pass_line_def Let_def by (simp del: take_append drop_append split: option.split)

lemma cr_pass_line_ext:
  assumes "\<not> cr_validate_chunk_end r" "cr_chunk_remainder r = 0" "\<not> cr_all_chunks_received r"
  shows "pass_extends put b (cr_pass_line r s) (cr_pass_line r (s @ b))"
proof (cases "bfind CRLF (cr_control_line r @ s)")
  case None
  then have p: "cr_pass_line r s = Next (r\<lparr>cr_control_line := cr_control_line r @ s\<rparr>) []"
    by (simp add: cr_pass_line_def Let_def)
  then show ?thesis
    using assms by (simp add: pass_extends_def cr_pass_def cr_pass_line_resume)
next
  case (Some pos)
  let ?s = "cr_control_line r @ s"
  from bfind_append_Some [OF Some, of b]
  have s: "bfind CRLF (cr_control_line r @ s @ b) = Some pos" by simp
  from bfind_le [OF Some] have le: "pos + 2 \<le> length ?s" by simp
  have d: "drop (pos + 2) (cr_control_line r @ s @ b) = drop (pos + 2) ?s @ b"
    using le by simp
  have t: "take pos (cr_control_line r @ s @ b) = take pos ?s"
    using le by simp
  show ?thesis
    unfolding cr_pass_line_def Let_def Some s option.case d t by (rule cr_begin_chunk_ext)
qed

lemma cr_pass_end_resume:
  "cr_pass_end (r\<lparr>cr_chunk_end := cr_chunk_end r @ s\<rparr>) b = cr_pass_end r (s @ b)"
  unfolding cr_pass_end_def Let_def by (simp del: drop_append)

lemma bfind_0: "bfind p s = Some 0 \<longleftrightarrow> prefix p s"
  using bfind_SomeD [of p s 0] bfind_SomeI [of p 0 s] by auto

lemma cr_pass_end_ext:
  assumes "cr_validate_chunk_end r" "cr_chunk_remainder r = 0"
  shows "pass_extends put b (cr_pass_end r s) (cr_pass_end r (s @ b))"
proof (cases "length (cr_chunk_end r @ s) < 2")
  case True
  then have "bfind CRLF (cr_chunk_end r @ s) = None"
    using bfind_le [of CRLF "cr_chunk_end r @ s"] by (cases "bfind CRLF (cr_chunk_end r @ s)") auto
  with True have "cr_pass_end r s = Next (r\<lparr>cr_chunk_end := cr_chunk_end r @ s\<rparr>) []"
    by (simp add: cr_pass_end_def)
  then show ?thesis using assms by (simp add: pass_extends_def cr_pass_def cr_pass_end_resume)
next
  case False
  let ?s = "cr_chunk_end r @ s"
  have "prefix CRLF (cr_chunk_end r @ s @ b) = prefix CRLF ?s"
    using False prefix_append_long [of CRLF ?s b] by simp
  moreover have "drop 2 (cr_chunk_end r @ s @ b) = drop 2 ?s @ b" using False by simp
  ultimately show ?thesis
    using False unfolding cr_pass_end_def Let_def bfind_0
    by (simp add: pass_extends_def del: drop_append prefix_append_long)
qed

lemma cr_pass_trailer_resume:
  "\<not> cr_completed r \<Longrightarrow>
   map_pass cr_norm (cr_pass_trailer orig (r\<lparr>cr_trailer := cr_trailer r @ s\<rparr>) b) =
   map_pass cr_norm (cr_pass_trailer orig r (s @ b))"
  by (simp add: cr_pass_trailer_def Let_def cr_norm_def split: option.split)

lemma cr_pass_trailer_ext:
  assumes "\<not> cr_validate_chunk_end r" "cr_chunk_remainder r = 0" "cr_all_chunks_received r"
    and "\<not> cr_completed r"
  shows "pass_extends put b (cr_pass_trailer 0 r s) (cr_pass_trailer 0 r (s @ b))"
proof -
  let ?t = "cr_trailer r @ s"
  consider "prefix CRLF ?t"
    | pos where "\<not> prefix CRLF ?t" "find_double_newline ?t = Some pos"
    | "\<not> prefix CRLF ?t" "find_double_newline ?t = None" by fastforce
  then show ?thesis
  proof cases
    case 1
    then have "2 \<le> length ?t" by (auto dest: prefix_length_le)
    with 1 have "prefix CRLF (cr_trailer r @ s @ b)"
      using prefix_append_long [of CRLF ?t b] by simp
    with 1 show ?thesis by (simp add: cr_pass_trailer_def pass_extends_def algebra_simps)
  next
    case 2
    with fdn_bounds [OF 2(2)] have "\<not> prefix CRLF (cr_trailer r @ s @ b)"
      using prefix_append_long [of CRLF ?t b] by simp
    moreover from fdn_append_Some [OF 2(2), of b]
    have "find_double_newline (cr_trailer r @ s @ b) = Some pos" by simp
    moreover have "take pos (cr_trailer r @ s @ b) = take pos ?t"
      using fdn_bounds [OF 2(2)] by simp
    ultimately show ?thesis using 2
      by (simp add: cr_pass_trailer_def pass_extends_def algebra_simps del: take_append)
  next
    case 3
    then have "cr_pass_trailer 0 r s = Next (r\<lparr>cr_trailer := ?t\<rparr>) []"
      by (simp add: cr_pass_trailer_def)
    then show ?thesis
      using assms cr_pass_trailer_resume [of r 0 s b] by (simp add: pass_extends_def cr_pass_def)
  qed
qed

lemma cr_pass_ext:
  assumes "\<And>c s t. put (put c s) t = put c (s @ t)" and "\<not> cr_completed r"
  shows "pass_extends put b (cr_pass put 0 r s) (cr_pass put 0 r (s @ b))"
proof (cases "0 < cr_chunk_remainder r")
  case True
  show ?thesis
  proof (cases "cr_chunk_remainder r \<le> length s")
    case True
    then show ?thesis using \<open>0 < cr_chunk_remainder r\<close>
      by (simp add: cr_pass_def cr_pass_data_eq pass_extends_def)
  next
    case False
    have "cr_chunk_remainder r \<le> length b + length s \<longleftrightarrow> cr_chunk_remainder r - length s \<le> length b"
      by (simp add: le_diff_conv)
    with False show ?thesis using True assms(1)
      by (simp add: cr_pass_def cr_pass_data_eq pass_extends_def add.commute)
  qed
next
  case False
  then show ?thesis using assms(2)
    by (simp add: cr_pass_def cr_pass_end_ext cr_pass_line_ext cr_pass_trailer_ext)
qed

text \<open>
  After an error, and after the last chunk, only the trailer is read: the error and the buffer
  stay as they are.
\<close>

definition cr_sealed :: "'b chunked_rcv \<Rightarrow> bool" where
  "cr_sealed r \<longleftrightarrow>
     cr_chunk_remainder r = 0 \<and> \<not> cr_validate_chunk_end r \<and> cr_all_chunks_received r"

definition cr_safe :: "'b chunked_rcv \<Rightarrow> bool" where
  "cr_safe r \<longleftrightarrow> (cr_error r \<noteq> None \<longrightarrow> cr_sealed r)"

lemma cr_pass_trailer_cases:
  obtains (Nxt) "cr_pass_trailer orig r s = Next (r\<lparr>cr_trailer := cr_trailer r @ s\<rparr>) []"
  | (Ret) n t where "cr_pass_trailer orig r s = Return n (r\<lparr>cr_completed := True, cr_trailer := t\<rparr>)"
proof (cases "prefix CRLF (cr_trailer r @ s)")
  case True
  then show thesis using Ret [of _ "cr_trailer r"] by (simp add: cr_pass_trailer_def)
next
  case False
  then show thesis using that
    by (cases "find_double_newline (cr_trailer r @ s)") (simp_all add: cr_pass_trailer_def)
qed

lemma cr_loop_sealed:
  "cr_sealed r \<Longrightarrow> let r' = snd (cr_loop put orig r s) in
     cr_error r' = cr_error r \<and> cr_buf r' = cr_buf r"
proof (cases "s = []")
  case False
  assume "cr_sealed r"
  then have p: "cr_pass put orig r s = cr_pass_trailer orig r s"
    by (simp add: cr_sealed_def cr_pass_def)
  show ?thesis
    by (rule cr_pass_trailer_cases [of orig r s]) (simp_all add: cr_loop_step False p)
qed simp

lemma cr_chunk_size_Next:
  "cr_chunk_size r l s = Next r' s' \<Longrightarrow> cr_error r' = cr_error r \<and> cr_completed r' = cr_completed r"
  by (auto simp: cr_chunk_size_def Let_def split: if_splits)

lemma cr_chunk_size_Break: "cr_chunk_size r l s = Break r' \<Longrightarrow> cr_error r' \<noteq> None"
  by (auto simp: cr_chunk_size_def Let_def cr_fail_def split: if_splits)

lemma cr_begin_chunk_Next:
  "cr_begin_chunk r l s = Next r' s' \<Longrightarrow> cr_error r' = cr_error r \<and> cr_completed r' = cr_completed r"
  by (simp add: cr_begin_chunk_def cr_chunk_size_Next split: if_split_asm option.split_asm)

lemma cr_begin_chunk_Break: "cr_begin_chunk r l s = Break r' \<Longrightarrow> cr_error r' \<noteq> None"
  by (simp add: cr_begin_chunk_def del: not_None_eq split: if_split_asm option.split_asm)
    (auto dest: cr_chunk_size_Break simp: cr_fail_def)

lemma cr_pass_line_Next:
  "cr_pass_line r s = Next r' s' \<Longrightarrow> cr_error r' = cr_error r \<and> cr_completed r' = cr_completed r"
  using cr_begin_chunk_Next unfolding cr_pass_line_def Let_def
  by (fastforce simp del: take_append drop_append split: option.split_asm)

lemma cr_pass_Next_completed:
  assumes "cr_pass put orig r s = Next r' s'"
  shows "cr_completed r' = cr_completed r"
proof -
  consider "cr_pass_data put r s = Next r' s'" | "cr_pass_end r s = Next r' s'"
    | "cr_pass_line r s = Next r' s'" | "cr_pass_trailer orig r s = Next r' s'"
    using assms by (auto simp: cr_pass_def split: if_splits)
  then show ?thesis
  proof cases
    case 2
    from cr_pass_end_next [OF this] show ?thesis by (auto simp: cr_fail_def)
  next
    case 4
    then show ?thesis by (cases rule: cr_pass_trailer_cases [of orig r s]) auto
  qed (auto simp: cr_pass_data_eq dest: cr_pass_line_Next)
qed

lemma cr_pass_safe:
  assumes "cr_pass put orig r s = Next r' s'" and "cr_safe r"
  shows "cr_safe r'"
proof (cases "cr_sealed r")
  case True
  then have "cr_pass_trailer orig r s = Next r' s'"
    using assms(1) by (simp add: cr_pass_def cr_sealed_def)
  with True show ?thesis
    by (cases rule: cr_pass_trailer_cases [of orig r s]) (auto simp: cr_safe_def cr_sealed_def)
next
  case False
  with assms(2) have e: "cr_error r = None" by (simp add: cr_safe_def)
  consider "cr_pass_data put r s = Next r' s'"
    | "cr_chunk_remainder r = 0" "cr_pass_end r s = Next r' s'"
    | "cr_pass_line r s = Next r' s'"
    using assms(1) False by (auto simp: cr_pass_def cr_sealed_def split: if_splits)
  then show ?thesis
  proof cases
    case 2
    from cr_pass_end_next [OF 2(2)] 2(1) e show ?thesis
      by (auto simp: cr_fail_def cr_safe_def cr_sealed_def)
  qed (use e in \<open>auto simp: cr_pass_data_eq cr_safe_def dest: cr_pass_line_Next\<close>)
qed

lemma cr_pass_Break: "cr_pass put orig r s = Break r' \<Longrightarrow> cr_error r' \<noteq> None"
  using cr_begin_chunk_Break cr_pass_trailer_cases [of orig r s]
  unfolding cr_pass_def cr_pass_data_eq cr_pass_line_def Let_def
  by (auto simp: cr_pass_end_def Let_def simp del: take_append drop_append
      split: if_split_asm option.split_asm)

text \<open>What a caller can see of a receiver.\<close>

definition cr_done :: "'b chunked_rcv \<Rightarrow> bool" where
  "cr_done r \<longleftrightarrow> cr_completed r \<or> cr_error r \<noteq> None"

definition cr_view :: "'b chunked_rcv \<Rightarrow> http_error option \<times> 'b \<times> bool" where
  "cr_view r = (cr_error r, cr_buf r, cr_done r)"

lemma cr_norm_sel [simp]:
  "cr_error (cr_norm r) = cr_error r" "cr_buf (cr_norm r) = cr_buf r"
  "cr_completed (cr_norm r) = cr_completed r"
  by (simp_all add: cr_norm_def)

lemma cr_view_norm: "cr_norm r = cr_norm r' \<Longrightarrow> cr_view r = cr_view r'"
proof -
  assume n: "cr_norm r = cr_norm r'"
  have "cr_view (cr_norm r) = cr_view r" for r :: "'a chunked_rcv"
    by (simp add: cr_view_def cr_done_def)
  with n show ?thesis by metis
qed

lemma map_pass_norm_loop:
  assumes "map_pass cr_norm (cr_pass put 0 r s) = map_pass cr_norm (cr_pass put 0 q t)"
    and "\<not> cr_completed r" "\<not> cr_completed q" "s \<noteq> []" "t \<noteq> []"
  shows "map_prod id cr_norm (cr_run put r s) = map_prod id cr_norm (cr_run put q t)"
proof (cases "cr_pass put 0 r s")
  case (Next r' s')
  with assms(1) obtain q' where q: "cr_pass put 0 q t = Next q' s'" "cr_norm q' = cr_norm r'"
    by (cases "cr_pass put 0 q t") auto
  have "\<not> cr_completed r'" "\<not> cr_completed q'"
    using cr_pass_Next_completed [OF Next] cr_pass_Next_completed [OF q(1)] assms by simp_all
  with q(2) have "q' = r'" by (simp add: cr_norm_def)
  with Next q(1) assms(4,5) show ?thesis by (simp add: cr_loop_step)
qed (cases "cr_pass put 0 q t"; use assms in \<open>simp add: cr_loop_step\<close>)+

lemma cr_pass_Return: "cr_pass put orig r s = Return n r' \<Longrightarrow> cr_completed r'"
  by (rule cr_pass_trailer_cases [of orig r s])
    (auto simp: cr_pass_def cr_pass_data_eq split: if_splits)

lemma cr_loop_sealed_view:
  assumes "cr_safe r" and "cr_error r \<noteq> None"
  shows "cr_view (snd (cr_loop put orig r s)) = cr_view r"
  using assms cr_loop_sealed [of r put orig s] by (auto simp: cr_view_def cr_done_def cr_safe_def Let_def)

lemma cr_run_append:
  assumes "\<And>c s t. put (put c s) t = put c (s @ t)" and "\<not> cr_completed r" and "cr_safe r"
  shows "case cr_run put r a of (n1, r1) \<Rightarrow>
     if cr_error r1 \<noteq> None then cr_view (snd (cr_run put r (a @ b))) = cr_view r1
     else map_prod id cr_norm (cr_run put r (a @ b)) = map_prod id cr_norm
            (if cr_completed r1 then (n1 - int (length b), r1) else cr_run put r1 b)"
  using assms
proof (induction put "0 :: int" r a rule: cr_loop.induct)
  case (1 put r a)
  show ?case
  proof (cases "a = []")
    case True
    with 1 show ?thesis by (simp add: cr_loop_sealed_view)
  next
    case False
    note step = cr_loop_step [OF False] cr_loop_step [of "a @ b"]
    note ext = cr_pass_ext [OF 1(2,3), of b a]
    show ?thesis
    proof (cases "cr_pass put 0 r a")
      case (Next r' s')
      note c = cr_pass_Next_completed [OF Next] and sf = cr_pass_safe [OF Next 1(4)]
      show ?thesis
      proof (cases "cr_pass put 0 r (a @ b) = Next r' (s' @ b)")
        case True
        then have e: "cr_run put r (a @ b) = cr_run put r' (s' @ b)" "cr_run put r a = cr_run put r' s'"
          using Next False by (simp_all add: step)
        from c 1(3) have "\<not> cr_completed r'" by simp
        from "1.hyps" [OF False Next 1(2) this sf] show ?thesis unfolding e .
      next
        case f: False
        with ext Next have s': "s' = []"
          and m: "map_pass cr_norm (cr_pass put 0 r (a @ b)) = map_pass cr_norm (cr_pass put 0 r' b)"
          by (auto simp: pass_extends_def)
        have ra: "cr_run put r a = (0, r')" using Next s' by (simp add: step)
        show ?thesis
        proof (cases "b = []")
          case True
          with ra c 1(3) show ?thesis by simp
        next
          case b: False
          from map_pass_norm_loop [OF m] c 1(3) b
          have n: "map_prod id cr_norm (cr_run put r (a @ b)) = map_prod id cr_norm (cr_run put r' b)"
            by simp
          then have "cr_view (snd (cr_run put r (a @ b))) = cr_view (snd (cr_run put r' b))"
            by (metis cr_view_norm snd_map_prod)
          with n c 1(3) sf show ?thesis by (simp add: ra cr_loop_sealed_view del: not_None_eq)
        qed
      qed
    next
      case (Break r')
      with ext cr_pass_Break [OF Break] show ?thesis by (simp add: step pass_extends_def False)
    next
      case (Return n r')
      with ext cr_pass_Return [OF Return] show ?thesis by (simp add: step pass_extends_def False)
    qed
  qed
qed

subsection \<open>Any buffer\<close>

definition cr_map :: "('b \<Rightarrow> 'c) \<Rightarrow> 'b chunked_rcv \<Rightarrow> 'c chunked_rcv" where
  "cr_map f r =
     \<lparr>cr_chunk_remainder = cr_chunk_remainder r, cr_validate_chunk_end = cr_validate_chunk_end r,
      cr_control_line = cr_control_line r, cr_chunk_end = cr_chunk_end r,
      cr_all_chunks_received = cr_all_chunks_received r, cr_trailer = cr_trailer r,
      cr_completed = cr_completed r, cr_error = cr_error r, cr_buf = f (cr_buf r)\<rparr>"

lemma cr_map_sel [simp]:
  "cr_chunk_remainder (cr_map f r) = cr_chunk_remainder r"
  "cr_validate_chunk_end (cr_map f r) = cr_validate_chunk_end r"
  "cr_control_line (cr_map f r) = cr_control_line r" "cr_chunk_end (cr_map f r) = cr_chunk_end r"
  "cr_all_chunks_received (cr_map f r) = cr_all_chunks_received r"
  "cr_trailer (cr_map f r) = cr_trailer r" "cr_completed (cr_map f r) = cr_completed r"
  "cr_error (cr_map f r) = cr_error r" "cr_buf (cr_map f r) = f (cr_buf r)"
  by (simp_all add: cr_map_def)

lemma cr_map_upd [simp]:
  "(cr_map f r)\<lparr>cr_chunk_remainder := n\<rparr> = cr_map f (r\<lparr>cr_chunk_remainder := n\<rparr>)"
  "(cr_map f r)\<lparr>cr_validate_chunk_end := b\<rparr> = cr_map f (r\<lparr>cr_validate_chunk_end := b\<rparr>)"
  "(cr_map f r)\<lparr>cr_control_line := l\<rparr> = cr_map f (r\<lparr>cr_control_line := l\<rparr>)"
  "(cr_map f r)\<lparr>cr_chunk_end := l\<rparr> = cr_map f (r\<lparr>cr_chunk_end := l\<rparr>)"
  "(cr_map f r)\<lparr>cr_all_chunks_received := b\<rparr> = cr_map f (r\<lparr>cr_all_chunks_received := b\<rparr>)"
  "(cr_map f r)\<lparr>cr_trailer := l\<rparr> = cr_map f (r\<lparr>cr_trailer := l\<rparr>)"
  "(cr_map f r)\<lparr>cr_completed := b\<rparr> = cr_map f (r\<lparr>cr_completed := b\<rparr>)"
  "(cr_map f r)\<lparr>cr_error := e\<rparr> = cr_map f (r\<lparr>cr_error := e\<rparr>)"
  "(cr_map f r)\<lparr>cr_buf := f x\<rparr> = cr_map f (r\<lparr>cr_buf := x\<rparr>)"
  by (simp_all add: cr_map_def)

lemma cr_fail_map [simp]: "cr_fail m (cr_map f r) = cr_map f (cr_fail m r)"
  by (simp add: cr_fail_def)

lemma cr_chunk_size_map: "cr_chunk_size (cr_map f r) l s = map_pass (cr_map f) (cr_chunk_size r l s)"
  by (simp add: cr_chunk_size_def Let_def)

lemma cr_begin_chunk_map:
  "cr_begin_chunk (cr_map f r) l s = map_pass (cr_map f) (cr_begin_chunk r l s)"
  by (simp add: cr_begin_chunk_def cr_chunk_size_map del: bfind_single_None split: option.split)

lemma cr_pass_line_map: "cr_pass_line (cr_map f r) s = map_pass (cr_map f) (cr_pass_line r s)"
  by (simp add: cr_pass_line_def Let_def cr_begin_chunk_map del: take_append drop_append
      split: option.split)

lemma cr_pass_end_map: "cr_pass_end (cr_map f r) s = map_pass (cr_map f) (cr_pass_end r s)"
  by (simp add: cr_pass_end_def Let_def del: drop_append)

lemma cr_pass_trailer_map:
  "cr_pass_trailer orig (cr_map f r) s = map_pass (cr_map f) (cr_pass_trailer orig r s)"
  by (simp add: cr_pass_trailer_def Let_def split: option.split)

lemma cr_chunk_size_buf: "q \<in> set_pass (cr_chunk_size r l s) \<Longrightarrow> cr_buf q = cr_buf r"
  by (auto simp: cr_chunk_size_def cr_fail_def Let_def split: if_splits)

lemma cr_begin_chunk_buf: "q \<in> set_pass (cr_begin_chunk r l s) \<Longrightarrow> cr_buf q = cr_buf r"
  by (auto simp: cr_begin_chunk_def cr_fail_def split: if_splits option.splits
      dest: cr_chunk_size_buf)

lemma cr_pass_buf:
  assumes "q \<in> set_pass (cr_pass put orig r s)"
  shows "cr_buf q = cr_buf r \<or> cr_buf q = put (cr_buf r) (take (cr_chunk_remainder r) s)"
proof -
  have "cr_buf q = cr_buf r" if "q \<in> set_pass (cr_pass_line r s)"
    using that unfolding cr_pass_line_def Let_def
    by (auto simp del: take_append drop_append split: option.splits dest: cr_begin_chunk_buf)
  moreover have "cr_buf q = cr_buf r" if "q \<in> set_pass (cr_pass_end r s)"
    using that unfolding cr_pass_end_def Let_def
    by (simp add: cr_fail_def del: drop_append split: if_split_asm)
  moreover have "cr_buf q = cr_buf r" if "q \<in> set_pass (cr_pass_trailer orig r s)"
    using that by (cases rule: cr_pass_trailer_cases [of orig r s]) auto
  ultimately show ?thesis
    using assms by (auto simp: cr_pass_def cr_pass_data_eq split: if_splits)
qed

lemma cr_loop_hom:
  assumes "\<And>r orig s. W r \<Longrightarrow> cr_pass put' orig (h r) s = map_pass h (cr_pass put orig r s)"
    and "\<And>r orig s q. W r \<Longrightarrow> q \<in> set_pass (cr_pass put orig r s) \<Longrightarrow> W q"
    and "W r"
  shows "cr_loop put' orig (h r) s = map_prod id h (cr_loop put orig r s)
    \<and> W (snd (cr_loop put orig r s))"
  using assms
proof (induction put orig r s rule: cr_loop.induct)
  case (1 put orig r s)
  show ?case
  proof (cases "s = []")
    case False
    note step = cr_loop_step [OF False] "1.prems"(1) [OF "1.prems"(3)]
    note w = "1.prems"(2) [OF "1.prems"(3), of _ orig s]
    show ?thesis
    proof (cases "cr_pass put orig r s")
      case (Next r' s')
      with w have "W r'" by simp
      from "1.IH" [OF False Next "1.prems"(1,2) this] Next show ?thesis by (simp add: step)
    qed (use w in \<open>simp_all add: step\<close>)
  qed (use 1 in simp)
qed

context byte_sink
begin

lemma cr_pass_sink:
  assumes "wf (cr_buf r)"
  shows "cr_pass (@) orig (cr_map content r) s = map_pass (cr_map content) (cr_pass put orig r s)"
proof (cases "0 < cr_chunk_remainder r")
  case True
  have "content (cr_buf r) @ take n s = content (put (cr_buf r) (take n s))" for n
    using content_put [OF assms] by simp
  with True show ?thesis by (simp add: cr_pass_def cr_pass_data_eq)
next
  case False
  then show ?thesis
    by (simp add: cr_pass_def cr_pass_end_map cr_pass_line_map cr_pass_trailer_map)
qed

lemma cr_pass_wf: "wf (cr_buf r) \<Longrightarrow> q \<in> set_pass (cr_pass put orig r s) \<Longrightarrow> wf (cr_buf q)"
  using wf_put cr_pass_buf by metis

lemma cr_received_sink:
  "wf (cr_buf r) \<Longrightarrow>
   cr_received (@) (cr_map content r) s = map_prod id (cr_map content) (cr_received put r s)
   \<and> wf (cr_buf (snd (cr_received put r s)))"
  using cr_loop_hom [of "\<lambda>r. wf (cr_buf r)" "(@)" "cr_map content" put r "int (length s)" s]
  by (simp add: cr_received_def cr_pass_sink cr_pass_wf)

end

subsection \<open>A request body in pieces\<close>

text \<open>
  A receiver is fed the pieces in which a body arrives until it is done; the parser drops it
  after an error.
\<close>

fun cr_feed :: "('b \<Rightarrow> bytes \<Rightarrow> 'b) \<Rightarrow> 'b chunked_rcv \<Rightarrow> bytes list \<Rightarrow> 'b chunked_rcv" where
  "cr_feed put r [] = r"
| "cr_feed put r (d # ds) = (if cr_done r then r else cr_feed put (snd (cr_received put r d)) ds)"

lemma cr_init_safe: "cr_safe (cr_init b)" "\<not> cr_done (cr_init b)"
  by (simp_all add: cr_safe_def cr_done_def cr_init_def)

lemma cr_received_run: "\<not> cr_completed r \<Longrightarrow> snd (cr_received put r s) = snd (cr_run put r s)"
  using cr_loop_orig [of put "int (length s)" r s] by (simp add: cr_received_def)

lemma cr_loop_safe: "cr_safe r \<Longrightarrow> cr_error (snd (cr_run put r s)) = None \<Longrightarrow> cr_safe (snd (cr_run put r s))"
  by (simp add: cr_safe_def)

lemma cr_feed_done: "cr_done r \<Longrightarrow> cr_feed put r ds = r"
  by (cases ds) simp_all

lemma cr_feed_concat:
  assumes "\<And>c s t. put (put c s) t = put c (s @ t)"
  shows "\<not> cr_done r \<Longrightarrow> cr_safe r \<Longrightarrow>
    cr_view (cr_feed put r ds) = cr_view (snd (cr_run put r (concat ds)))"
proof (induction ds arbitrary: r)
  case (Cons d ds)
  let ?r1 = "snd (cr_run put r d)"
  obtain n1 r1 where r1: "cr_run put r d = (n1, r1)" by fastforce
  from Cons.prems have nc: "\<not> cr_completed r" by (simp add: cr_done_def)
  note app = cr_run_append [of put r d "concat ds", OF assms nc Cons.prems(2), unfolded r1 prod.case]
  have f: "cr_feed put r (d # ds) = cr_feed put r1 ds"
    using Cons.prems r1 cr_received_run [OF nc, of put d] by simp
  show ?case
  proof (cases "cr_done r1")
    case True
    have "cr_view (snd (cr_run put r (d @ concat ds))) = cr_view r1"
    proof (cases "cr_error r1")
      case None
      with True app have "cr_norm (snd (cr_run put r (d @ concat ds))) = cr_norm r1"
        by (simp add: cr_done_def) (metis snd_conv snd_map_prod)
      then show ?thesis by (rule cr_view_norm)
    qed (use app in simp)
    with f True show ?thesis by (simp add: cr_feed_done)
  next
    case False
    then have e: "cr_error r1 = None" "\<not> cr_completed r1" by (simp_all add: cr_done_def)
    with app have "cr_norm (snd (cr_run put r (d @ concat ds))) = cr_norm (snd (cr_run put r1 (concat ds)))"
      by simp (metis snd_map_prod)
    from cr_view_norm [OF this] Cons.IH [OF False] f e show ?thesis by (simp add: cr_safe_def)
  qed
qed simp

context byte_sink
begin

lemma cr_feed_sink:
  "wf (cr_buf r) \<Longrightarrow>
   cr_feed (@) (cr_map content r) ds = cr_map content (cr_feed put r ds) \<and> wf (cr_buf (cr_feed put r ds))"
proof (induction ds arbitrary: r)
  case (Cons d ds)
  note rs = cr_received_sink [OF Cons.prems, of d]
  from Cons.IH [of "snd (cr_received put r d)"] rs Cons.prems show ?case
    by (simp add: cr_done_def)
qed simp

text \<open>So what is seen of a body does not depend on how it was cut.\<close>

lemma cr_feed_view:
  assumes "wf b"
  shows "cr_view (cr_map content (cr_feed put (cr_init b) ds)) =
    cr_view (snd (cr_run (@) (cr_init (content b)) (concat ds)))"
proof -
  have i: "cr_map content (cr_init b) = cr_init (content b)" "wf (cr_buf (cr_init b))"
    using assms by (simp_all add: cr_map_def cr_init_def)
  show ?thesis
    using cr_feed_sink [OF i(2), of ds] cr_feed_concat [of "(@)" "cr_init (content b)" ds]
    by (simp add: i(1) cr_init_safe)
qed

end

subsection \<open>The language of chunked bodies\<close>

text \<open>
  A line with the size of a chunk, as the code accepts it; the trailer; and the bodies, each with
  the data it stands for. Blank lines before a size are skipped.
\<close>

definition size_line :: "bytes \<Rightarrow> nat \<Rightarrow> bool" where
  "size_line l n \<longleftrightarrow> bfind CRLF (l @ CRLF) = Some (length l) \<and>
     (\<exists>h ext. l = h @ ext \<and> CHR '';'' \<notin> set h \<and> re_matches ONLY_HEXDIG_RE h \<and> n = int16 h \<and>
        (ext = [] \<or> (hd ext = CHR '';'' \<and> re_matches CHUNK_EXT_RE ext)))"

definition trailer_part :: "bytes \<Rightarrow> bool" where
  "trailer_part t \<longleftrightarrow>
     t = CRLF \<or> (\<not> prefix CRLF t \<and> find_double_newline t = Some (length t))"

inductive chunked_body :: "bytes \<Rightarrow> bytes \<Rightarrow> bool" where
  blank: "chunked_body e d \<Longrightarrow> chunked_body (CRLF @ e) d"
| chunk: "size_line l (length c) \<Longrightarrow> c \<noteq> [] \<Longrightarrow> chunked_body e d
            \<Longrightarrow> chunked_body (l @ CRLF @ c @ CRLF @ e) (c @ d)"
| last: "size_line l 0 \<Longrightarrow> trailer_part t \<Longrightarrow> chunked_body (l @ CRLF @ t) []"

lemma size_line_nonempty: "size_line l n \<Longrightarrow> l \<noteq> []"
  by (auto simp: size_line_def only_hexdig_iff)

lemma begin_chunk_size_line:
  assumes "size_line l n"
  shows "cr_begin_chunk r l s =
    Next (if 0 < n then r\<lparr>cr_chunk_remainder := n\<rparr> else r\<lparr>cr_all_chunks_received := True\<rparr>) s"
proof -
  from assms obtain h ext where l: "l = h @ ext" "CHR '';'' \<notin> set h" "re_matches ONLY_HEXDIG_RE h"
    "n = int16 h" and ext: "ext = [] \<or> (hd ext = CHR '';'' \<and> re_matches CHUNK_EXT_RE ext)"
    by (auto simp: size_line_def)
  have c: "cr_chunk_size r h s =
      Next (if 0 < n then r\<lparr>cr_chunk_remainder := n\<rparr> else r\<lparr>cr_all_chunks_received := True\<rparr>) s"
    using l by (simp add: cr_chunk_size_def Let_def)
  show ?thesis
  proof (cases ext)
    case Nil
    from l(2) have "bfind '';'' h = None" by simp
    with Nil l c size_line_nonempty [OF assms] show ?thesis
      by (simp add: cr_begin_chunk_def del: bfind_single_None)
  next
    case (Cons x xs)
    with ext have "ext = CHR '';'' # xs" "re_matches CHUNK_EXT_RE ext" by auto
    moreover from bfind_single [OF l(2), of xs] this
    have "bfind '';'' l = Some (length h)" by (simp add: l(1))
    ultimately show ?thesis
      using l c size_line_nonempty [OF assms] by (simp add: cr_begin_chunk_def del: bfind_single_None)
  qed
qed

lemma begin_chunk_cases:
  assumes "bfind CRLF (l @ CRLF) = Some (length l)"
  obtains (Blank) "l = []" "cr_begin_chunk r l s = Next r s"
  | (Size) n where "size_line l n"
  | (Fail) q where "cr_begin_chunk r l s = Break q"
proof (cases "l = []")
  case True
  then show thesis using Blank by (simp add: cr_begin_chunk_def)
next
  case False
  show thesis
  proof (cases "bfind '';'' l")
    case None
    then have c: "cr_begin_chunk r l s = cr_chunk_size r l s" "CHR '';'' \<notin> set l"
      using False None by (simp_all add: cr_begin_chunk_def del: bfind_single_None)
        (simp add: bfind_single_None [symmetric] del: bfind_single_None)
    show thesis
    proof (cases "re_matches ONLY_HEXDIG_RE l")
      case True
      with c assms have "size_line l (int16 l)" unfolding size_line_def
        by (intro conjI exI [of _ l] exI [of _ "[]"]) simp_all
      then show thesis by (rule Size)
    qed (use c Fail in \<open>simp add: cr_chunk_size_def\<close>)
  next
    case (Some i)
    have d: "l = take i l @ CHR '';'' # drop (i + 1) l"
      using bfind_decomp [OF Some] by simp
    have n: "CHR '';'' \<notin> set (take i l)"
      using bfind_take_None [OF Some, of i] by simp
    have e: "drop i l = CHR '';'' # drop (i + 1) l"
      using d bfind_le [OF Some] by (simp add: Cons_nth_drop_Suc)
        (metis append_take_drop_id same_append_eq)
    show thesis
    proof (cases "re_matches CHUNK_EXT_RE (drop i l) \<and> re_matches ONLY_HEXDIG_RE (take i l)")
      case True
      moreover have "l = take i l @ drop i l" by simp
      ultimately have "size_line l (int16 (take i l))"
        unfolding size_line_def using assms n e by (metis list.sel(1))
      then show thesis by (rule Size)
    next
      case f: False
      then have "\<exists>q. cr_begin_chunk r l s = Break q"
        using False Some by (simp add: cr_begin_chunk_def cr_chunk_size_def)
      then show thesis using Fail by blast
    qed
  qed
qed

text \<open>The loop, from one point between two chunks to the next.\<close>

definition cr_ok :: "int \<times> 'b chunked_rcv \<Rightarrow> bool" where
  "cr_ok p \<longleftrightarrow> cr_completed (snd p) \<and> cr_error (snd p) = None"

lemma cr_init_sel [simp]:
  "cr_chunk_remainder (cr_init b) = 0" "\<not> cr_validate_chunk_end (cr_init b)"
  "cr_control_line (cr_init b) = []" "cr_chunk_end (cr_init b) = []"
  "\<not> cr_all_chunks_received (cr_init b)" "cr_trailer (cr_init b) = []"
  "\<not> cr_completed (cr_init b)" "cr_error (cr_init b) = None" "cr_buf (cr_init b) = b"
  by (simp_all add: cr_init_def)

lemma cr_init_upd [simp]:
  "(cr_init b)\<lparr>cr_control_line := []\<rparr> = cr_init b" "(cr_init b)\<lparr>cr_chunk_end := []\<rparr> = cr_init b"
  "(cr_init b)\<lparr>cr_buf := c\<rparr> = cr_init c" "(cr_init b)\<lparr>cr_chunk_remainder := 0\<rparr> = cr_init b"
  "(cr_init b)\<lparr>cr_validate_chunk_end := False\<rparr> = cr_init b"
  by (simp_all add: cr_init_def)

lemma run_line:
  assumes "bfind CRLF s = Some pos"
  shows "cr_run put (cr_init b) s =
    (case cr_begin_chunk (cr_init b) (take pos s) (drop (pos + 2) s) of
       Next r' s' \<Rightarrow> cr_run put r' s' | Break r' \<Rightarrow> (0, r') | Return n r' \<Rightarrow> (n, r'))"
proof -
  have "s \<noteq> []" using assms by auto
  then show ?thesis using assms by (simp add: cr_loop_step cr_pass_def cr_pass_line_def)
qed

lemma run_line_None: "bfind CRLF s = None \<Longrightarrow> \<not> cr_ok (cr_run put (cr_init b) s)"
  by (cases "s = []") (simp_all add: cr_loop_step cr_pass_def cr_pass_line_def cr_ok_def)

lemma run_data:
  assumes "0 < n" and "n \<le> length s"
  shows "cr_run put ((cr_init b)\<lparr>cr_chunk_remainder := n\<rparr>) s =
    cr_run put ((cr_init (put b (take n s)))\<lparr>cr_validate_chunk_end := True\<rparr>) (drop n s)"
proof -
  have "s \<noteq> []" using assms by auto
  then show ?thesis using assms
    by (simp add: cr_loop_step [of s] cr_pass_def cr_pass_data_eq)
qed

lemma run_data_short:
  "length s < n \<Longrightarrow> \<not> cr_ok (cr_run put ((cr_init b)\<lparr>cr_chunk_remainder := n\<rparr>) s)"
  by (cases "s = []") (simp_all add: cr_loop_step cr_pass_def cr_pass_data_eq cr_ok_def)

lemma run_end:
  assumes "prefix CRLF s"
  shows "cr_run put ((cr_init b)\<lparr>cr_validate_chunk_end := True\<rparr>) s = cr_run put (cr_init b) (drop 2 s)"
proof -
  have "s \<noteq> []" "bfind CRLF s = Some 0" using assms by (auto simp: bfind_0)
  then show ?thesis
    by (simp add: cr_loop_step [of s] cr_pass_def cr_pass_end_def)
qed

lemma run_end_bad:
  assumes "\<not> prefix CRLF s"
  shows "\<not> cr_ok (cr_run put ((cr_init b)\<lparr>cr_validate_chunk_end := True\<rparr>) s)"
proof (cases "length s < 2")
  case True
  then have "bfind CRLF s = None"
    using bfind_le [of CRLF s] by (cases "bfind CRLF s") auto
  with True show ?thesis
    by (cases "s = []") (simp_all add: cr_loop_step cr_pass_def cr_pass_end_def cr_ok_def)
next
  case False
  then have n: "s \<noteq> []" by auto
  let ?q = "(cr_fail ''Chunk not properly terminated'' ((cr_init b)\<lparr>cr_validate_chunk_end := True,
    cr_chunk_end := []\<rparr>))\<lparr>cr_validate_chunk_end := False\<rparr>"
  have "cr_pass put 0 ((cr_init b)\<lparr>cr_validate_chunk_end := True\<rparr>) s = Next ?q s"
    using assms False by (simp add: cr_pass_def cr_pass_end_def bfind_0)
  then have "cr_run put ((cr_init b)\<lparr>cr_validate_chunk_end := True\<rparr>) s = cr_run put ?q s"
    using n by (simp add: cr_loop_step)
  moreover have "cr_error ?q \<noteq> None" by (simp add: cr_fail_def)
  ultimately show ?thesis using cr_loop_error [of ?q put 0 s] by (simp add: cr_ok_def)
qed

lemma run_trailer:
  assumes "trailer_part t"
  shows "fst (cr_run put ((cr_init b)\<lparr>cr_all_chunks_received := True\<rparr>) (t @ s)) = - int (length s)"
    and "cr_ok (cr_run put ((cr_init b)\<lparr>cr_all_chunks_received := True\<rparr>) (t @ s))"
    and "cr_buf (snd (cr_run put ((cr_init b)\<lparr>cr_all_chunks_received := True\<rparr>) (t @ s))) = b"
proof -
  have n: "t @ s \<noteq> []" using assms by (auto simp: trailer_part_def find_double_newline_def)
  have "\<exists>t'. cr_run put ((cr_init b)\<lparr>cr_all_chunks_received := True\<rparr>) (t @ s) =
      (- int (length s), (cr_init b)\<lparr>cr_all_chunks_received := True, cr_completed := True, cr_trailer := t'\<rparr>)"
  proof (cases "prefix CRLF t")
    case True
    with assms show ?thesis
      by (auto simp: trailer_part_def cr_loop_step cr_pass_def cr_pass_trailer_def cr_init_def)
  next
    case False
    with assms have f: "find_double_newline t = Some (length t)" by (auto simp: trailer_part_def)
    with False fdn_append_Some [OF f, of s] fdn_bounds [OF f] n show ?thesis
      by (auto simp: cr_loop_step cr_pass_def cr_pass_trailer_def)
  qed
  then show "fst (cr_run put ((cr_init b)\<lparr>cr_all_chunks_received := True\<rparr>) (t @ s)) = - int (length s)"
    and "cr_ok (cr_run put ((cr_init b)\<lparr>cr_all_chunks_received := True\<rparr>) (t @ s))"
    and "cr_buf (snd (cr_run put ((cr_init b)\<lparr>cr_all_chunks_received := True\<rparr>) (t @ s))) = b"
    by (auto simp: cr_ok_def)
qed

lemma run_trailer_cases:
  assumes "cr_ok (cr_run put ((cr_init b)\<lparr>cr_all_chunks_received := True\<rparr>) s)"
  obtains t rest where "s = t @ rest" and "trailer_part t"
proof -
  have n: "s \<noteq> []" using assms by (auto simp: cr_ok_def)
  show thesis
  proof (cases "prefix CRLF s")
    case True
    then show thesis using that [of CRLF "drop 2 s"] by (auto simp: trailer_part_def prefix_def)
  next
    case False
    with n assms obtain pos where pos: "find_double_newline s = Some pos"
      by (cases "find_double_newline s")
        (simp_all add: cr_loop_step cr_pass_def cr_pass_trailer_def cr_ok_def)
    have "\<not> prefix CRLF (take pos s)"
      using False prefix_order.trans [of CRLF "take pos s" s] by auto
    moreover have "find_double_newline (take pos s) = Some (length (take pos s))"
    proof (cases "find_double_newline (take pos s)")
      case None
      from fdn_append_None [OF None, of "drop pos s"] pos fdn_bounds [OF pos] show ?thesis by simp
    next
      case (Some k)
      from fdn_append_Some [OF this, of "drop pos s"] pos fdn_bounds [OF pos] Some show ?thesis by simp
    qed
    ultimately have "trailer_part (take pos s)" by (simp add: trailer_part_def)
    with that [of "take pos s" "drop pos s"] show thesis by simp
  qed
qed

text \<open>Soundness and completeness for the whole input at once.\<close>

lemma size_line_find: "size_line l n \<Longrightarrow> bfind CRLF (l @ CRLF @ s) = Some (length l)"
  using bfind_append_Some [of CRLF "l @ CRLF" "length l" s] by (simp add: size_line_def)

lemma run_size_line:
  assumes "size_line l n"
  shows "cr_run put (cr_init b) (l @ CRLF @ s) = cr_run put
    (if 0 < n then (cr_init b)\<lparr>cr_chunk_remainder := n\<rparr>
     else (cr_init b)\<lparr>cr_all_chunks_received := True\<rparr>) s"
  using run_line [OF size_line_find [OF assms], of put b] begin_chunk_size_line [OF assms, of "cr_init b" s]
  by simp

lemma chunked_body_run:
  "chunked_body e d \<Longrightarrow> let p = cr_run (@) (cr_init b) (e @ rest) in
     cr_ok p \<and> fst p = - int (length rest) \<and> cr_buf (snd p) = b @ d"
proof (induction e d arbitrary: b rule: chunked_body.induct)
  case (blank e d)
  have "cr_run (@) (cr_init b) (CRLF @ e @ rest) = cr_run (@) (cr_init b) (e @ rest)"
    using run_line [of "CRLF @ e @ rest" 0] by (simp add: cr_begin_chunk_def)
  with blank.IH [of b] show ?case by simp
next
  case (chunk l c e d)
  have "cr_run (@) (cr_init b) (l @ CRLF @ c @ CRLF @ e @ rest)
      = cr_run (@) ((cr_init b)\<lparr>cr_chunk_remainder := length c\<rparr>) (c @ CRLF @ e @ rest)"
    using run_size_line [OF chunk(1)] chunk(2) by simp
  also have "\<dots> = cr_run (@) ((cr_init (b @ c))\<lparr>cr_validate_chunk_end := True\<rparr>) (CRLF @ e @ rest)"
    using run_data [of "length c" "c @ CRLF @ e @ rest" "(@)" b] chunk(2) by simp
  also have "\<dots> = cr_run (@) (cr_init (b @ c)) (e @ rest)"
    by (subst run_end) simp_all
  finally show ?case using chunk.IH [of "b @ c"] by simp
next
  case (last l t)
  with run_size_line [OF last(1), of "(@)" b "t @ rest"] run_trailer [OF last(2), of "(@)" b rest]
  show ?case by simp
qed

lemma bfind_take_end: "bfind p s = Some i \<Longrightarrow> bfind p (take i s @ p) = Some i"
proof -
  assume i: "bfind p s = Some i"
  have t: "take i s @ p = take (i + length p) s"
    using bfind_decomp [OF i] bfind_le [OF i] by (metis append_assoc append_eq_conv_conj
        length_append length_take min_absorb2 add_leD1)
  show ?thesis
  proof (cases "bfind p (take i s @ p)")
    case None
    then show ?thesis using bfind_NoneD [OF None, of i] bfind_le [OF i] by simp
  next
    case (Some k)
    with bfind_append_Some [OF Some, of "drop (i + length p) s"] i t show ?thesis by simp
  qed
qed

lemma run_chunked_body:
  "cr_ok (cr_run (@) (cr_init b) s) \<Longrightarrow> \<exists>e d rest. s = e @ rest \<and> chunked_body e d"
proof (induction "length s" arbitrary: s b rule: less_induct)
  case less
  obtain pos where pos: "bfind CRLF s = Some pos"
    using less.prems run_line_None [of s "(@)" b] by fastforce
  define l s2 where "l = take pos s" and "s2 = drop (pos + 2) s"
  have s: "s = l @ CRLF @ s2" using bfind_decomp [OF pos] by (simp add: l_def s2_def)
  have len: "length l = pos" using bfind_le [OF pos] by (simp add: l_def)
  have lp: "bfind CRLF (l @ CRLF) = Some (length l)"
    using bfind_take_end [OF pos] len by (simp add: l_def)
  note rl = run_line [OF pos, of "(@)" b, folded l_def s2_def]
  show ?case
  proof (rule begin_chunk_cases [OF lp, of "cr_init b" s2])
    assume "l = []" and "cr_begin_chunk (cr_init b) l s2 = Next (cr_init b) s2"
    then have "cr_ok (cr_run (@) (cr_init b) s2)" using less.prems rl by simp
    moreover have "length s2 < length s" using bfind_le [OF pos] by (simp add: s2_def)
    ultimately obtain e d rest where "s2 = e @ rest" and e: "chunked_body e d"
      using less.hyps by blast
    then have "s = (CRLF @ e) @ rest" using s \<open>l = []\<close> by simp
    with blank [OF e] show ?thesis by blast
  next
    fix q assume q: "cr_begin_chunk (cr_init b) l s2 = Break q"
    with rl cr_begin_chunk_Break [OF q] less.prems show ?thesis by (simp add: cr_ok_def)
  next
    fix n assume n: "size_line l n"
    note rs = run_size_line [OF n, of "(@)" b s2, folded s]
    show ?thesis
    proof (cases "n = 0")
      case True
      then have "cr_ok (cr_run (@) ((cr_init b)\<lparr>cr_all_chunks_received := True\<rparr>) s2)"
        using rs less.prems by simp
      then obtain t rest where "s2 = t @ rest" and t: "trailer_part t"
        by (rule run_trailer_cases)
      then have "s = (l @ CRLF @ t) @ rest" using s by simp
      with last [of l t] n t True show ?thesis by blast
    next
      case False
      then have d: "cr_ok (cr_run (@) ((cr_init b)\<lparr>cr_chunk_remainder := n\<rparr>) s2)"
        using rs less.prems by simp
      with run_data_short [of s2 n "(@)" b] have le: "n \<le> length s2" by (meson not_le)
      define c where "c = take n s2"
      have c: "length c = n" using le by (simp add: c_def)
      have ok: "cr_ok (cr_run (@) ((cr_init (b @ c))\<lparr>cr_validate_chunk_end := True\<rparr>) (drop n s2))"
        using d run_data [of n s2 "(@)" b] False le by (simp add: c_def)
      then have p: "prefix CRLF (drop n s2)" by (rule contrapos_pp) (rule run_end_bad)
      then obtain s3 where s3: "drop n s2 = CRLF @ s3" by (auto simp: prefix_def)
      then have s2: "s2 = c @ CRLF @ s3" by (metis c_def append_take_drop_id)
      from run_end [OF p, of "(@)" "b @ c"] ok s3 have "cr_ok (cr_run (@) (cr_init (b @ c)) s3)" by simp
      moreover have "length s3 < length s" by (simp add: s s2)
      ultimately obtain e d rest where "s3 = e @ rest" and e: "chunked_body e d"
        using less.hyps by blast
      then have "s = (l @ CRLF @ c @ CRLF @ e) @ rest" using s s2 by simp
      moreover have "chunked_body (l @ CRLF @ c @ CRLF @ e) (c @ d)"
        using chunk [of l c e d] n c False e by auto
      ultimately show ?thesis by blast
    qed
  qed
qed

subsection \<open>What is consumed\<close>

text \<open>Nothing that is kept between two calls holds a terminator.\<close>

definition cr_inv :: "'b chunked_rcv \<Rightarrow> bool" where
  "cr_inv r \<longleftrightarrow> length (cr_chunk_end r) \<le> 1 \<and> bfind CRLF (cr_control_line r) = None \<and>
     \<not> prefix CRLF (cr_trailer r) \<and> find_double_newline (cr_trailer r) = None \<and>
     (cr_trailer r \<noteq> [] \<longrightarrow> cr_sealed r)"

text \<open>
  The rest of the input fits in the size of the call's argument, but for the one byte that an
  error at the end of a chunk gives back.
\<close>

definition cr_fits :: "int \<Rightarrow> 'b chunked_rcv \<Rightarrow> bytes \<Rightarrow> bool" where
  "cr_fits n r s \<longleftrightarrow> int (length s) \<le> n \<or>
     (int (length s) \<le> n + 1 \<and> cr_sealed r \<and> cr_trailer r = [] \<and> \<not> prefix CRLF s)"

lemma cr_inv_init [simp]: "cr_inv (cr_init b)"
  by (simp add: cr_inv_def find_double_newline_def)

lemma trailer_Return_bounds:
  assumes "cr_pass_trailer n r s = Return k r'" and "cr_inv r" and "cr_fits n r s"
  shows "0 < k \<and> k \<le> n"
proof -
  let ?t = "cr_trailer r @ s"
  have nf: "find_double_newline (cr_trailer r) = None" and np: "\<not> prefix CRLF (cr_trailer r)"
    using assms(2) by (simp_all add: cr_inv_def)
  consider "prefix CRLF ?t" "k = n - (int (length ?t) - 2)"
    | pos where "find_double_newline ?t = Some pos" "k = n - (int (length ?t) - int pos)"
    using assms(1) by (auto simp: cr_pass_trailer_def Let_def split: if_splits option.splits)
  then show ?thesis
  proof cases
    case 1
    have "\<not> 2 \<le> length (cr_trailer r)"
    proof
      assume "2 \<le> length (cr_trailer r)"
      then have "prefix CRLF (cr_trailer r)" using prefix_append_long [of CRLF "cr_trailer r" s] 1(1) by simp
      with np show False ..
    qed
    moreover have "2 \<le> length ?t" using prefix_length_le [OF 1(1)] by simp
    moreover have "int (length s) \<le> n" using assms(3) 1(1) by (auto simp: cr_fits_def)
    ultimately show ?thesis using 1(2) by simp
  next
    case 2
    from fdn_append_None [OF nf 2(1)] fdn_bounds [OF 2(1)] assms(3) 2(2) show ?thesis
      by (auto simp: cr_fits_def)
  qed
qed

lemma cr_chunk_size_same:
  "q \<in> set_pass (cr_chunk_size r l s) \<Longrightarrow>
   cr_control_line q = cr_control_line r \<and> cr_chunk_end q = cr_chunk_end r \<and> cr_trailer q = cr_trailer r"
  by (auto simp: cr_chunk_size_def cr_fail_def Let_def split: if_splits)

lemma cr_begin_chunk_same:
  "q \<in> set_pass (cr_begin_chunk r l s) \<Longrightarrow>
   cr_control_line q = cr_control_line r \<and> cr_chunk_end q = cr_chunk_end r \<and> cr_trailer q = cr_trailer r"
  by (simp add: cr_begin_chunk_def del: bfind_single_None split: if_split_asm option.split_asm)
    (auto simp: cr_fail_def dest: cr_chunk_size_same)

lemma cr_pass_line_inv:
  assumes "q \<in> set_pass (cr_pass_line r s)" and "cr_inv r" and "cr_trailer r = []"
  shows "cr_inv q \<and> cr_trailer q = []"
proof (cases "bfind CRLF (cr_control_line r @ s)")
  case None
  with assms show ?thesis by (auto simp: cr_pass_line_def cr_inv_def)
next
  case (Some pos)
  with assms(1) have "q \<in> set_pass (cr_begin_chunk (r\<lparr>cr_control_line := []\<rparr>)
      (take pos (cr_control_line r @ s)) (drop (pos + 2) (cr_control_line r @ s)))"
    by (simp add: cr_pass_line_def Let_def del: take_append drop_append)
  from cr_begin_chunk_same [OF this] assms(2,3) show ?thesis by (simp add: cr_inv_def)
qed

lemma cr_pass_line_length:
  assumes "cr_pass_line r s = Next q t" and "cr_inv r"
  shows "length t \<le> length s"
proof (cases "bfind CRLF (cr_control_line r @ s)")
  case None
  with assms(1) show ?thesis by (simp add: cr_pass_line_def)
next
  case (Some pos)
  have n: "bfind CRLF (cr_control_line r) = None" using assms(2) by (simp add: cr_inv_def)
  from cr_pass_line_next [OF assms(1) Some] bfind_append_None [OF n Some] show ?thesis by auto
qed

lemma cr_pass_inv:
  assumes "cr_inv r" and "cr_fits n r s" and "0 \<le> n"
  shows "case cr_pass put n r s of Next q t \<Rightarrow> cr_inv q \<and> cr_fits n q t
     | Break q \<Rightarrow> cr_inv q | Return k q \<Rightarrow> 0 < k \<and> k \<le> n"
proof (cases "cr_sealed r")
  case True
  then have p: "cr_pass put n r s = cr_pass_trailer n r s" by (simp add: cr_pass_def cr_sealed_def)
  show ?thesis
  proof (cases "cr_pass_trailer n r s")
    case (Next q t)
    then have "\<not> prefix CRLF (cr_trailer r @ s)" "find_double_newline (cr_trailer r @ s) = None"
      "q = r\<lparr>cr_trailer := cr_trailer r @ s\<rparr>" "t = []"
      by (auto simp: cr_pass_trailer_def Let_def split: if_splits option.splits)
    with Next p True assms show ?thesis by (auto simp: cr_inv_def cr_sealed_def cr_fits_def)
  next
    case (Break q)
    then show ?thesis by (cases rule: cr_pass_trailer_cases [of n r s]) auto
  next
    case (Return k q)
    with trailer_Return_bounds [OF Return assms(1,2)] p show ?thesis by simp
  qed
next
  case False
  with assms have t: "cr_trailer r = []" and len: "int (length s) \<le> n"
    by (auto simp: cr_inv_def cr_fits_def)
  consider "cr_pass put n r s = cr_pass_data put r s"
    | "cr_pass put n r s = cr_pass_end r s" "cr_chunk_remainder r = 0"
    | "cr_pass put n r s = cr_pass_line r s"
    using False by (cases "0 < cr_chunk_remainder r"; cases "cr_validate_chunk_end r")
      (simp_all add: cr_pass_def cr_sealed_def)
  then show ?thesis
  proof cases
    case 1
    have "int (length s - cr_chunk_remainder r) \<le> n" using len by linarith
    with 1 show ?thesis using assms(1) t
      by (simp add: cr_pass_data_eq cr_inv_def cr_fits_def)
  next
    case 2
    then show ?thesis
    proof (cases "cr_pass_end r s")
      case (Next q u)
      from cr_pass_end_next [OF this] have "cr_inv q \<and> cr_fits n q u"
        using assms(1) t len 2(2)
        by (auto simp: cr_inv_def cr_fits_def cr_sealed_def cr_fail_def bfind_0)
      with Next 2 show ?thesis by simp
    qed (auto simp: cr_pass_end_def Let_def split: if_splits)
  next
    case 3
    show ?thesis
    proof (cases "cr_pass_line r s")
      case (Next q u)
      with cr_pass_line_inv [of q r s] cr_pass_line_length [OF Next assms(1)] assms(1) t len 3
      show ?thesis by (simp add: cr_fits_def)
    qed (use 3 t assms(1) cr_pass_line_inv [of _ r s] in simp_all)
  qed
qed

lemma cr_loop_bounds:
  assumes "cr_inv r" and "\<not> cr_completed r" and "cr_fits n r s" and "0 \<le> n"
  shows "case cr_loop put n r s of (k, q) \<Rightarrow> 0 \<le> k \<and> k \<le> n \<and> (0 < n \<longrightarrow> 0 < k) \<and>
     (cr_completed q \<or> (k = n \<and> cr_inv q))"
  using assms
proof (induction put n r s rule: cr_loop.induct)
  case (1 put n r s)
  show ?case
  proof (cases "s = []")
    case False
    note inv = cr_pass_inv [OF 1(2,4,5), of put]
    show ?thesis
    proof (cases "cr_pass put n r s")
      case (Next q t)
      with "1.IH" [OF False Next] inv 1(3,5) cr_pass_Next_completed [OF Next] False
      show ?thesis by (simp add: cr_loop_step)
    next
      case (Return k q)
      with inv cr_pass_Return [OF Return] False show ?thesis by (simp add: cr_loop_step)
    qed (use inv False 1(5) in \<open>simp add: cr_loop_step\<close>)
  qed (use 1 in simp)
qed

subsection \<open>The interface of the parser\<close>

text \<open>
  What \<^verbatim>\<open>HTTPRequestParser\<close> relies on in its \<^verbatim>\<open>body_rcv\<close>: \<^verbatim>\<open>received\<close> consumes part of the
  data and reports how much, all of it unless the body ended, and something of it whenever
  there is any; once it is completed it consumes nothing.
\<close>

locale stream_consumer =
  fixes received :: "'r \<Rightarrow> bytes \<Rightarrow> int \<times> 'r"
    and finished :: "'r \<Rightarrow> bool"
    and inv :: "'r \<Rightarrow> bool"
  assumes consumed_bounds: "inv r \<Longrightarrow> received r s = (n, r') \<Longrightarrow> 0 \<le> n \<and> n \<le> int (length s) \<and> inv r'"
    and consumed_all: "inv r \<Longrightarrow> received r s = (n, r') \<Longrightarrow> \<not> finished r' \<Longrightarrow> n = int (length s)"
    and consumed_some: "inv r \<Longrightarrow> \<not> finished r \<Longrightarrow> s \<noteq> [] \<Longrightarrow> 0 < fst (received r s)"
begin

text \<open>
  The pieces that a caller cuts off are shorter and shorter: giving back what was left over
  comes to an end.
\<close>

fun drain :: "nat \<Rightarrow> 'r \<Rightarrow> bytes \<Rightarrow> 'r \<times> bytes" where
  "drain 0 r s = (r, s)"
| "drain (Suc k) r s =
     (if s = [] \<or> finished r then (r, s)
      else let (n, r') = received r s in drain k r' (drop (nat n) s))"

lemma drain_ends: "inv r \<Longrightarrow> length s \<le> k \<Longrightarrow> finished (fst (drain k r s)) \<or> snd (drain k r s) = []"
proof (induction k arbitrary: r s)
  case (Suc k)
  show ?case
  proof (cases "s = [] \<or> finished r")
    case False
    obtain n r' where rc: "received r s = (n, r')" by fastforce
    then have "0 < n" using consumed_some [OF Suc.prems(1), of s] False by simp
    then have "length (drop (nat n) s) \<le> k" using Suc.prems(2) by simp
    with Suc.IH [of r' "drop (nat n) s"] consumed_bounds [OF Suc.prems(1) rc] False rc
    show ?thesis by simp
  qed auto
qed simp

end

definition fr_inv :: "overbuf fixed_rcv \<Rightarrow> bool" where
  "fr_inv r \<longleftrightarrow> ob_wf (fr_buf r) \<and> (fr_completed r \<or> 0 < fr_remain r)"

definition cr_ok_inv :: "overbuf chunked_rcv \<Rightarrow> bool" where
  "cr_ok_inv r \<longleftrightarrow> ob_wf (cr_buf r) \<and> (cr_completed r \<or> cr_inv r)"

interpretation fixed: stream_consumer "fr_received ob_append" fr_completed fr_inv
  by unfold_locales
    (auto simp: fr_received_def fr_inv_def Let_def ob_append_ok split: if_splits)

lemma cr_received_bounds:
  assumes "cr_ok_inv r" and "cr_received ob_append r s = (n, r')"
  shows "0 \<le> n \<and> n \<le> int (length s) \<and> cr_ok_inv r' \<and> (\<not> cr_completed r' \<longrightarrow> n = int (length s))
    \<and> (\<not> cr_completed r \<and> s \<noteq> [] \<longrightarrow> 0 < n)"
proof (cases "cr_completed r")
  case True
  with assms show ?thesis by (auto simp: cr_received_def)
next
  case False
  then have i: "cr_inv r" using assms(1) by (simp add: cr_ok_inv_def)
  have l: "cr_loop ob_append (int (length s)) r s = (n, r')"
    using assms(2) False by (simp add: cr_received_def)
  have "cr_fits (int (length s)) r s" by (simp add: cr_fits_def)
  from cr_loop_bounds [OF i False this, of ob_append] l
    ob_fifo.cr_received_sink [of r s] assms
  show ?thesis by (auto simp: cr_ok_inv_def)
qed

interpretation chunked: stream_consumer "cr_received ob_append" cr_completed cr_ok_inv
  using cr_received_bounds by unfold_locales (metis, metis, metis prod.collapse)

text \<open>
  A receiver of a chunked body consumes, in any state it can be in, between 0 and all of the
  bytes it is given and never more, all of them while the body goes on, and at least one byte
  until the body is complete; so a caller that gives back what was left over makes progress.
\<close>

theorem chunked_consumption:
  assumes "cr_ok_inv r"
  shows "let (n, r') = cr_received ob_append r s in
    0 \<le> n \<and> n \<le> int (length s) \<and> cr_ok_inv r' \<and>
    (\<not> cr_completed r' \<longrightarrow> n = int (length s)) \<and> (\<not> cr_completed r \<and> s \<noteq> [] \<longrightarrow> 0 < n)"
  using cr_received_bounds [OF assms, of s] by (cases "cr_received ob_append r s") simp

theorem chunked_consumption_witness:
  "0 < fst (cr_received ob_append (cr_init (ob_init 10)) ''5'')"
proof -
  have "cr_ok_inv (cr_init (ob_init 10))" by (simp add: cr_ok_inv_def)
  from chunked_consumption [OF this, of "''5''"] show ?thesis by (simp split: prod.splits)
qed

text \<open>
  How a chunked body was cut into pieces does not matter. Fed with any two ways to cut the
  same bytes, the receiver ends with the same error or none, the same body in its buffer, and
  agrees on whether the body has ended.
\<close>

theorem chunked_fragmentation:
  assumes "concat ds = concat es"
  shows "(let r = cr_feed ob_append (cr_init (ob_init overflow)) ds
          in (cr_error r, ob_content (cr_buf r), cr_done r)) =
         (let r = cr_feed ob_append (cr_init (ob_init overflow)) es
          in (cr_error r, ob_content (cr_buf r), cr_done r))"
proof -
  have "cr_view (cr_map ob_content (cr_feed ob_append (cr_init (ob_init overflow)) ds)) =
    cr_view (cr_map ob_content (cr_feed ob_append (cr_init (ob_init overflow)) es))"
    by (simp add: ob_fifo.cr_feed_view assms)
  then show ?thesis by (auto simp: cr_view_def cr_done_def Let_def)
qed

theorem chunked_fragmentation_witness:
  "(let r = cr_feed ob_append (cr_init (ob_init 3)) [''1'', [CR], [LF, CHR ''x'', CR], [LF]]
    in (cr_error r, ob_content (cr_buf r), cr_done r)) =
   (let r = cr_feed ob_append (cr_init (ob_init 3)) [[CHR ''1'', CR, LF, CHR ''x'', CR, LF]]
    in (cr_error r, ob_content (cr_buf r), cr_done r))"
  by (rule chunked_fragmentation) simp

lemma cr_feed_language:
  "(let r = cr_feed ob_append (cr_init (ob_init overflow)) ds
    in cr_completed r \<and> cr_error r = None \<and> ob_content (cr_buf r) = d) \<longleftrightarrow>
   (\<exists>e rest. concat ds = e @ rest \<and> chunked_body e d)"
proof -
  let ?r = "cr_feed ob_append (cr_init (ob_init overflow)) ds"
  let ?q = "cr_run (@) (cr_init []) (concat ds)"
  have "cr_view (cr_map ob_content ?r) = cr_view (snd ?q)"
    using ob_fifo.cr_feed_view [of "ob_init overflow" ds] by simp
  then have eq: "cr_completed ?r \<and> cr_error ?r = None \<and> ob_content (cr_buf ?r) = d
      \<longleftrightarrow> cr_ok ?q \<and> cr_buf (snd ?q) = d"
    by (auto simp: cr_view_def cr_done_def cr_ok_def)
  have "cr_ok ?q \<and> cr_buf (snd ?q) = d \<longleftrightarrow> (\<exists>e rest. concat ds = e @ rest \<and> chunked_body e d)"
  proof
    assume a: "cr_ok ?q \<and> cr_buf (snd ?q) = d"
    with run_chunked_body obtain e d' rest where e: "concat ds = e @ rest" "chunked_body e d'"
      by blast
    with chunked_body_run [OF e(2), of "[]" rest] a have "d' = d" by (simp add: Let_def)
    with e show "\<exists>e rest. concat ds = e @ rest \<and> chunked_body e d" by blast
  next
    assume "\<exists>e rest. concat ds = e @ rest \<and> chunked_body e d"
    then obtain e rest where "concat ds = e @ rest" "chunked_body e d" by blast
    with chunked_body_run [of e d "[]" rest] show "cr_ok ?q \<and> cr_buf (snd ?q) = d"
      by (simp add: Let_def)
  qed
  with eq show ?thesis by (simp add: Let_def)
qed

text \<open>
  C11: a receiver accepts exactly the language of chunked bodies. However the input was cut, it
  completes without an error and with the data \<open>d\<close> in its buffer if and only if the input starts
  with a well-formed body whose chunks hold \<open>d\<close>.
\<close>

theorem chunked_language:
  "(let r = cr_feed ob_append (cr_init (ob_init overflow)) ds
    in cr_completed r \<and> cr_error r = None \<and> ob_content (cr_buf r) = d) \<longleftrightarrow>
   (\<exists>e rest. concat ds = e @ rest \<and> chunked_body e d)"
  by (rule cr_feed_language)

subsection \<open>Fixed length\<close>

fun fr_feed :: "('b \<Rightarrow> bytes \<Rightarrow> 'b) \<Rightarrow> 'b fixed_rcv \<Rightarrow> bytes list \<Rightarrow> 'b fixed_rcv" where
  "fr_feed put r [] = r"
| "fr_feed put r (d # ds) = (if fr_completed r then r else fr_feed put (snd (fr_received put r d)) ds)"

lemma fr_feed_done: "fr_completed r \<Longrightarrow> fr_feed put r ds = r"
  by (cases ds) simp_all

context byte_sink
begin

lemma fr_feed_sink:
  "wf (fr_buf r) \<Longrightarrow> \<not> fr_completed r \<Longrightarrow> 0 < fr_remain r \<Longrightarrow>
   let r' = fr_feed put r ds in
     content (fr_buf r') = content (fr_buf r) @ take (nat (fr_remain r)) (concat ds) \<and>
     (fr_completed r' \<longleftrightarrow> fr_remain r \<le> int (length (concat ds)))"
proof (induction ds arbitrary: r)
  case (Cons d ds)
  show ?case
  proof (cases "fr_remain r \<le> int (length d)")
    case True
    with Cons.prems show ?thesis
      by (simp add: fr_received_def fr_feed_done content_put py_take_def Let_def)
  next
    case False
    let ?r = "r\<lparr>fr_buf := put (fr_buf r) d, fr_remain := fr_remain r - int (length d)\<rparr>"
    have "fr_feed put r (d # ds) = fr_feed put ?r ds"
      using False Cons.prems by (simp add: fr_received_def Let_def)
    moreover have "content (fr_buf ?r) = content (fr_buf r) @ d" "wf (fr_buf ?r)"
      using Cons.prems by (simp_all add: content_put wf_put)
    moreover have "nat (fr_remain r) - length d = nat (fr_remain r - int (length d))" by simp
    ultimately show ?thesis using Cons.IH [of ?r] Cons.prems False
      by (simp add: Let_def algebra_simps)
  qed
qed simp

end

text \<open>
  A body with a length. However its bytes arrive, the receiver writes the first
  \<^verbatim>\<open>Content-Length\<close> bytes of them to its buffer, nothing more, and is complete as soon as it
  has them and not before.
\<close>

theorem fixed_length_body:
  assumes "0 < cl"
  shows "let r = fr_feed ob_append (fr_init cl (ob_init overflow)) ds in
    ob_content (fr_buf r) = take (nat cl) (concat ds) \<and>
    (fr_completed r \<longleftrightarrow> cl \<le> int (length (concat ds)))"
  using ob_fifo.fr_feed_sink [of "fr_init cl (ob_init overflow)" ds] assms by (simp add: fr_init_def)

theorem fixed_length_body_witness:
  "fr_completed (fr_feed ob_append (fr_init 3 (ob_init 2)) [''a'', ''bcd''])"
  using fixed_length_body [of 3 2 "[''a'', ''bcd'']"] by (simp add: Let_def)

end
