(* ===== verification/Adjustments.thy ===== *)
theory Adjustments
  imports Prelude
begin

text \<open>
  \<^verbatim>\<open>adjustments.py\<close>: the parameters that the components of a connection read, with their defaults. The
  theory \<open>Config\<close> adds those that concern listening and the main loop, and the constructor.
\<close>

record adjustments =
  adj_threads :: int
  adj_trusted_proxy :: "string option"
  adj_trusted_proxy_count :: "int option"
  adj_trusted_proxy_headers :: "string list"
  adj_log_untrusted_proxy_headers :: bool
  adj_clear_untrusted_proxy_headers :: bool
  adj_url_scheme :: string
  adj_url_prefix :: string
  adj_ident :: "string option"
  adj_recv_bytes :: int
  adj_send_bytes :: int
  adj_outbuf_overflow :: int
  adj_outbuf_high_watermark :: int
  adj_inbuf_overflow :: int
  adj_connection_limit :: int
  adj_cleanup_interval :: int
  adj_channel_timeout :: int
  adj_log_socket_errors :: bool
  adj_max_request_header_size :: int
  adj_max_request_body_size :: int
  adj_expose_tracebacks :: bool
  adj_channel_request_lookahead :: int
  adj_server_name :: string

definition default_adjustments :: adjustments where
  "default_adjustments =
     \<lparr>adj_threads = 4, adj_trusted_proxy = None, adj_trusted_proxy_count = None,
      adj_trusted_proxy_headers = [], adj_log_untrusted_proxy_headers = False,
      adj_clear_untrusted_proxy_headers = True, adj_url_scheme = ''http'', adj_url_prefix = [],
      adj_ident = Some ''waitress'', adj_recv_bytes = 8192, adj_send_bytes = 1,
      adj_outbuf_overflow = 1048576, adj_outbuf_high_watermark = 16777216,
      adj_inbuf_overflow = 524288, adj_connection_limit = 100, adj_cleanup_interval = 30,
      adj_channel_timeout = 120, adj_log_socket_errors = True,
      adj_max_request_header_size = 262144, adj_max_request_body_size = 1073741824,
      adj_expose_tracebacks = False, adj_channel_request_lookahead = 0,
      adj_server_name = ''waitress.invalid''\<rparr>"

end
