(* ===== verification/Parser.thy ===== *)
theory Parser
  imports Receiver Adjustments
begin

text \<open>
  \<^verbatim>\<open>parser.py\<close>: from the bytes of a connection to one request. The functions of the module come
  first (\<^verbatim>\<open>get_header_lines\<close>, \<^verbatim>\<open>crack_first_line\<close>, \<^verbatim>\<open>split_uri\<close>), then the object
  \<^verbatim>\<open>HTTPRequestParser\<close> with \<^verbatim>\<open>parse_header\<close> and \<^verbatim>\<open>received\<close>. A method that may raise returns
  the exception beside the state, since the assignments made before the exception stay.
\<close>

subsection \<open>get_header_lines\<close>

abbreviation QUOTE :: char where "QUOTE \<equiv> CHR 0x22"

definition bare_crlf_error :: "bytes \<Rightarrow> exn" where
  "bare_crlf_error line =
     ParsingError (''Bare CR or LF found in header line '' @ [QUOTE] @ line @ [QUOTE])"

definition malformed_line_error :: "bytes \<Rightarrow> exn" where
  "malformed_line_error line = ParsingError (''Malformed header line '' @ [QUOTE] @ line @ [QUOTE])"

text \<open>The loop over the lines, with the list \<^verbatim>\<open>r\<close> so far.\<close>

fun header_lines_loop :: "bytes list \<Rightarrow> bytes list \<Rightarrow> exn + bytes list" where
  "header_lines_loop [] r = Inr r"
| "header_lines_loop (line # lines) r =
     (if line = [] then header_lines_loop lines r
      else if CR \<in> set line \<or> LF \<in> set line then Inl (bare_crlf_error line)
      else if http_ws (hd line)
      then if r = [] then Inl (malformed_line_error line)
           else header_lines_loop lines (butlast r @ [last r @ line])
      else header_lines_loop lines (r @ [line]))"

definition get_header_lines :: "bytes \<Rightarrow> exn + bytes list" where
  "get_header_lines header = header_lines_loop (bsplit CRLF header) []"

subsection \<open>crack_first_line\<close>

text \<open>\<^verbatim>\<open>[^ :?#]+://[^ ?#/]*(?:[0-9]{1,5})?\<close>, the optional scheme and host of a target.\<close>

definition uri_authority :: rx where
  "uri_authority = rseq
     [rplus (RCls (\<lambda>c. c \<notin> {SP, CHR '':'', CHR ''?'', CHR ''#''})), rlit ''://'',
      RStar True (RCls (\<lambda>c. c \<notin> {SP, CHR ''?'', CHR ''#'', CHR ''/''})),
      ropt (RSeq (RCls DIGIT) (rupto 4 (RCls DIGIT)))]"

definition first_line_re :: rx where
  "first_line_re = rseq
     [RGroup ''method'' (rplus (RCls TCHAR)), rlit '' '',
      RGroup ''uri'' (RSeq (ropt uri_authority) (rplus (RCls (\<lambda>c. c \<noteq> SP)))),
      ropt (RSeq (rlit '' HTTP/'') (RGroup ''version'' (rseq [RCls DIGIT, rlit ''.'', RCls DIGIT])))]"

definition group_or_empty :: "caps \<Rightarrow> string \<Rightarrow> bytes" where
  "group_or_empty m n = (case map_of m n of None \<Rightarrow> [] | Some s \<Rightarrow> s)"

definition crack_first_line :: "bytes \<Rightarrow> exn + bytes \<times> bytes \<times> bytes" where
  "crack_first_line line =
     (case re_fullmatch first_line_re line of
        None \<Rightarrow> Inr ([], [], [])
      | Some m \<Rightarrow>
          let version = group_or_empty m ''version''; method = group_or_empty m ''method'';
              uri = group_or_empty m ''uri''
          in if method \<noteq> map byte_upper method
             then Inl (ParsingError (''Malformed HTTP method '' @ [QUOTE] @ method @ [QUOTE]))
             else Inr (method, uri, version))"

subsection \<open>split_uri\<close>

text \<open>\<^verbatim>\<open>urllib.parse.unquote_to_bytes\<close>.\<close>

fun unquote_to_bytes :: "bytes \<Rightarrow> bytes" where
  "unquote_to_bytes (c # a # b # s) =
     (if c = CHR ''%'' \<and> is_hexdig a \<and> is_hexdig b
      then char_of (16 * digit_val a + digit_val b) # unquote_to_bytes s
      else c # unquote_to_bytes (a # b # s))"
| "unquote_to_bytes s = s"

definition unquote_bytes_to_wsgi :: "bytes \<Rightarrow> string" where
  "unquote_bytes_to_wsgi b = unquote_to_bytes b"

text \<open>
  \<^verbatim>\<open>urllib.parse.urlsplit\<close> on bytes, as in CPython 3.9 to 3.11: the bytes are decoded as ASCII,
  leading control characters and spaces are cut off, and tabs, carriage returns and line feeds
  removed; then the scheme, the host after \<^verbatim>\<open>//\<close>, the fragment and the query are split off.
\<close>

definition is_ascii :: "char \<Rightarrow> bool" where "is_ascii c \<longleftrightarrow> in_range 0 127 c"
definition is_alpha :: "char \<Rightarrow> bool" where
  "is_alpha c \<longleftrightarrow> in_range 65 90 c \<or> in_range 97 122 c"
definition scheme_char :: "char \<Rightarrow> bool" where
  "scheme_char c \<longleftrightarrow> is_alpha c \<or> is_digit c \<or> c \<in> {CHR ''+'', CHR ''-'', CHR ''.''}"

definition split_scheme :: "bytes \<Rightarrow> bytes \<times> bytes" where
  "split_scheme url =
     (case bfind '':'' url of
        None \<Rightarrow> ([], url)
      | Some i \<Rightarrow> if 0 < i \<and> is_alpha (hd url) \<and> (\<forall>c \<in> set (take i url). scheme_char c)
                  then (map byte_lower (take i url), drop (i + 1) url) else ([], url))"

definition split_netloc :: "bytes \<Rightarrow> bytes \<times> bytes" where
  "split_netloc url =
     (if prefix ''//'' url
      then let stop = (\<lambda>c. c \<in> {CHR ''/'', CHR ''?'', CHR ''#''})
           in (takeWhile (\<lambda>c. \<not> stop c) (drop 2 url), dropWhile (\<lambda>c. \<not> stop c) (drop 2 url))
      else ([], url))"

text \<open>\<^verbatim>\<open>url, rest = url.split(c, 1)\<close> if \<^verbatim>\<open>c in url\<close>.\<close>

definition split_off :: "char \<Rightarrow> bytes \<Rightarrow> bytes \<times> bytes" where
  "split_off c url = (takeWhile (\<lambda>x. x \<noteq> c) url, tl (dropWhile (\<lambda>x. x \<noteq> c) url))"

definition urlsplit :: "bytes \<Rightarrow> exn + bytes \<times> bytes \<times> bytes \<times> bytes \<times> bytes" where
  "urlsplit url =
     (if \<not> list_all is_ascii url then Inl UnicodeError
      else let url = filter (\<lambda>c. c \<notin> {HT, CR, LF}) (lstrip (in_range 0 32) url);
               (scheme, url) = split_scheme url;
               (netloc, url) = split_netloc url
           in if (CHR ''['' \<in> set netloc) \<noteq> (CHR '']'' \<in> set netloc)
              then Inl (ValueError ''Invalid IPv6 URL'')
              else let (url, fragment) = split_off (CHR ''#'') url;
                       (path, query) = split_off (CHR ''?'') url
                   in Inr (scheme, netloc, path, query, fragment))"

definition split_uri :: "bytes \<Rightarrow> exn + string \<times> string \<times> string \<times> string \<times> string" where
  "split_uri uri =
     (if take 2 uri = ''//''
      then let (path, fragment) = split_off (CHR ''#'') uri;
               (path, query) = split_off (CHR ''?'') path
           in Inr ([], [], unquote_bytes_to_wsgi path, query, fragment)
      else case urlsplit uri of
             Inl UnicodeError \<Rightarrow> Inl (ParsingError ''Bad URI'')
           | Inl e \<Rightarrow> Inl e
           | Inr (scheme, netloc, path, query, fragment) \<Rightarrow>
               Inr (scheme, netloc, unquote_bytes_to_wsgi path, query, fragment))"

subsection \<open>HTTPRequestParser\<close>

datatype body_rcv = BFixed "overbuf fixed_rcv" | BChunked "overbuf chunked_rcv"

fun br_received :: "body_rcv \<Rightarrow> bytes \<Rightarrow> int \<times> body_rcv" where
  "br_received (BFixed r) s = (let (n, r') = fr_received ob_append r s in (n, BFixed r'))"
| "br_received (BChunked r) s = (let (n, r') = cr_received ob_append r s in (n, BChunked r'))"

fun br_completed :: "body_rcv \<Rightarrow> bool" where
  "br_completed (BFixed r) = fr_completed r"
| "br_completed (BChunked r) = cr_completed r"

fun br_error :: "body_rcv \<Rightarrow> http_error option" where
  "br_error (BFixed r) = None"
| "br_error (BChunked r) = cr_error r"

fun br_getbuf :: "body_rcv \<Rightarrow> overbuf" where
  "br_getbuf (BFixed r) = fr_buf r"
| "br_getbuf (BChunked r) = cr_buf r"

fun br_setbuf :: "overbuf \<Rightarrow> body_rcv \<Rightarrow> body_rcv" where
  "br_setbuf b (BFixed r) = BFixed (r\<lparr>fr_buf := b\<rparr>)"
| "br_setbuf b (BChunked r) = BChunked (r\<lparr>cr_buf := b\<rparr>)"

definition br_len :: "body_rcv \<Rightarrow> int" where
  "br_len r = ob_len (br_getbuf r)"

text \<open>
  The object. The attributes from \<open>p_first_line\<close> on have no value in Python before
  \<^verbatim>\<open>parse_header\<close> sets them; here they are empty until then, and nothing reads them before.
\<close>

record parser =
  p_completed :: bool
  p_empty :: bool
  p_expect_continue :: bool
  p_headers_finished :: bool
  p_header_plus :: bytes
  p_chunked :: bool
  p_content_length :: int
  p_header_bytes_received :: int
  p_body_bytes_received :: int
  p_body_rcv :: "body_rcv option"
  p_version :: string
  p_error :: "http_error option"
  p_connection_close :: bool
  p_headers :: dict
  p_first_line :: bytes
  p_request_uri :: string
  p_command :: string
  p_proxy_scheme :: string
  p_proxy_netloc :: string
  p_path :: string
  p_query :: string
  p_fragment :: string
  p_url_scheme :: string

definition parser_init :: parser where
  "parser_init =
     \<lparr>p_completed = False, p_empty = False, p_expect_continue = False, p_headers_finished = False,
      p_header_plus = [], p_chunked = False, p_content_length = 0, p_header_bytes_received = 0,
      p_body_bytes_received = 0, p_body_rcv = None, p_version = ''1.0'', p_error = None,
      p_connection_close = False, p_headers = [], p_first_line = [], p_request_uri = [],
      p_command = [], p_proxy_scheme = [], p_proxy_netloc = [], p_path = [], p_query = [],
      p_fragment = [], p_url_scheme = []\<rparr>"

text \<open>Statements in sequence: the first exception ends them, with the state reached.\<close>

definition and_then :: "exn option \<times> 's \<Rightarrow> ('s \<Rightarrow> exn option \<times> 's) \<Rightarrow> exn option \<times> 's" where
  "and_then r f = (case r of (None, s) \<Rightarrow> f s | (Some e, s) \<Rightarrow> (Some e, s))"

lemma and_then_None: "and_then r f = (None, s') \<longleftrightarrow> (\<exists>s. r = (None, s) \<and> f s = (None, s'))"
  by (auto simp: and_then_def split: prod.splits option.splits)

subsection \<open>parse_header: the fields\<close>

definition SINGLETON_FIELDS :: "string set" where
  "SINGLETON_FIELDS = {''HOST'', ''CONTENT_LENGTH'', ''CONTENT_TYPE''}"

text \<open>\<^verbatim>\<open>key.upper().replace(b"-", b"_")\<close>.\<close>

definition env_key :: "bytes \<Rightarrow> string" where
  "env_key key = map (\<lambda>c. if c = CHR ''-'' then CHR ''_'' else c) (map byte_upper key)"

definition add_header :: "dict \<Rightarrow> bytes \<Rightarrow> exn + dict" where
  "add_header headers line =
     (case re_match HEADER_FIELD_RE line of
        None \<Rightarrow> Inl (ParsingError ''Invalid header'')
      | Some (m, _) \<Rightarrow>
          let key = group_or_empty m ''name''; value = group_or_empty m ''value''
          in if CHR ''_'' \<in> set key then Inr headers
             else let value = strip http_ws value; key1 = env_key key
                  in if key1 \<in> SINGLETON_FIELDS \<and> dict_get headers key1 \<noteq> None
                     then Inl (ParsingError (''Duplicate header: '' @ key))
                     else Inr (case dict_get headers key1 of
                                 Some old \<Rightarrow> dict_set key1 (old @ '', '' @ value) headers
                               | None \<Rightarrow> dict_set key1 value headers))"

fun add_headers :: "dict \<Rightarrow> bytes list \<Rightarrow> exn option \<times> dict" where
  "add_headers headers [] = (None, headers)"
| "add_headers headers (line # lines) =
     (case add_header headers line of
        Inl e \<Rightarrow> (Some e, headers)
      | Inr headers' \<Rightarrow> add_headers headers' lines)"

subsection \<open>parse_header: the request line\<close>

definition ph_request_line :: "adjustments \<Rightarrow> bytes \<Rightarrow> parser \<Rightarrow> exn option \<times> parser" where
  "ph_request_line adj first_line p =
     (case crack_first_line first_line of
        Inl e \<Rightarrow> (Some e, p)
      | Inr (command, uri, version) \<Rightarrow>
          if command = [] \<and> uri = [] \<and> version = []
          then (Some (ParsingError ''Start line is invalid''), p)
          else let p = p\<lparr>p_request_uri := uri, p_command := command, p_version := version\<rparr>
               in (case split_uri uri of
                     Inl e \<Rightarrow> (Some e, p)
                   | Inr (scheme, netloc, path, query, fragment) \<Rightarrow>
                       (None, p\<lparr>p_proxy_scheme := scheme, p_proxy_netloc := netloc, p_path := path,
                                p_query := query, p_fragment := fragment,
                                p_url_scheme := adj_url_scheme adj\<rparr>)))"

subsection \<open>parse_header: the length of the body\<close>

definition te_encodings :: "string \<Rightarrow> string list" where
  "te_encodings te = map (\<lambda>e. str_lower (strip http_ws e)) (filter (\<lambda>e. e \<noteq> []) (bsplit '','' te))"

abbreviation TE_unsupported :: exn where
  "TE_unsupported \<equiv> TransferEncodingNotImplemented ''Transfer-Encoding requested is not supported.''"

definition ph_transfer_encoding :: "adjustments \<Rightarrow> parser \<Rightarrow> exn option \<times> parser" where
  "ph_transfer_encoding adj p0 =
     (let te = dict_get_or (p_headers p0) ''TRANSFER_ENCODING'' [];
          p = p0\<lparr>p_headers := dict_del ''TRANSFER_ENCODING'' (p_headers p0)\<rparr>;
          encodings = te_encodings te
      in if list_ex (\<lambda>e. e \<noteq> ''chunked'') encodings then (Some TE_unsupported, p)
         else if encodings \<noteq> [] \<and> last encodings = ''chunked''
         then if length (filter (\<lambda>e. e = ''chunked'') encodings) \<noteq> 1
              then (Some (TransferEncodingNotImplemented
                     ''Transfer-Encoding is invalid. Multiple chunked encodings requested.''), p)
              else (None, p\<lparr>p_chunked := True,
                      p_body_rcv := Some (BChunked (cr_init (ob_init (adj_inbuf_overflow adj)))),
                      p_headers := dict_del ''CONTENT_LENGTH'' (p_headers p),
                      p_connection_close :=
                        (p_connection_close p \<or> dict_get (p_headers p) ''CONTENT_LENGTH'' \<noteq> None)\<rparr>)
         else if encodings \<noteq> [] then (Some TE_unsupported, p)
         else (None, p))"

definition ph_connection :: "adjustments \<Rightarrow> parser \<Rightarrow> exn option \<times> parser" where
  "ph_connection adj p =
     (let connection = str_lower (dict_get_or (p_headers p) ''CONNECTION'' []);
          p1 = (if p_version p = ''1.0'' \<and> connection \<noteq> ''keep-alive''
                then p\<lparr>p_connection_close := True\<rparr> else p)
      in if p_version p1 = ''1.1''
         then and_then (ph_transfer_encoding adj p1)
                (\<lambda>p. let expect = str_lower (dict_get_or (p_headers p) ''EXPECT'' []);
                         p = p\<lparr>p_expect_continue := (expect = ''100-continue'')\<rparr>
                     in (None, if connection = ''close'' then p\<lparr>p_connection_close := True\<rparr> else p))
         else (None, p1))"

text \<open>
  \<^verbatim>\<open>int(s)\<close> of a string of decimal digits. White space around it is ignored; more than 4300
  digits are refused (the interpreter's \<^verbatim>\<open>sys.int_info.default_max_str_digits\<close>).
\<close>

definition py_int_digits :: "string \<Rightarrow> exn + int" where
  "py_int_digits s =
     (let d = strip str_ws s
      in if 4300 < length d then Inl (ValueError ''Exceeds the limit (4300 digits) for integer string conversion'')
         else Inr (int (from_base 10 d)))"

definition ph_content_length :: "adjustments \<Rightarrow> parser \<Rightarrow> exn option \<times> parser" where
  "ph_content_length adj p =
     (if p_chunked p then (None, p)
      else let cl = dict_get_or (p_headers p) ''CONTENT_LENGTH'' ''0''
           in if \<not> re_matches ONLY_DIGIT_RE cl then (Some (ParsingError ''Content-Length is invalid''), p)
              else case py_int_digits cl of
                     Inl e \<Rightarrow> (Some e, p)
                   | Inr n \<Rightarrow>
                       let p = p\<lparr>p_content_length := n\<rparr>
                       in (None, if 0 < n
                                 then p\<lparr>p_body_rcv := Some (BFixed (fr_init n (ob_init (adj_inbuf_overflow adj))))\<rparr>
                                 else p))"

definition parse_header :: "adjustments \<Rightarrow> parser \<Rightarrow> bytes \<Rightarrow> exn option \<times> parser" where
  "parse_header adj p header_plus =
     (case bfind CRLF header_plus of
        None \<Rightarrow> (Some (ParsingError ''HTTP message header invalid''), p)
      | Some index \<Rightarrow>
          let first_line = rstrip byte_ws (take index header_plus);
              header = drop (index + 2) header_plus
          in if CR \<in> set first_line \<or> LF \<in> set first_line
             then (Some (ParsingError ''Bare CR or LF found in HTTP message''), p)
             else let p = p\<lparr>p_first_line := first_line\<rparr>
                  in (case get_header_lines header of
                       Inl e \<Rightarrow> (Some e, p)
                     | Inr lines \<Rightarrow>
                         (case add_headers (p_headers p) lines of
                            (Some e, headers) \<Rightarrow> (Some e, p\<lparr>p_headers := headers\<rparr>)
                          | (None, headers) \<Rightarrow>
                              and_then (ph_request_line adj first_line (p\<lparr>p_headers := headers\<rparr>))
                                (\<lambda>p. and_then (ph_connection adj p) (ph_content_length adj)))))"

subsection \<open>received\<close>

definition too_large_header :: "adjustments \<Rightarrow> http_error" where
  "too_large_header adj =
     RequestHeaderFieldsTooLarge (''exceeds max_header of '' @ str_of_int (adj_max_request_header_size adj))"

definition too_large_body :: "adjustments \<Rightarrow> http_error" where
  "too_large_body adj =
     RequestEntityTooLarge (''exceeds max_body of '' @ str_of_int (adj_max_request_body_size adj))"

text \<open>What follows \<^verbatim>\<open>parse_header\<close> when it returns: the clause \<^verbatim>\<open>else\<close> of the \<^verbatim>\<open>try\<close>.\<close>

definition header_parsed :: "adjustments \<Rightarrow> parser \<Rightarrow> parser" where
  "header_parsed adj p =
     (let p = (if p_body_rcv p = None then p\<lparr>p_completed := True\<rparr> else p)
      in if 0 < p_content_length p \<and> adj_max_request_body_size adj \<le> p_content_length p
         then p\<lparr>p_error := Some (too_large_body adj), p_completed := True\<rparr> else p)"

text \<open>
  The branch for the end of the header. An exception that the \<^verbatim>\<open>try\<close> does not catch leaves the
  method; it is returned beside the state.
\<close>

definition header_finished :: "adjustments \<Rightarrow> parser \<Rightarrow> bytes \<Rightarrow> exn option \<times> parser" where
  "header_finished adj p header =
     (let header_plus = lstrip byte_ws header
      in if header_plus = []
         then (None, p\<lparr>p_empty := True, p_completed := True, p_headers_finished := True\<rparr>)
         else (case parse_header adj p header_plus of
                 (None, p') \<Rightarrow> (None, (header_parsed adj p')\<lparr>p_headers_finished := True\<rparr>)
               | (Some (ParsingError msg), p') \<Rightarrow>
                   (None, p'\<lparr>p_error := Some (BadRequest msg), p_completed := True,
                             p_headers_finished := True\<rparr>)
               | (Some (TransferEncodingNotImplemented msg), p') \<Rightarrow>
                   (None, p'\<lparr>p_error := Some (ServerNotImplemented msg), p_completed := True,
                             p_headers_finished := True\<rparr>)
               | (Some e, p') \<Rightarrow> (Some e, p')))"

definition received_header :: "adjustments \<Rightarrow> parser \<Rightarrow> bytes \<Rightarrow> (exn + int) \<times> parser" where
  "received_header adj p data =
     (let datalen = int (length data); s = p_header_plus p @ data; index = find_double_newline s;
          (p1, consumed) =
            (case index of
               Some i \<Rightarrow> (p\<lparr>p_header_bytes_received := int i\<rparr>, datalen - (int (length s) - int i))
             | None \<Rightarrow> (p\<lparr>p_header_bytes_received := p_header_bytes_received p + datalen\<rparr>, datalen))
      in if adj_max_request_header_size adj \<le> p_header_bytes_received p1
         then (case parse_header adj p1 (''GET / HTTP/1.0'' @ CRLF) of
                 (Some e, p2) \<Rightarrow> (Inl e, p2)
               | (None, p2) \<Rightarrow>
                   (Inr consumed, p2\<lparr>p_error := Some (too_large_header adj), p_completed := True\<rparr>))
         else (case index of
                 Some i \<Rightarrow> (case header_finished adj p1 (take i s) of
                              (Some e, p2) \<Rightarrow> (Inl e, p2)
                            | (None, p2) \<Rightarrow> (Inr consumed, p2))
               | None \<Rightarrow> (Inr datalen, p1\<lparr>p_header_plus := s\<rparr>)))"

definition received_body :: "adjustments \<Rightarrow> parser \<Rightarrow> body_rcv \<Rightarrow> bytes \<Rightarrow> int \<times> parser" where
  "received_body adj p0 br0 data =
     (let (consumed, br) = br_received br0 data;
          p = p0\<lparr>p_body_rcv := Some br, p_body_bytes_received := p_body_bytes_received p0 + consumed\<rparr>
      in (consumed,
          if adj_max_request_body_size adj \<le> p_body_bytes_received p
          then p\<lparr>p_error := Some (too_large_body adj), p_completed := True\<rparr>
          else if br_error br \<noteq> None then p\<lparr>p_error := br_error br, p_completed := True\<rparr>
          else if br_completed br
          then let p = p\<lparr>p_completed := True\<rparr>
               in if p_chunked p
                  then p\<lparr>p_headers := dict_set ''CONTENT_LENGTH'' (str_of_int (br_len br)) (p_headers p)\<rparr>
                  else p
          else p))"

definition parser_received :: "adjustments \<Rightarrow> parser \<Rightarrow> bytes \<Rightarrow> (exn + int) \<times> parser" where
  "parser_received adj p data =
     (if p_completed p then (Inr 0, p)
      else case p_body_rcv p of
             None \<Rightarrow> received_header adj p data
           | Some br \<Rightarrow> (let (n, p') = received_body adj p br data in (Inr n, p')))"

definition get_body_stream :: "parser \<Rightarrow> pyfile \<times> parser" where
  "get_body_stream p =
     (case p_body_rcv p of
        None \<Rightarrow> (file_new, p)
      | Some br \<Rightarrow> (let (f, b) = ob_getfile (br_getbuf br)
                    in (f, p\<lparr>p_body_rcv := Some (br_setbuf b br)\<rparr>)))"

definition parser_close :: "parser \<Rightarrow> parser" where
  "parser_close p =
     (case p_body_rcv p of
        None \<Rightarrow> p
      | Some br \<Rightarrow> p\<lparr>p_body_rcv := Some (br_setbuf (ob_close (br_getbuf br)) br)\<rparr>)"

subsection \<open>The request line\<close>

text \<open>
  What \<^verbatim>\<open>first_line_re\<close> means, without regular expressions: method, one space, a target without
  spaces, and perhaps a version.
\<close>

definition http_version_part :: "bytes \<Rightarrow> bool" where
  "http_version_part v \<longleftrightarrow>
     (\<exists>a b. v = '' HTTP/'' @ [a, CHR ''.'', b] \<and> is_digit a \<and> is_digit b)"

definition request_line_spec :: "bytes \<Rightarrow> (bytes \<times> bytes \<times> bytes) option" where
  "request_line_spec line =
     (let method = takeWhile TCHAR line; rest = dropWhile TCHAR line;
          uri = takeWhile (\<lambda>c. c \<noteq> SP) (tl rest); v = dropWhile (\<lambda>c. c \<noteq> SP) (tl rest)
      in if method \<noteq> [] \<and> rest \<noteq> [] \<and> hd rest = SP \<and> uri \<noteq> [] \<and> (v = [] \<or> http_version_part v)
         then Some (method, uri, drop 6 v) else None)"

lemma rx_chars_uri_authority: "rx_chars (\<lambda>c. c \<noteq> SP) uri_authority"
  by (auto simp: uri_authority_def DIGIT_def is_digit_def in_range_def eval_nat_numeral)

lemma nogroup_uri_authority: "rx_nogroup uri_authority"
  by (simp add: uri_authority_def eval_nat_numeral)

abbreviation uri_re :: rx where
  "uri_re \<equiv> RSeq (ropt uri_authority) (rplus (RCls (\<lambda>c. c \<noteq> SP)))"

abbreviation version_re :: rx where
  "version_re \<equiv> RSeq (rlit '' HTTP/'') (RGroup ''version'' (rseq [RCls DIGIT, rlit ''.'', RCls DIGIT]))"

declare rlit.simps [simp del]

lemma uri_re_sound:
  assumes "(cs', t) \<in> set (rmatch uri_re cs s)"
  shows "cs' = cs \<and> (\<exists>u. u \<noteq> [] \<and> SP \<notin> set u \<and> s = u @ t)"
proof -
  have "cs' = cs" using rmatch_nogroup [OF assms] nogroup_uri_authority by simp
  moreover from rmatch_chars [OF assms, of "\<lambda>c. c \<noteq> SP"] rx_chars_uri_authority obtain u where
    u: "s = u @ t" "\<forall>c \<in> set u. c \<noteq> SP" by auto
  moreover have "u \<noteq> []"
  proof -
    from assms obtain c1 s1 where 1: "(c1, s1) \<in> set (rmatch (ropt uri_authority) cs s)"
      "(cs', t) \<in> set (rmatch (rplus (RCls (\<lambda>c. c \<noteq> SP))) c1 s1)"
      by (rule rmatch_seqE)
    from rmatch_suffix [OF 1(1)] obtain w where w: "s = w @ s1" by blast
    from 1(2) obtain x where "x \<noteq> []" "s1 = x @ t" unfolding rmatch_plus_cls by blast
    with w u have "u = w @ x" by simp
    with \<open>x \<noteq> []\<close> show ?thesis by simp
  qed
  ultimately show ?thesis by blast
qed

lemma uri_re_complete:
  "u \<noteq> [] \<Longrightarrow> SP \<notin> set u \<Longrightarrow> (cs, t) \<in> set (rmatch uri_re cs (u @ t))"
  by (rule rmatch_seqI [of cs "u @ t"]) (auto simp: rmatch_basic rmatch_plus_cls simp del: rmatch_basic(4))

lemma version_re_iff:
  "(cs', []) \<in> set (rmatch version_re cs v) \<longleftrightarrow>
     http_version_part v \<and> cs' = (''version'', drop 6 v) # cs"
  (is "?L \<longleftrightarrow> ?R")
proof
  assume ?L
  then show ?R
    unfolding rseq.simps
    by (elim rmatch_seqE rmatch_groupE rmatch_clsE)
      (auto simp: rmatch_lit http_version_part_def DIGIT_def elim!: rmatch_clsE)
next
  assume ?R
  then obtain a b where v: "v = '' HTTP/'' @ [a, CHR ''.'', b]" "is_digit a" "is_digit b"
    "cs' = (''version'', [a, CHR ''.'', b]) # cs"
    by (auto simp: http_version_part_def)
  have "(cs, []) \<in> set (rmatch (rseq [RCls DIGIT, rlit ''.'', RCls DIGIT]) cs ([a, CHR ''.'', b] @ []))"
    using v by (simp add: rmatch_basic DIGIT_def rlit.simps)
  from rmatch_groupI [OF this, of "''version''"] v show ?L
    by (auto intro!: rmatch_seqI [of cs "[a, CHR ''.'', b]"] simp: rmatch_lit)
qed

lemma first_line_ways:
  "(cs, []) \<in> set (rmatch first_line_re [] s) \<longleftrightarrow>
    (\<exists>m u v. s = m @ SP # u @ v \<and> m \<noteq> [] \<and> (\<forall>c \<in> set m. TCHAR c) \<and> u \<noteq> [] \<and> SP \<notin> set u \<and>
      ((v = [] \<and> cs = [(''uri'', u), (''method'', m)]) \<or>
       (http_version_part v \<and> cs = [(''version'', drop 6 v), (''uri'', u), (''method'', m)])))"
  (is "?L \<longleftrightarrow> ?R")
proof
  assume ?L
  then obtain c1 s1 c2 s2 c3 s3 where
    1: "(c1, s1) \<in> set (rmatch (RGroup ''method'' (rplus (RCls TCHAR))) [] s)" and
    2: "(c2, s2) \<in> set (rmatch (rlit '' '') c1 s1)" and
    3: "(c3, s3) \<in> set (rmatch (RGroup ''uri'' uri_re) c2 s2)" and
    4: "(cs, []) \<in> set (rmatch (ropt version_re) c3 s3)"
    unfolding first_line_re_def rseq.simps by (elim rmatch_seqE [of _ _ "RGroup _ _"] rmatch_seqE [of _ _ "rlit _"])
  from 1 obtain m where m: "m \<noteq> []" "\<forall>c \<in> set m. TCHAR c" "s = m @ s1" "c1 = [(''method'', m)]"
    by (elim rmatch_groupE) (auto simp: rmatch_plus_cls)
  from 2 have s1: "s1 = SP # s2" "c2 = c1" by (auto simp: rmatch_lit)
  from 3 obtain u where u: "u \<noteq> []" "SP \<notin> set u" "s2 = u @ s3" "c3 = (''uri'', u) # c2"
    by (elim rmatch_groupE) (auto dest!: uri_re_sound)
  from 4 have "(s3 = [] \<and> cs = c3) \<or> (http_version_part s3 \<and> cs = (''version'', drop 6 s3) # c3)"
    using version_re_iff [of cs c3 s3] by (simp only: rmatch.simps(3,5)) auto
  with m s1 u show ?R by auto
next
  assume ?R
  then obtain m u v where s: "s = m @ SP # u @ v" and m: "m \<noteq> []" "\<forall>c \<in> set m. TCHAR c"
    and u: "u \<noteq> []" "SP \<notin> set u"
    and v: "(v = [] \<and> cs = [(''uri'', u), (''method'', m)]) \<or>
       (http_version_part v \<and> cs = [(''version'', drop 6 v), (''uri'', u), (''method'', m)])"
    by blast
  have 1: "([(''method'', m)], SP # u @ v) \<in> set (rmatch (RGroup ''method'' (rplus (RCls TCHAR))) [] (m @ SP # u @ v))"
    by (rule rmatch_groupI) (use m in \<open>auto simp: rmatch_plus_cls\<close>)
  have 2: "([(''method'', m)], u @ v) \<in> set (rmatch (rlit '' '') [(''method'', m)] (SP # u @ v))"
    by (simp add: rmatch_lit)
  have 3: "([(''uri'', u), (''method'', m)], v) \<in> set (rmatch (RGroup ''uri'' uri_re) [(''method'', m)] (u @ v))"
    by (rule rmatch_groupI) (rule uri_re_complete [OF u])
  have 4: "(cs, []) \<in> set (rmatch (ropt version_re) [(''uri'', u), (''method'', m)] v)"
    using v version_re_iff [of cs "[(''uri'', u), (''method'', m)]" v] by (simp only: rmatch.simps(3,5)) auto
  from rmatch_seqI [OF 1 rmatch_seqI [OF 2 rmatch_seqI [OF 3 4]]]
  show ?L unfolding first_line_re_def rseq.simps s .
qed

lemma request_line_spec_parts:
  assumes "m \<noteq> []" "\<forall>c \<in> set m. TCHAR c" "u \<noteq> []" "SP \<notin> set u" "v = [] \<or> http_version_part v"
  shows "request_line_spec (m @ SP # u @ v) = Some (m, u, drop 6 v)"
proof -
  have m: "takeWhile TCHAR (m @ SP # u @ v) = m" "dropWhile TCHAR (m @ SP # u @ v) = SP # u @ v"
    using assms(2) by (simp_all add: takeWhile_append dropWhile_append)
  have v: "v = [] \<or> hd v = SP" using assms(5) by (auto simp: http_version_part_def)
  have u: "takeWhile (\<lambda>c. c \<noteq> SP) (u @ v) = u" "dropWhile (\<lambda>c. c \<noteq> SP) (u @ v) = v"
    using assms(4) v by (cases v; auto simp: takeWhile_append dropWhile_append)+
  show ?thesis unfolding request_line_spec_def Let_def m list.sel u using assms by simp
qed

lemma request_line_spec_SomeD:
  assumes "request_line_spec s = Some (m, u, w)"
  shows "\<exists>v. s = m @ SP # u @ v \<and> m \<noteq> [] \<and> (\<forall>c \<in> set m. TCHAR c) \<and> u \<noteq> [] \<and> SP \<notin> set u \<and>
    (v = [] \<or> http_version_part v) \<and> w = drop 6 v"
proof -
  let ?rest = "dropWhile TCHAR s"
  from assms have a: "m = takeWhile TCHAR s" "?rest \<noteq> []" "hd ?rest = SP" "m \<noteq> []" "u \<noteq> []"
    "u = takeWhile (\<lambda>c. c \<noteq> SP) (tl ?rest)" "w = drop 6 (dropWhile (\<lambda>c. c \<noteq> SP) (tl ?rest))"
    "dropWhile (\<lambda>c. c \<noteq> SP) (tl ?rest) = [] \<or> http_version_part (dropWhile (\<lambda>c. c \<noteq> SP) (tl ?rest))"
    by (auto simp: request_line_spec_def Let_def split: if_splits)
  have "s = m @ ?rest" using a(1) by simp
  also have "?rest = SP # tl ?rest" using a(2,3) by (metis list.collapse)
  also have "tl ?rest = u @ dropWhile (\<lambda>c. c \<noteq> SP) (tl ?rest)" using a(6) by simp
  finally have s: "s = m @ SP # u @ dropWhile (\<lambda>c. c \<noteq> SP) (tl ?rest)" by simp
  have m: "\<forall>c \<in> set m. TCHAR c" using a(1) by (auto dest: set_takeWhileD)
  have u: "SP \<notin> set u" using a(6) by (auto dest: set_takeWhileD)
  show ?thesis by (rule exI, rule conjI [OF s]) (use m u a(4,5,7,8) in blast)
qed

text \<open>
  C36: the request line. Whatever way the regular expression backtracks, the line is accepted
  exactly when it is a token, one space, a target without a space and nothing or \<^verbatim>\<open> HTTP/d.d\<close>;
  the parts are these, a method that is not in upper case is refused, and every other line gives
  three empty strings.
\<close>

theorem crack_first_line_spec:
  "crack_first_line line =
     (case request_line_spec line of
        None \<Rightarrow> Inr ([], [], [])
      | Some (method, uri, version) \<Rightarrow>
          if method \<noteq> map byte_upper method
          then Inl (ParsingError (''Malformed HTTP method '' @ [QUOTE] @ method @ [QUOTE]))
          else Inr (method, uri, version))"
proof (cases "re_fullmatch first_line_re line")
  case None
  have "request_line_spec line = None"
  proof (rule ccontr)
    assume "request_line_spec line \<noteq> None"
    then obtain m u w where "request_line_spec line = Some (m, u, w)" by auto
    from request_line_spec_SomeD [OF this]
    have "\<exists>cs. (cs, []) \<in> set (rmatch first_line_re [] line)"
      unfolding first_line_ways by blast
    with None re_fullmatch_SomeI show False by fastforce
  qed
  with None show ?thesis by (simp add: crack_first_line_def)
next
  case (Some cs)
  from re_fullmatch_SomeD [OF this] obtain m u v where p: "line = m @ SP # u @ v" "m \<noteq> []"
    "\<forall>c \<in> set m. TCHAR c" "u \<noteq> []" "SP \<notin> set u" "v = [] \<or> http_version_part v"
    and cs: "(v = [] \<and> cs = [(''uri'', u), (''method'', m)]) \<or>
       (http_version_part v \<and> cs = [(''version'', drop 6 v), (''uri'', u), (''method'', m)])"
    unfolding first_line_ways by blast
  have "group_or_empty cs ''method'' = m" "group_or_empty cs ''uri'' = u"
    "group_or_empty cs ''version'' = drop 6 v"
    using cs by (auto simp: group_or_empty_def)
  with Some show ?thesis
    by (simp add: crack_first_line_def Let_def p(1) request_line_spec_parts [OF p(2-6)])
qed

subsection \<open>What the headers can hold\<close>

text \<open>
  A key of the dictionary: a token in upper case without dashes. A value: visible characters,
  obs-text, spaces and tabs; no carriage return, line feed, zero or other control character.
\<close>

definition key_char :: "char \<Rightarrow> bool" where
  "key_char c \<longleftrightarrow> TCHAR c \<and> c \<noteq> CHR ''-'' \<and> \<not> in_range 97 122 c"

definition value_char :: "char \<Rightarrow> bool" where
  "value_char c \<longleftrightarrow> FIELD_VCHAR c \<or> http_ws c"

definition headers_ok :: "dict \<Rightarrow> bool" where
  "headers_ok h \<longleftrightarrow> distinct (map fst h) \<and>
     list_all (\<lambda>(k, v). k \<noteq> [] \<and> list_all key_char k \<and> list_all value_char v) h"

lemma headers_ok_update [wf_rules]:
  "headers_ok h \<Longrightarrow> k \<noteq> [] \<Longrightarrow> list_all key_char k \<Longrightarrow> list_all value_char v \<Longrightarrow>
   headers_ok (dict_set k v h)"
  unfolding headers_ok_def
proof (induction h)
  case (Cons x h)
  then show ?case by (cases x) (auto simp: dom_update [unfolded dom_map_of_conv_image_fst])
qed simp

lemma headers_ok_delete [wf_rules]: "headers_ok h \<Longrightarrow> headers_ok (dict_del k h)"
  by (auto simp: headers_ok_def AList.delete_eq list_all_iff intro: distinct_map_filter)

lemma headers_ok_get: "headers_ok h \<Longrightarrow> dict_get h k = Some v \<Longrightarrow> list_all value_char v"
  by (auto simp: headers_ok_def list_all_iff dest: map_of_SomeD)

lemma headers_ok_Nil [simp]: "headers_ok []"
  by (simp add: headers_ok_def)

lemma byte_upper_key_char:
  "key_char CHR ''_''" "TCHAR c \<Longrightarrow> byte_upper c \<noteq> CHR ''-'' \<Longrightarrow> key_char (byte_upper c)"
proof -
  show "key_char CHR ''_''" by (simp add: key_char_def TCHAR_def in_range_def)
  assume c: "TCHAR c" "byte_upper c \<noteq> CHR ''-''"
  show "key_char (byte_upper c)"
  proof (cases "in_range 97 122 c")
    case True
    then have r: "in_range 65 90 (byte_upper c)" by (auto simp: byte_upper_def in_range_def)
    then have "TCHAR (byte_upper c)" by (simp add: TCHAR_def)
    moreover have "\<not> in_range 97 122 (byte_upper c)" using r by (auto simp: in_range_def)
    ultimately show ?thesis using c(2) by (simp add: key_char_def)
  next
    case False
    then have "byte_upper c = c" by (simp add: byte_upper_def)
    with c False show ?thesis by (simp add: key_char_def)
  qed
qed

lemma env_key_ok: "k \<noteq> [] \<Longrightarrow> \<forall>c \<in> set k. TCHAR c \<Longrightarrow> env_key k \<noteq> [] \<and> list_all key_char (env_key k)"
  by (auto simp: env_key_def list_all_iff byte_upper_key_char)

lemma header_match:
  assumes "re_match HEADER_FIELD_RE line = Some (m, t)"
  obtains n v where "group_or_empty m ''name'' = n" and "group_or_empty m ''value'' = v"
    and "n \<noteq> []" and "\<forall>c \<in> set n. TCHAR c" and "list_all value_char v"
proof -
  from re_match_SomeD [OF assms] obtain n v where
    "m = [(''value'', v), (''name'', n)]" "n \<noteq> []" "\<forall>c \<in> set n. TCHAR c" "field_value v"
    unfolding header_field_ways by blast
  then show thesis
    by (intro that [of n v]) (auto simp: group_or_empty_def field_value_def list_all_iff value_char_def)
qed

lemma value_char_strip: "list_all value_char v \<Longrightarrow> list_all value_char (strip p v)"
  using set_strip by (fastforce simp: list_all_iff)

lemma add_header_ok:
  assumes "add_header h line = Inr h'" and "headers_ok h"
  shows "headers_ok h'"
proof (cases "re_match HEADER_FIELD_RE line")
  case (Some x)
  then obtain m t where m: "re_match HEADER_FIELD_RE line = Some (m, t)" by (cases x) auto
  from header_match [OF m] obtain n v where
    g: "group_or_empty m ''name'' = n" "group_or_empty m ''value'' = v"
       "n \<noteq> []" "\<forall>c \<in> set n. TCHAR c" "list_all value_char v" .
  have sep: "list_all value_char '', ''" by (simp add: value_char_def FIELD_VCHAR_def VCHAR_def in_range_def)
  show ?thesis
    using assms m g env_key_ok [OF g(3,4)] value_char_strip [OF g(5), of http_ws] sep
      headers_ok_get [OF assms(2), of "env_key n"]
    by (auto simp: add_header_def Let_def intro!: headers_ok_update
        split: if_splits option.splits)
qed (use assms in \<open>simp add: add_header_def\<close>)

lemma add_headers_ok: "headers_ok h \<Longrightarrow> headers_ok (snd (add_headers h lines))"
  by (induction h lines rule: add_headers.induct) (auto split: sum.split dest: add_header_ok)

subsection \<open>How the body is framed\<close>

text \<open>
  The fields that only \<^verbatim>\<open>received\<close> sets; the parts of \<^verbatim>\<open>parse_header\<close> leave them alone.
\<close>

definition same_progress :: "parser \<Rightarrow> parser \<Rightarrow> bool" where
  "same_progress p q \<longleftrightarrow> p_completed q = p_completed p \<and> p_error q = p_error p \<and>
     p_header_plus q = p_header_plus p \<and> p_header_bytes_received q = p_header_bytes_received p \<and>
     p_body_bytes_received q = p_body_bytes_received p \<and> p_empty q = p_empty p \<and>
     p_headers_finished q = p_headers_finished p"

lemma same_progress_refl [simp]: "same_progress p p"
  by (simp add: same_progress_def)

lemma same_progress_trans: "same_progress p q \<Longrightarrow> same_progress q r \<Longrightarrow> same_progress p r"
  by (simp add: same_progress_def)

lemma ph_request_line_same:
  "ph_request_line adj l p = (e, q) \<Longrightarrow> same_progress p q \<and>
   p_headers q = p_headers p \<and> p_body_rcv q = p_body_rcv p \<and> p_chunked q = p_chunked p \<and>
   p_content_length q = p_content_length p"
  unfolding ph_request_line_def Let_def same_progress_def
  by (auto split: sum.split_asm prod.split_asm if_split_asm)

lemma ph_transfer_encoding_cases:
  assumes "ph_transfer_encoding adj p = (e, q)"
  shows "same_progress p q \<and> p_version q = p_version p \<and> p_content_length q = p_content_length p \<and>
    ((e \<noteq> None \<and> p_headers q = dict_del ''TRANSFER_ENCODING'' (p_headers p)) \<or>
     (e = None \<and> p_chunked q \<and>
      p_body_rcv q = Some (BChunked (cr_init (ob_init (adj_inbuf_overflow adj)))) \<and>
      p_headers q = dict_del ''CONTENT_LENGTH'' (dict_del ''TRANSFER_ENCODING'' (p_headers p)) \<and>
      te_encodings (dict_get_or (p_headers p) ''TRANSFER_ENCODING'' []) = [''chunked''] \<and>
      (dict_get (p_headers p) ''CONTENT_LENGTH'' \<noteq> None \<longrightarrow> p_connection_close q)) \<or>
     (e = None \<and> p_chunked q = p_chunked p \<and> p_body_rcv q = p_body_rcv p \<and>
      p_headers q = dict_del ''TRANSFER_ENCODING'' (p_headers p) \<and>
      te_encodings (dict_get_or (p_headers p) ''TRANSFER_ENCODING'' []) = []))"
proof -
  define es where "es = te_encodings (dict_get_or (p_headers p) ''TRANSFER_ENCODING'' [])"
  have one: "es = [''chunked'']"
    if "\<not> list_ex (\<lambda>e. e \<noteq> ''chunked'') es" "length (filter (\<lambda>e. e = ''chunked'') es) = 1"
  proof -
    have "filter (\<lambda>e. e = ''chunked'') es = es" using that(1) by (auto simp: list_ex_iff filter_id_conv)
    with that show ?thesis by (cases es) (auto simp: list_ex_iff)
  qed
  let ?p = "p\<lparr>p_headers := dict_del ''TRANSFER_ENCODING'' (p_headers p)\<rparr>"
  let ?q = "?p\<lparr>p_chunked := True,
      p_body_rcv := Some (BChunked (cr_init (ob_init (adj_inbuf_overflow adj)))),
      p_headers := dict_del ''CONTENT_LENGTH'' (p_headers ?p),
      p_connection_close := (p_connection_close p \<or> dict_get (p_headers p) ''CONTENT_LENGTH'' \<noteq> None)\<rparr>"
  have n: "dict_get (dict_del ''TRANSFER_ENCODING'' (p_headers p)) ''CONTENT_LENGTH''
      = dict_get (p_headers p) ''CONTENT_LENGTH''"
    by (simp add: AList.delete_conv')
  note d = ph_transfer_encoding_def Let_def es_def [symmetric]
  have "(e \<noteq> None \<and> q = ?p) \<or> (e = None \<and> es = [''chunked''] \<and> q = ?q) \<or> (e = None \<and> es = [] \<and> q = ?p)"
  proof (cases "list_ex (\<lambda>e. e \<noteq> ''chunked'') es")
    case True
    with assms have "e \<noteq> None \<and> q = ?p" unfolding d by auto
    then show ?thesis by blast
  next
    case bad: False
    show ?thesis
    proof (cases "es = []")
      case True
      with assms have "e = None \<and> q = ?p" unfolding d by auto
      with True show ?thesis by blast
    next
      case some: False
      show ?thesis
      proof (cases "length (filter (\<lambda>e. e = ''chunked'') es) = 1")
        case True
        with bad one have o: "es = [''chunked'']" by simp
        with assms n have "e = None \<and> q = ?q" unfolding d by auto
        with o show ?thesis by blast
      next
        case False
        with bad some assms have "e \<noteq> None \<and> q = ?p" unfolding d by (auto split: if_split_asm)
        then show ?thesis by blast
      qed
    qed
  qed
  then show ?thesis
  proof (elim disjE conjE)
    assume "e \<noteq> None" "q = ?p"
    then show ?thesis by (simp add: same_progress_def)
  next
    assume "e = None" "es = [''chunked'']" "q = ?q"
    then show ?thesis by (simp add: same_progress_def es_def [symmetric])
  next
    assume "e = None" "es = []" "q = ?p"
    then show ?thesis by (simp add: same_progress_def es_def [symmetric])
  qed
qed

text \<open>The result of \<^verbatim>\<open>parse_header\<close> for the length of the body, the two cases of RFC 9112.\<close>

definition chunked_framing :: "adjustments \<Rightarrow> parser \<Rightarrow> bool" where
  "chunked_framing adj p \<longleftrightarrow> p_chunked p \<and> p_version p = ''1.1'' \<and>
     p_body_rcv p = Some (BChunked (cr_init (ob_init (adj_inbuf_overflow adj)))) \<and>
     dict_get (p_headers p) ''CONTENT_LENGTH'' = None \<and>
     dict_get (p_headers p) ''TRANSFER_ENCODING'' = None \<and> p_content_length p = 0"

definition length_framing :: "adjustments \<Rightarrow> parser \<Rightarrow> bool" where
  "length_framing adj p \<longleftrightarrow> \<not> p_chunked p \<and> 0 \<le> p_content_length p \<and>
     p_body_rcv p =
       (if 0 < p_content_length p
        then Some (BFixed (fr_init (p_content_length p) (ob_init (adj_inbuf_overflow adj)))) else None) \<and>
     (case dict_get (p_headers p) ''CONTENT_LENGTH'' of
        None \<Rightarrow> p_content_length p = 0
      | Some v \<Rightarrow> v \<noteq> [] \<and> list_all is_digit v \<and> p_content_length p = int (from_base 10 v)) \<and>
     (p_version p = ''1.1'' \<longrightarrow> dict_get (p_headers p) ''TRANSFER_ENCODING'' = None)"

definition fresh_framing :: "parser \<Rightarrow> bool" where
  "fresh_framing p \<longleftrightarrow> \<not> p_chunked p \<and> p_body_rcv p = None \<and> p_content_length p = 0"

lemma ph_connection_cases:
  assumes "ph_connection adj p = (e, q)" and "fresh_framing p" and "headers_ok (p_headers p)"
  shows "same_progress p q \<and> headers_ok (p_headers q) \<and>
    (e = None \<longrightarrow> chunked_framing adj q \<or>
      (fresh_framing q \<and> p_version q = p_version p \<and>
       (p_version q = ''1.1'' \<longrightarrow> dict_get (p_headers q) ''TRANSFER_ENCODING'' = None)))"
proof -
  define conn where "conn = str_lower (dict_get_or (p_headers p) ''CONNECTION'' [])"
  define p1 where "p1 = (if p_version p = ''1.0'' \<and> conn \<noteq> ''keep-alive'' then p\<lparr>p_connection_close := True\<rparr> else p)"
  have p1: "same_progress p p1" "p_headers p1 = p_headers p" "fresh_framing p1" "p_version p1 = p_version p"
    using assms(2) by (auto simp: p1_def same_progress_def fresh_framing_def)
  show ?thesis
  proof (cases "p_version p1 = ''1.1''")
    case False
    then have "(e, q) = (None, p1)"
      using assms(1) by (simp add: ph_connection_def Let_def p1_def conn_def)
    with p1 False assms show ?thesis by simp
  next
    case True
    obtain e1 q1 where t: "ph_transfer_encoding adj p1 = (e1, q1)" by fastforce
    note tc = ph_transfer_encoding_cases [OF t]
    have hq: "headers_ok (p_headers q1)"
      using tc p1(2) assms(3) by (auto simp: headers_ok_delete)
    have sp: "same_progress p q1" using tc p1(1) same_progress_trans by blast
    have r: "(e, q) = and_then (e1, q1)
      (\<lambda>p. let p = p\<lparr>p_expect_continue := (str_lower (dict_get_or (p_headers p) ''EXPECT'' []) = ''100-continue'')\<rparr>
           in (None, if conn = ''close'' then p\<lparr>p_connection_close := True\<rparr> else p))"
      using assms(1) True t by (simp add: ph_connection_def Let_def p1_def [symmetric] conn_def [symmetric])
    show ?thesis
    proof (cases e1)
      case (Some x)
      with r hq sp show ?thesis by (simp add: and_then_def)
    next
      case None
      let ?x = "q1\<lparr>p_expect_continue := (str_lower (dict_get_or (p_headers q1) ''EXPECT'' []) = ''100-continue'')\<rparr>"
      have e: "e = None" and "q = (if conn = ''close'' then ?x\<lparr>p_connection_close := True\<rparr> else ?x)"
        using r None unfolding and_then_def Let_def by simp_all
      then have "q = ?x \<or> q = ?x\<lparr>p_connection_close := True\<rparr>" by presburger
      then have q: "same_progress q1 q" "p_headers q = p_headers q1"
        "p_chunked q = p_chunked q1" "p_body_rcv q = p_body_rcv q1" "p_version q = p_version q1"
        "p_content_length q = p_content_length q1"
        by (elim disjE; simp add: same_progress_def)+
      have "same_progress p q" using same_progress_trans [OF sp q(1)] .
      moreover have "chunked_framing adj q \<or> (fresh_framing q \<and> p_version q = p_version p \<and>
          dict_get (p_headers q) ''TRANSFER_ENCODING'' = None)"
      proof -
        have v: "p_version q1 = p_version p" "p_content_length q1 = 0" "p_version p = ''1.1''"
          using tc p1 True by (simp_all add: fresh_framing_def)
        from tc None have "(p_chunked q1 \<and>
            p_body_rcv q1 = Some (BChunked (cr_init (ob_init (adj_inbuf_overflow adj)))) \<and>
            p_headers q1 = dict_del ''CONTENT_LENGTH'' (dict_del ''TRANSFER_ENCODING'' (p_headers p1))) \<or>
          (p_chunked q1 = p_chunked p1 \<and> p_body_rcv q1 = p_body_rcv p1 \<and>
            p_headers q1 = dict_del ''TRANSFER_ENCODING'' (p_headers p1))"
          by blast
        then show ?thesis
        proof (elim disjE conjE)
          assume "p_chunked q1" "p_body_rcv q1 = Some (BChunked (cr_init (ob_init (adj_inbuf_overflow adj))))"
            "p_headers q1 = dict_del ''CONTENT_LENGTH'' (dict_del ''TRANSFER_ENCODING'' (p_headers p1))"
          then show ?thesis by (simp add: chunked_framing_def q v AList.delete_conv')
        next
          assume "p_chunked q1 = p_chunked p1" "p_body_rcv q1 = p_body_rcv p1"
            "p_headers q1 = dict_del ''TRANSFER_ENCODING'' (p_headers p1)"
          then show ?thesis using p1(3) by (simp add: fresh_framing_def q v AList.delete_conv')
        qed
      qed
      ultimately show ?thesis using e hq q(2) by auto
    qed
  qed
qed

lemma digits_no_ws: "list_all is_digit v \<Longrightarrow> strip str_ws v = v"
proof -
  assume d: "list_all is_digit v"
  have n: "\<not> str_ws c" if "is_digit c" for c
    using that by (auto simp: is_digit_def str_ws_def in_range_def)
  have "lstrip str_ws v = v" using d n by (intro lstrip_id) (cases v; auto)
  moreover have "rstrip str_ws v = v" using d n by (intro rstrip_id) (cases v rule: rev_cases; auto)
  ultimately show ?thesis by (simp add: strip_def)
qed

lemma only_digit_value:
  assumes "re_matches ONLY_DIGIT_RE v" and "list_all value_char v"
  shows "v \<noteq> [] \<and> list_all is_digit v"
proof -
  have "LF \<notin> set v"
    using assms(2) by (auto simp: list_all_iff value_char_def FIELD_VCHAR_def VCHAR_def OBS_TEXT_def in_range_def)
  with assms(1) show ?thesis by (auto simp: only_digit_iff list_all_iff)
qed

lemma ph_content_length_cases:
  assumes "ph_content_length adj p = (e, q)" and "headers_ok (p_headers p)"
    and "chunked_framing adj p \<or> (fresh_framing p \<and>
       (p_version p = ''1.1'' \<longrightarrow> dict_get (p_headers p) ''TRANSFER_ENCODING'' = None))"
  shows "same_progress p q \<and> p_headers q = p_headers p \<and>
    (e = None \<longrightarrow> chunked_framing adj q \<or> length_framing adj q)"
proof (cases "p_chunked p")
  case True
  with assms show ?thesis by (auto simp: ph_content_length_def fresh_framing_def)
next
  case False
  with assms(3) have f: "fresh_framing p"
    "p_version p = ''1.1'' \<longrightarrow> dict_get (p_headers p) ''TRANSFER_ENCODING'' = None"
    by (auto simp: chunked_framing_def)
  define cl where "cl = dict_get_or (p_headers p) ''CONTENT_LENGTH'' ''0''"
  have vc: "list_all value_char cl"
    using headers_ok_get [OF assms(2), of "''CONTENT_LENGTH''"]
    by (auto simp: cl_def dict_get_or_def value_char_def FIELD_VCHAR_def VCHAR_def in_range_def
        split: option.split)
  show ?thesis
  proof (cases "re_matches ONLY_DIGIT_RE cl")
    case m: False
    with assms(1) False show ?thesis by (auto simp: ph_content_length_def cl_def [symmetric])
  next
    case True
    from only_digit_value [OF True vc] have d: "cl \<noteq> []" "list_all is_digit cl" by simp_all
    then have s: "strip str_ws cl = cl" using digits_no_ws by simp
    have z: "from_base 10 ''0'' = 0" by (simp add: from_base_def digit_val_def in_range_def)
    show ?thesis
    proof (cases "4300 < length cl")
      case t: True
      with assms(1) False True s show ?thesis
        by (auto simp: ph_content_length_def py_int_digits_def cl_def [symmetric])
    next
      case t: False
      with assms(1) False True s
      have e: "e = None" and q: "q = (let n = int (from_base 10 cl); p = p\<lparr>p_content_length := n\<rparr> in
          if 0 < n then p\<lparr>p_body_rcv := Some (BFixed (fr_init n (ob_init (adj_inbuf_overflow adj))))\<rparr> else p)"
        by (simp_all add: ph_content_length_def py_int_digits_def Let_def cl_def [symmetric])
      have "same_progress p q \<and> p_headers q = p_headers p"
        by (simp add: q Let_def same_progress_def)
      moreover have "length_framing adj q"
        using f d z unfolding length_framing_def fresh_framing_def
        by (auto simp: q Let_def cl_def dict_get_or_def split: option.split)
      ultimately show ?thesis using e by simp
    qed
  qed
qed

lemma parse_header_cases:
  assumes "parse_header adj p hp = (e, q)" and "fresh_framing p" and "headers_ok (p_headers p)"
  shows "same_progress p q \<and> headers_ok (p_headers q) \<and>
    (e = None \<longrightarrow> chunked_framing adj q \<or> length_framing adj q)"
proof (cases "bfind CRLF hp")
  case None
  with assms show ?thesis by (auto simp: parse_header_def)
next
  case (Some i)
  define fl where "fl = rstrip byte_ws (take i hp)"
  show ?thesis
  proof (cases "CR \<in> set fl \<or> LF \<in> set fl")
    case True
    with assms Some show ?thesis by (auto simp: parse_header_def Let_def fl_def)
  next
    case nl: False
    let ?p = "p\<lparr>p_first_line := fl\<rparr>"
    have sp: "same_progress p (?p\<lparr>p_headers := h\<rparr>)" for h by (simp add: same_progress_def)
    show ?thesis
    proof (cases "get_header_lines (drop (i + 2) hp)")
      case (Inl x)
      with assms Some nl show ?thesis
        by (auto simp: parse_header_def Let_def fl_def [symmetric] same_progress_def)
    next
      case (Inr ls)
      obtain e1 h where ah: "add_headers (p_headers p) ls = (e1, h)" by fastforce
      have ho: "headers_ok h" using add_headers_ok [OF assms(3), of ls] ah by simp
      have r: "(e, q) = (case (e1, h) of (Some e, h) \<Rightarrow> (Some e, ?p\<lparr>p_headers := h\<rparr>)
          | (None, h) \<Rightarrow> and_then (ph_request_line adj fl (?p\<lparr>p_headers := h\<rparr>))
                (\<lambda>p. and_then (ph_connection adj p) (ph_content_length adj)))"
        using assms(1) Some nl Inr ah by (simp add: parse_header_def Let_def fl_def [symmetric])
      show ?thesis
      proof (cases e1)
        case (Some x)
        with r ho sp [of h] show ?thesis by simp
      next
        case None
        obtain e2 p2 where l: "ph_request_line adj fl (?p\<lparr>p_headers := h\<rparr>) = (e2, p2)" by fastforce
        note ls = ph_request_line_same [OF l]
        have p2: "fresh_framing p2" "headers_ok (p_headers p2)" "same_progress p p2"
          using ls assms(2) ho same_progress_trans [OF sp] by (auto simp: fresh_framing_def)
        obtain e3 p3 where c: "ph_connection adj p2 = (e3, p3)" by fastforce
        note cs = ph_connection_cases [OF c p2(1,2)]
        have sp3: "same_progress p p3" using p2(3) cs same_progress_trans by blast
        have r3: "(e, q) = and_then (and_then (e2, p2) (ph_connection adj)) (ph_content_length adj)"
          using r None l by (cases e2) (simp_all add: and_then_def)
        show ?thesis
        proof (cases "e2 = None \<and> e3 = None")
          case False
          then show ?thesis using r3 c cs p2 sp3
            by (cases e2; cases e3) (simp_all add: and_then_def)
        next
          case True
          then have "ph_content_length adj p3 = (e, q)" using r3 c by (simp add: and_then_def)
          note cl = ph_content_length_cases [OF this]
          from cl cs True have "same_progress p3 q" "headers_ok (p_headers q)"
            "e = None \<longrightarrow> chunked_framing adj q \<or> length_framing adj q" by auto
          then show ?thesis using same_progress_trans [OF sp3] by blast
        qed
      qed
    qed
  qed
qed

text \<open>
  C3: the length of a request body is never ambiguous. When the header of a request is accepted,
  either the body is chunked, for HTTP/1.1 only, and the headers that the application will see
  have neither a length nor a transfer coding; or it is not, and the body has the length of the
  one \<^verbatim>\<open>Content-Length\<close>, a string of digits (no body without it).
\<close>

theorem request_framing:
  assumes "parse_header adj parser_init header = (None, p)"
  shows "chunked_framing adj p \<or> length_framing adj p"
  using parse_header_cases [OF assms] by (simp add: parser_init_def fresh_framing_def)

theorem request_framing_witness:
  "\<exists>p. parse_header default_adjustments parser_init
      (''POST / HTTP/1.1'' @ CRLF @ ''Content-Length: 12'' @ CRLF @ CRLF) = (None, p) \<and>
    (chunked_framing default_adjustments p \<or> length_framing default_adjustments p)"
proof -
  let ?r = "parse_header default_adjustments parser_init
      (''POST / HTTP/1.1'' @ CRLF @ ''Content-Length: 12'' @ CRLF @ CRLF)"
  have "fst ?r = None" by code_simp
  then have "?r = (None, snd ?r)" by (metis prod.collapse)
  from request_framing [OF this] this show ?thesis by blast
qed

text \<open>
  C34: what a request can put into the dictionary of headers. Whether or not the header is
  accepted, every key is a non-empty token in upper case with no dash, every value consists of
  visible characters, obs-text, spaces and tabs, and no key occurs twice.
\<close>

theorem request_headers_safe:
  "headers_ok (p_headers (snd (parse_header adj parser_init header)))"
  using parse_header_cases [of adj parser_init header]
  by (cases "parse_header adj parser_init header") (simp add: parser_init_def fresh_framing_def)

subsection \<open>The life of a parser\<close>

fun body_ok :: "body_rcv \<Rightarrow> bool" where
  "body_ok (BFixed r) = fr_inv r"
| "body_ok (BChunked r) = cr_ok_inv r"

lemma br_received_bounds:
  assumes "body_ok br" and "br_received br s = (n, br')"
  shows "0 \<le> n \<and> n \<le> int (length s) \<and> body_ok br' \<and> (\<not> br_completed br' \<longrightarrow> n = int (length s))
    \<and> (\<not> br_completed br \<and> s \<noteq> [] \<longrightarrow> 0 < n)"
proof (cases br)
  case (BFixed r)
  obtain r' where r: "fr_received ob_append r s = (n, r')" "br' = BFixed r'"
    using assms(2) BFixed by (auto split: prod.splits)
  with assms BFixed fixed.consumed_bounds [of r s n r'] fixed.consumed_all [of r s n r']
    fixed.consumed_some [of r s] show ?thesis by auto
next
  case (BChunked r)
  obtain r' where r: "cr_received ob_append r s = (n, r')" "br' = BChunked r'"
    using assms(2) BChunked by (auto split: prod.splits)
  with assms BChunked chunked.consumed_bounds [of r s n r'] chunked.consumed_all [of r s n r']
    chunked.consumed_some [of r s] show ?thesis by auto
qed

text \<open>The bytes that a body of known length has and those it waits for add up to its length.\<close>

fun body_total :: "body_rcv \<Rightarrow> int" where
  "body_total (BFixed r) = fr_remain r + int (length (ob_content (fr_buf r)))"
| "body_total (BChunked r) = 0"

fun is_chunked :: "body_rcv \<Rightarrow> bool" where
  "is_chunked (BFixed r) = False"
| "is_chunked (BChunked r) = True"

lemma br_received_total:
  assumes "body_ok br" and "\<not> br_completed br" and "br_received br s = (n, br')"
  shows "is_chunked br' = is_chunked br \<and> body_total br' = body_total br \<and>
    (\<not> is_chunked br \<longrightarrow> br_completed br' \<longrightarrow> int (length (ob_content (br_getbuf br'))) = body_total br')"
  using assms
  by (cases br) (auto simp: fr_received_def fr_inv_def Let_def ob_append_ok py_take_def
      split: prod.splits if_splits)

lemma body_ok_wf: "body_ok br \<Longrightarrow> ob_wf (br_getbuf br)"
  by (cases br) (auto simp: fr_inv_def cr_ok_inv_def)

text \<open>
  What the server holds of a request whose body is still to come, and of one that is complete
  without an error.
\<close>

definition length_header_ok :: "parser \<Rightarrow> int \<Rightarrow> bool" where
  "length_header_ok p n \<longleftrightarrow>
     (case dict_get (p_headers p) ''CONTENT_LENGTH'' of
        None \<Rightarrow> n = 0
      | Some v \<Rightarrow> v \<noteq> [] \<and> list_all is_digit v \<and> n = int (from_base 10 v))"

definition in_header :: "adjustments \<Rightarrow> parser \<Rightarrow> bool" where
  "in_header adj p \<longleftrightarrow> fresh_framing p \<and> p_headers p = [] \<and>
     find_double_newline (p_header_plus p) = None \<and>
     p_header_bytes_received p = int (length (p_header_plus p)) \<and>
     (p_header_plus p = [] \<or> p_header_bytes_received p < adj_max_request_header_size adj) \<and>
     p_body_bytes_received p = 0 \<and> p_error p = None"

definition in_body :: "adjustments \<Rightarrow> parser \<Rightarrow> body_rcv \<Rightarrow> bool" where
  "in_body adj p br \<longleftrightarrow> p_body_rcv p = Some br \<and> body_ok br \<and> \<not> br_completed br \<and> br_error br = None \<and>
     p_error p = None \<and> is_chunked br = p_chunked p \<and>
     (p_body_bytes_received p = 0 \<or> p_body_bytes_received p < adj_max_request_body_size adj) \<and>
     (\<not> p_chunked p \<longrightarrow> length_header_ok p (body_total br))"

definition request_ready :: "parser \<Rightarrow> bool" where
  "request_ready p \<longleftrightarrow>
     (case p_body_rcv p of
        None \<Rightarrow> length_header_ok p 0
      | Some br \<Rightarrow> ob_wf (br_getbuf br) \<and> length_header_ok p (int (length (ob_content (br_getbuf br)))))"

definition parser_inv :: "adjustments \<Rightarrow> parser \<Rightarrow> bool" where
  "parser_inv adj p \<longleftrightarrow> headers_ok (p_headers p) \<and>
     (if \<not> p_completed p then in_header adj p \<or> (\<exists>br. in_body adj p br)
      else p_error p = None \<longrightarrow> p_empty p \<or> request_ready p)"

lemma parser_inv_init: "parser_inv adj parser_init"
  by (simp add: parser_inv_def in_header_def parser_init_def fresh_framing_def
      find_double_newline_def)

lemma is_digit_value_char: "list_all is_digit v \<Longrightarrow> list_all value_char v"
  by (auto simp: list_all_iff is_digit_def value_char_def FIELD_VCHAR_def VCHAR_def in_range_def)

lemma str_of_int_digits: "0 \<le> n \<Longrightarrow> str_of_int n \<noteq> [] \<and> list_all is_digit (str_of_int n)
    \<and> int (from_base 10 (str_of_int n)) = n"
  using str_of_nat_digit to_base_roundtrip [of 10]
  by (auto simp: str_of_int_def list_all_iff)

lemma received_body_inv:
  assumes "parser_inv adj p" and "in_body adj p br" and "\<not> p_completed p"
    and "received_body adj p br s = (n, q)"
  shows "parser_inv adj q \<and> 0 \<le> n \<and> n \<le> int (length s) \<and> (s \<noteq> [] \<longrightarrow> 0 < n) \<and>
    (\<not> p_completed q \<longrightarrow> n = int (length s))"
proof -
  have ok: "body_ok br" "headers_ok (p_headers p)"
    using assms(1,2) by (auto simp: parser_inv_def in_body_def)
  obtain br' where b: "br_received br s = (n, br')"
    using assms(4) by (auto simp: received_body_def Let_def split: prod.splits)
  note bb = br_received_bounds [OF ok(1) b]
  have nc: "\<not> br_completed br" using assms(2) by (simp add: in_body_def)
  note bt = br_received_total [OF ok(1) nc b]
  let ?p = "p\<lparr>p_body_rcv := Some br', p_body_bytes_received := p_body_bytes_received p + n\<rparr>"
  have q: "q = (if adj_max_request_body_size adj \<le> p_body_bytes_received ?p
      then ?p\<lparr>p_error := Some (too_large_body adj), p_completed := True\<rparr>
      else if br_error br' \<noteq> None then ?p\<lparr>p_error := br_error br', p_completed := True\<rparr>
      else if br_completed br'
      then if p_chunked p
           then ?p\<lparr>p_completed := True, p_headers := dict_set ''CONTENT_LENGTH'' (str_of_int (br_len br')) (p_headers p)\<rparr>
           else ?p\<lparr>p_completed := True\<rparr>
      else ?p)"
    using assms(4) [symmetric] unfolding received_body_def b Let_def prod.case
    by (simp cong: if_cong)
  have len: "br_len br' = int (length (ob_content (br_getbuf br')))"
    using body_ok_wf bb by (simp add: br_len_def ob_len_content)
  note d = str_of_int_digits [of "br_len br'"]
  have key: "list_all key_char ''CONTENT_LENGTH''"
    by (simp add: key_char_def TCHAR_def in_range_def)
  show ?thesis
  proof (cases "adj_max_request_body_size adj \<le> p_body_bytes_received ?p \<or> br_error br' \<noteq> None")
    case True
    then have "\<exists>e. q = ?p\<lparr>p_error := Some e, p_completed := True\<rparr>"
    proof (cases "adj_max_request_body_size adj \<le> p_body_bytes_received ?p")
      case True
      with q have "q = ?p\<lparr>p_error := Some (too_large_body adj), p_completed := True\<rparr>" by simp
      then show ?thesis by blast
    next
      case False
      with True obtain e where e: "br_error br' = Some e" by blast
      with q False have "q = ?p\<lparr>p_error := Some e, p_completed := True\<rparr>" by simp
      then show ?thesis by blast
    qed
    then obtain e where "q = ?p\<lparr>p_error := Some e, p_completed := True\<rparr>" ..
    then show ?thesis using bb nc ok by (simp add: parser_inv_def)
  next
    case f: False
    show ?thesis
    proof (cases "br_completed br'")
      case c: True
      show ?thesis
      proof (cases "p_chunked p")
        case True
        with q f c have "q = ?p\<lparr>p_completed := True,
            p_headers := dict_set ''CONTENT_LENGTH'' (str_of_int (br_len br')) (p_headers p)\<rparr>" by simp
        then show ?thesis
          using bb nc ok d len key headers_ok_update [OF ok(2), of "''CONTENT_LENGTH''" "str_of_int (br_len br')"]
            is_digit_value_char [of "str_of_int (br_len br')"]
          by (simp add: parser_inv_def request_ready_def length_header_ok_def update_conv' body_ok_wf)
      next
        case False
        with q f c have "q = ?p\<lparr>p_completed := True\<rparr>" by simp
        then show ?thesis using False bb bt nc c ok assms(2)
          by (simp add: parser_inv_def request_ready_def in_body_def length_header_ok_def body_ok_wf)
      qed
    next
      case False
      with q f have q': "q = ?p" by simp
      have "in_body adj q br'"
        using q' False f assms(2) bt bb by (simp add: in_body_def length_header_ok_def)
      then show ?thesis using q' bb nc ok False assms(3) by (auto simp: parser_inv_def)
    qed
  qed
qed

lemma header_parsed_inv:
  assumes "chunked_framing adj p \<or> length_framing adj p" and "headers_ok (p_headers p)"
    and "p_error p = None" and "p_body_bytes_received p = 0" and "\<not> p_completed p"
  shows "parser_inv adj ((header_parsed adj p)\<lparr>p_headers_finished := True\<rparr>)"
  using assms(1)
proof
  assume f: "chunked_framing adj p"
  then have "header_parsed adj p = p" by (simp add: header_parsed_def chunked_framing_def)
  moreover have "in_body adj (p\<lparr>p_headers_finished := True\<rparr>) (BChunked (cr_init (ob_init (adj_inbuf_overflow adj))))"
    using f assms by (simp add: in_body_def chunked_framing_def cr_ok_inv_def)
  ultimately show ?thesis using assms by (auto simp: parser_inv_def)
next
  assume f: "length_framing adj p"
  then have z: "0 \<le> p_content_length p" by (simp add: length_framing_def)
  show ?thesis
  proof (cases "p_content_length p = 0")
    case True
    with f have "header_parsed adj p = p\<lparr>p_completed := True\<rparr>" "p_body_rcv p = None"
      by (simp_all add: header_parsed_def length_framing_def)
    with f True assms show ?thesis
      by (simp add: parser_inv_def request_ready_def length_header_ok_def length_framing_def
          split: option.splits)
  next
    case False
    let ?b = "BFixed (fr_init (p_content_length p) (ob_init (adj_inbuf_overflow adj)))"
    from False z f have b: "p_body_rcv p = Some ?b" "0 < p_content_length p"
      by (simp_all add: length_framing_def)
    show ?thesis
    proof (cases "adj_max_request_body_size adj \<le> p_content_length p")
      case True
      with b assms show ?thesis by (simp add: header_parsed_def parser_inv_def)
    next
      case nm: False
      with b have "header_parsed adj p = p" by (simp add: header_parsed_def)
      moreover have "in_body adj (p\<lparr>p_headers_finished := True\<rparr>) ?b"
        using f b assms by (simp add: in_body_def length_framing_def length_header_ok_def fr_init_def
            fr_inv_def split: option.splits)
      ultimately show ?thesis using assms by (auto simp: parser_inv_def)
    qed
  qed
qed

lemma header_finished_inv:
  assumes "header_finished adj p h = (None, q)" and "fresh_framing p" "headers_ok (p_headers p)"
    and "p_error p = None" and "p_body_bytes_received p = 0" and "\<not> p_completed p"
  shows "parser_inv adj q \<and> p_headers_finished q"
proof (cases "lstrip byte_ws h = []")
  case True
  with assms show ?thesis by (auto simp: header_finished_def parser_inv_def)
next
  case False
  obtain e r where r: "parse_header adj p (lstrip byte_ws h) = (e, r)" by fastforce
  note c = parse_header_cases [OF r assms(2,3)]
  have q: "(None, q) = (case (e, r) of
      (None, p') \<Rightarrow> (None, (header_parsed adj p')\<lparr>p_headers_finished := True\<rparr>)
    | (Some (ParsingError msg), p') \<Rightarrow>
        (None, p'\<lparr>p_error := Some (BadRequest msg), p_completed := True, p_headers_finished := True\<rparr>)
    | (Some (TransferEncodingNotImplemented msg), p') \<Rightarrow>
        (None, p'\<lparr>p_error := Some (ServerNotImplemented msg), p_completed := True, p_headers_finished := True\<rparr>)
    | (Some e, p') \<Rightarrow> (Some e, p'))"
    using assms(1) False r by (simp add: header_finished_def)
  show ?thesis
  proof (cases e)
    case None
    with q have "q = (header_parsed adj r)\<lparr>p_headers_finished := True\<rparr>" by simp
    moreover have "parser_inv adj ((header_parsed adj r)\<lparr>p_headers_finished := True\<rparr>)"
      using c None assms(4-6) by (intro header_parsed_inv) (auto simp: same_progress_def)
    ultimately show ?thesis by simp
  next
    case (Some x)
    with q have "\<exists>y. q = r\<lparr>p_error := Some y, p_completed := True, p_headers_finished := True\<rparr>"
      by (cases x) auto
    with c show ?thesis by (auto simp: parser_inv_def)
  qed
qed

lemma received_header_inv:
  assumes "in_header adj p" and "\<not> p_completed p" and "received_header adj p s = (Inr n, q)"
  shows "parser_inv adj q \<and> 0 \<le> n \<and> n \<le> int (length s) \<and> (s \<noteq> [] \<longrightarrow> 0 < n) \<and>
    (\<not> p_completed q \<and> \<not> p_headers_finished q \<longrightarrow> n = int (length s))"
proof -
  let ?s = "p_header_plus p @ s"
  have h: "fresh_framing p" "p_headers p = []" "find_double_newline (p_header_plus p) = None"
    "p_header_bytes_received p = int (length (p_header_plus p))" "p_body_bytes_received p = 0"
    "p_error p = None"
    using assms(1) by (simp_all add: in_header_def)
  define b where "b = (case find_double_newline ?s of Some i \<Rightarrow> int i | None \<Rightarrow> int (length ?s))"
  define k where "k = b - int (length (p_header_plus p))"
  let ?p = "p\<lparr>p_header_bytes_received := b\<rparr>"
  have k: "0 \<le> k \<and> k \<le> int (length s) \<and> (s \<noteq> [] \<longrightarrow> 0 < k)"
    using fdn_append_None [OF h(3), of s] fdn_bounds [of ?s]
    by (auto simp: k_def b_def split: option.split)
  have r: "(Inr n, q) = (if adj_max_request_header_size adj \<le> b
         then (case parse_header adj ?p (''GET / HTTP/1.0'' @ CRLF) of
                 (Some e, p2) \<Rightarrow> (Inl e, p2)
               | (None, p2) \<Rightarrow> (Inr k, p2\<lparr>p_error := Some (too_large_header adj), p_completed := True\<rparr>))
         else (case find_double_newline ?s of
                 Some i \<Rightarrow> (case header_finished adj ?p (take i ?s) of
                              (Some e, p2) \<Rightarrow> (Inl e, p2)
                            | (None, p2) \<Rightarrow> (Inr k, p2))
               | None \<Rightarrow> (Inr k, ?p\<lparr>p_header_plus := ?s\<rparr>)))"
    using assms(3) [symmetric] h(4)
    by (cases "find_double_newline ?s") (simp_all add: received_header_def Let_def b_def k_def
        cong: if_cong prod.case_cong option.case_cong)
  have f: "fresh_framing ?p" "headers_ok (p_headers ?p)" using h by (simp_all add: fresh_framing_def)
  show ?thesis
  proof (cases "adj_max_request_header_size adj \<le> b")
    case True
    obtain e p2 where c: "parse_header adj ?p (''GET / HTTP/1.0'' @ CRLF) = (e, p2)" by fastforce
    from r True c have "e = None" "n = k"
      "q = p2\<lparr>p_error := Some (too_large_header adj), p_completed := True\<rparr>"
      by (auto split: option.splits)
    with parse_header_cases [OF c f] k show ?thesis by (simp add: parser_inv_def)
  next
    case nb: False
    show ?thesis
    proof (cases "find_double_newline ?s")
      case None
      with r nb have "n = k" "q = ?p\<lparr>p_header_plus := ?s\<rparr>" by simp_all
      with None h nb assms(2) k show ?thesis
        by (auto simp: parser_inv_def in_header_def fresh_framing_def b_def k_def)
    next
      case (Some i)
      obtain e p2 where c: "header_finished adj ?p (take i ?s) = (e, p2)" by fastforce
      from r nb Some c have e: "e = None" "n = k" "q = p2" by (auto split: option.splits)
      from header_finished_inv [OF _ f, of adj "take i ?s" q] c e h assms(2) k show ?thesis by simp
    qed
  qed
qed

lemma parser_received_inv:
  assumes "parser_inv adj p" and "parser_received adj p s = (Inr n, q)"
  shows "parser_inv adj q \<and> 0 \<le> n \<and> n \<le> int (length s) \<and> (\<not> p_completed p \<and> s \<noteq> [] \<longrightarrow> 0 < n)"
proof (cases "p_completed p")
  case True
  with assms show ?thesis by (simp add: parser_received_def)
next
  case False
  with assms(1) consider "in_header adj p" | br where "in_body adj p br"
    by (auto simp: parser_inv_def)
  then show ?thesis
  proof cases
    case 1
    then have "received_header adj p s = (Inr n, q)"
      using assms(2) False by (simp add: parser_received_def in_header_def fresh_framing_def)
    from received_header_inv [OF 1 False this] show ?thesis by simp
  next
    case 2
    then have "received_body adj p br s = (n, q)"
      using assms(2) False by (simp add: parser_received_def in_body_def split: prod.splits)
    from received_body_inv [OF assms(1) 2 False this] show ?thesis by simp
  qed
qed

text \<open>A parser under any sequence of calls, as long as none of them raises.\<close>

fun parser_feed :: "adjustments \<Rightarrow> parser \<Rightarrow> bytes list \<Rightarrow> exn option \<times> parser" where
  "parser_feed adj p [] = (None, p)"
| "parser_feed adj p (d # ds) =
     (case parser_received adj p d of
        (Inl e, q) \<Rightarrow> (Some e, q)
      | (Inr n, q) \<Rightarrow> parser_feed adj q ds)"

lemma parser_feed_inv: "parser_inv adj p \<Longrightarrow> parser_feed adj p ds = (None, q) \<Longrightarrow> parser_inv adj q"
proof (induction ds arbitrary: p)
  case (Cons d ds)
  then obtain n p' where r: "parser_received adj p d = (Inr n, p')" "parser_feed adj p' ds = (None, q)"
    by (auto split: prod.splits sum.splits)
  with parser_received_inv [OF Cons.prems(1) r(1)] Cons.IH show ?case by blast
qed simp

text \<open>
  C4: the request that is handed over is consistent. Whatever pieces a parser received, when it
  has completed a request without an error, the length of the body in its buffer is what the
  \<^verbatim>\<open>CONTENT_LENGTH\<close> among its headers says in digits, and it is empty without this header; this
  holds for chunked bodies too.
\<close>

theorem completed_request_consistent:
  assumes "parser_feed adj parser_init ds = (None, p)"
    and "p_completed p" and "p_error p = None" and "\<not> p_empty p"
  shows "let n = (case p_body_rcv p of None \<Rightarrow> 0 | Some br \<Rightarrow> int (length (ob_content (br_getbuf br))))
    in case dict_get (p_headers p) ''CONTENT_LENGTH'' of
         None \<Rightarrow> n = 0
       | Some v \<Rightarrow> list_all is_digit v \<and> n = int (from_base 10 v)"
  using parser_feed_inv [OF parser_inv_init assms(1)] assms(2-4)
  by (auto simp: parser_inv_def request_ready_def length_header_ok_def Let_def split: option.splits)

definition chunked_request :: "bytes list" where
  "chunked_request =
     [''POST / HTTP/1.1'' @ CRLF @ ''Transfer-Encoding: chunked'' @ CRLF @ CRLF,
      ''1'' @ CRLF @ ''x'', CRLF @ ''0'' @ CRLF @ CRLF]"

theorem completed_request_consistent_witness:
  "\<exists>p. parser_feed default_adjustments parser_init chunked_request = (None, p) \<and>
    dict_get (p_headers p) ''CONTENT_LENGTH'' = Some ''1'' \<and>
    (case p_body_rcv p of None \<Rightarrow> False | Some br \<Rightarrow> length (ob_content (br_getbuf br)) = 1)"
proof -
  let ?r = "parser_feed default_adjustments parser_init chunked_request"
  have "(case ?r of (e, p) \<Rightarrow> (e, p_completed p, p_error p, p_empty p,
      dict_get (p_headers p) ''CONTENT_LENGTH'', p_body_rcv p = None)) =
    (None, True, None, False, Some ''1'', False)"
    by code_simp
  then have f: "fst ?r = None" "p_completed (snd ?r)" "p_error (snd ?r) = None" "\<not> p_empty (snd ?r)"
    "dict_get (p_headers (snd ?r)) ''CONTENT_LENGTH'' = Some ''1''" "p_body_rcv (snd ?r) \<noteq> None"
    unfolding case_prod_beta prod.inject by blast+
  from f(1) have r: "?r = (None, snd ?r)" by (metis prod.collapse)
  have "int (from_base 10 ''1'') = 1" by (simp add: from_base_def digit_val_def in_range_def)
  with completed_request_consistent [OF r f(2-4)] f(5,6) r show ?thesis
    by (auto simp: Let_def split: option.splits)
qed

text \<open>
  The size of a header is limited. Whatever a parser received, as long as it waits for the
  end of the header it holds fewer bytes than \<^verbatim>\<open>max_request_header_size\<close> (or none), it has not
  overlooked the end of the header, and the body it has accepted so far was counted and is below
  \<^verbatim>\<open>max_request_body_size\<close>.
\<close>

theorem request_limits:
  assumes "parser_feed adj parser_init ds = (None, p)" and "\<not> p_completed p"
  shows "if p_body_rcv p = None
    then (p_header_plus p = [] \<or> int (length (p_header_plus p)) < adj_max_request_header_size adj)
         \<and> find_double_newline (p_header_plus p) = None
    else p_body_bytes_received p = 0 \<or> p_body_bytes_received p < adj_max_request_body_size adj"
  using parser_feed_inv [OF parser_inv_init assms(1)] assms(2)
  by (auto simp: parser_inv_def in_header_def in_body_def fresh_framing_def)

theorem request_limits_witness:
  "find_double_newline (p_header_plus (snd (parser_feed default_adjustments parser_init [''GET'', '' /'']))) = None"
proof -
  let ?r = "parser_feed default_adjustments parser_init [''GET'', '' /'']"
  have "(case ?r of (e, p) \<Rightarrow> (e, p_completed p, p_body_rcv p)) = (None, False, None)" by code_simp
  then have f: "fst ?r = None" "\<not> p_completed (snd ?r)" "p_body_rcv (snd ?r) = None"
    unfolding case_prod_beta prod.inject by blast+
  then have "?r = (None, snd ?r)" by (metis prod.collapse)
  from request_limits [OF this f(2)] f(3) show ?thesis by simp
qed

text \<open>
  C35: \<^verbatim>\<open>received\<close> consumes between 0 and all of its argument, and at least one byte unless the
  request is complete, in every state that a sequence of calls can reach; so the channel, which
  calls it again with what was left over, always gets on.
\<close>

theorem request_consumption:
  assumes "parser_feed adj parser_init ds = (None, p)" and "parser_received adj p s = (Inr n, q)"
  shows "0 \<le> n \<and> n \<le> int (length s) \<and> (\<not> p_completed p \<and> s \<noteq> [] \<longrightarrow> 0 < n)"
  using parser_received_inv [OF parser_feed_inv [OF parser_inv_init assms(1)] assms(2)] by simp

theorem request_consumption_witness:
  "\<exists>q. parser_received default_adjustments parser_init ''G'' = (Inr 1, q) \<and> (0 :: int) < 1"
proof -
  let ?r = "parser_received default_adjustments parser_init ''G''"
  have "fst ?r = Inr 1" by code_simp
  then have r: "?r = (Inr 1, snd ?r)" by (metis prod.collapse)
  from request_consumption [of default_adjustments "[]" parser_init, OF _ r] r show ?thesis
    by (auto simp: parser_init_def)
qed

subsection \<open>Lines and escapes\<close>

definition header_line_ok :: "bytes \<Rightarrow> bool" where
  "header_line_ok l \<longleftrightarrow> l \<noteq> [] \<and> CR \<notin> set l \<and> LF \<notin> set l \<and> \<not> http_ws (hd l)"

lemma header_lines_loop_spec:
  "header_lines_loop lines r = Inr r' \<Longrightarrow> list_all header_line_ok r \<Longrightarrow>
   concat r' = concat r @ concat lines \<and> list_all header_line_ok r'"
proof (induction lines r rule: header_lines_loop.induct)
  case (2 line lines r)
  show ?case
  proof (cases "line = []")
    case True
    with 2 show ?thesis by simp
  next
    case False
    with 2 have nl: "\<not> (CR \<in> set line \<or> LF \<in> set line)" by (auto split: if_splits)
    show ?thesis
    proof (cases "http_ws (hd line)")
      case True
      with 2 False nl have r: "r \<noteq> []" by (auto split: if_splits)
      then have b: "r = butlast r @ [last r]" by simp
      have "list_all header_line_ok (butlast r @ [last r @ line])"
      proof -
        have "list_all header_line_ok (butlast r)" "header_line_ok (last r)"
          using "2.prems"(2) r by (auto simp: list_all_iff dest: in_set_butlastD)
        then show ?thesis using nl by (simp add: header_line_ok_def)
      qed
      with 2(2) [OF False nl True r] "2.prems" False nl True r have
        "concat r' = concat (butlast r @ [last r @ line]) @ concat lines" "list_all header_line_ok r'"
        by simp_all
      moreover have "concat r = concat (butlast r) @ last r" by (subst b) simp
      ultimately show ?thesis by simp
    next
      case ws: False
      with 2(3) [OF False nl ws] "2.prems" False nl show ?thesis by (simp add: header_line_ok_def)
    qed
  qed
qed simp

text \<open>
  The lines of a header. When the header is accepted, no byte of it but the line ends is
  lost or added, in the order received; no resulting line is empty, holds a carriage return or a
  line feed, or starts with white space: every folded line was joined to the one it continues.
\<close>

theorem header_lines_faithful:
  assumes "get_header_lines header = Inr lines"
  shows "concat lines = concat (bsplit CRLF header) \<and> list_all header_line_ok lines"
  using header_lines_loop_spec [of "bsplit CRLF header" "[]" lines] assms by (simp add: get_header_lines_def)

theorem header_lines_faithful_witness:
  "list_all header_line_ok [''A: b c'', ''D: e'']"
proof -
  have "get_header_lines (''A: b'' @ CRLF @ '' c'' @ CRLF @ ''D: e'' @ CRLF) = Inr [''A: b c'', ''D: e'']"
    by code_simp
  from header_lines_faithful [OF this] show ?thesis by simp
qed

text \<open>The usual escaping of a path: what is not unreserved becomes two hexadecimal digits.\<close>

definition unreserved :: "char \<Rightarrow> bool" where
  "unreserved c \<longleftrightarrow> is_alpha c \<or> is_digit c \<or> c \<in> {CHR ''-'', CHR ''.'', CHR ''_'', CHR ''~'', CHR ''/''}"

definition pct_encode :: "bytes \<Rightarrow> bytes" where
  "pct_encode s = concat (map (\<lambda>c. if unreserved c then [c]
     else [CHR ''%'', digit_char (of_char c div 16), digit_char (of_char c mod 16)]) s)"

lemma unquote_skip: "c \<noteq> CHR ''%'' \<Longrightarrow> unquote_to_bytes (c # s) = c # unquote_to_bytes s"
  by (cases "c # s" rule: unquote_to_bytes.cases) simp_all

text \<open>
  The path that the application sees. Unquoting the escaped form of any byte string gives the
  byte string back, whatever bytes it holds.
\<close>

theorem unquote_pct_encode: "unquote_bytes_to_wsgi (pct_encode s) = s"
proof (induction s)
  case Nil
  then show ?case by (simp add: unquote_bytes_to_wsgi_def pct_encode_def)
next
  case (Cons c s)
  have p: "\<not> unreserved CHR ''%''" by (simp add: unreserved_def is_alpha_def is_digit_def in_range_def)
  show ?case
  proof (cases "unreserved c")
    case True
    with p have "c \<noteq> CHR ''%''" by auto
    with True Cons show ?thesis
      by (simp add: unquote_bytes_to_wsgi_def pct_encode_def unquote_skip)
  next
    case False
    have b: "(of_char c :: nat) < 256" by simp
    then have d: "of_char c div 16 < (16 :: nat)" "of_char c mod 16 < (16 :: nat)" by linarith+
    have "char_of (16 * digit_val (digit_char (of_char c div 16)) + digit_val (digit_char (of_char c mod 16))) = c"
      using d by (simp add: digit_val_char)
    with False Cons d show ?thesis
      by (simp add: unquote_bytes_to_wsgi_def pct_encode_def is_hexdig_digit_char)
  qed
qed

text \<open>
  A malformed target can escape the parser's error handling. A target with an opening bracket
  and no closing one makes \<^verbatim>\<open>urlsplit\<close> raise a \<^verbatim>\<open>ValueError\<close>, which is neither a
  \<^verbatim>\<open>UnicodeError\<close> nor a \<^verbatim>\<open>ParsingError\<close>: \<^verbatim>\<open>received\<close> raises, and the request neither completes nor
  has an error.
\<close>

theorem bad_ipv6_target_escapes:
  "let (r, p) = parser_received default_adjustments parser_init
      (''GET http://[::1 HTTP/1.1'' @ CRLF @ CRLF)
   in r = Inl (ValueError ''Invalid IPv6 URL'') \<and> \<not> p_completed p \<and> p_error p = None"
  by code_simp

subsection \<open>Progress\<close>

text \<open>
  What is needed for a parser to get on, whatever else happened to it (the channel resets
  \<open>completed\<close> when it asks for the body): the header has not ended yet, or the receiver is in order.
\<close>

definition progress_ok :: "parser \<Rightarrow> bool" where
  "progress_ok p \<longleftrightarrow>
     (case p_body_rcv p of None \<Rightarrow> find_double_newline (p_header_plus p) = None | Some br \<Rightarrow> body_ok br)"

definition body_step :: "parser \<Rightarrow> parser \<Rightarrow> bool" where
  "body_step p q \<longleftrightarrow> p_header_plus q = p_header_plus p \<and>
     (p_body_rcv q = p_body_rcv p \<or> (\<exists>br. p_body_rcv q = Some br \<and> body_ok br))"

lemma body_step_refl [simp]: "body_step p p"
  by (simp add: body_step_def)

lemma body_step_trans: "body_step p q \<Longrightarrow> body_step q r \<Longrightarrow> body_step p r"
  by (auto simp: body_step_def)

lemma body_step_progress: "body_step p q \<Longrightarrow> progress_ok p \<Longrightarrow> progress_ok q"
  by (auto simp: body_step_def progress_ok_def split: option.splits)

lemma te_body_step:
  assumes "ph_transfer_encoding adj p = (e, q)"
  shows "body_step p q"
proof -
  have "body_ok (BChunked (cr_init (ob_init (adj_inbuf_overflow adj))))" by (simp add: cr_ok_inv_def)
  then show ?thesis using assms
    by (auto simp: ph_transfer_encoding_def Let_def body_step_def split: if_splits)
qed

lemma connection_body_step:
  assumes "ph_connection adj p = (e, q)"
  shows "body_step p q"
proof -
  define conn where "conn = str_lower (dict_get_or (p_headers p) ''CONNECTION'' [])"
  define p1 where "p1 = (if p_version p = ''1.0'' \<and> conn \<noteq> ''keep-alive'' then p\<lparr>p_connection_close := True\<rparr> else p)"
  have p1: "body_step p p1" by (simp add: p1_def body_step_def)
  obtain e1 q1 where t: "ph_transfer_encoding adj p1 = (e1, q1)" by fastforce
  have "body_step p q1" using body_step_trans [OF p1 te_body_step [OF t]] .
  with p1 show ?thesis
    using assms t
    by (cases e1) (auto simp: ph_connection_def Let_def and_then_def p1_def [symmetric] conn_def [symmetric] body_step_def
      split: if_splits)
qed

lemma length_body_step:
  assumes "ph_content_length adj p = (e, q)"
  shows "body_step p q"
proof -
  have "body_ok (BFixed (fr_init n (ob_init (adj_inbuf_overflow adj))))" if "0 < n" for n
    using that by (simp add: fr_inv_def fr_init_def)
  then show ?thesis using assms
    by (auto simp: ph_content_length_def Let_def body_step_def split: if_splits sum.splits)
qed

lemma parse_header_body_step:
  assumes "parse_header adj p h = (e, q)"
  shows "body_step p q"
proof -
  have rl: "body_step a b" if "ph_request_line adj l a = (x, b)" for a b l x
    using ph_request_line_same [OF that] by (auto simp: body_step_def same_progress_def)
  have h: "body_step a (a\<lparr>p_first_line := l, p_headers := hs\<rparr>)" "body_step a (a\<lparr>p_first_line := l\<rparr>)" for a l hs
    by (simp_all add: body_step_def)
  show ?thesis using assms
    by (auto simp: parse_header_def Let_def and_then_def
      split: option.splits if_splits sum.splits prod.splits
      intro: h body_step_trans [OF h(1)]
      dest!: rl connection_body_step length_body_step elim: body_step_trans)
      (rule body_step_trans [OF body_step_trans [OF body_step_trans [OF h(1)]]], assumption+)
qed

lemma header_parsed_fields:
  "p_body_rcv (header_parsed adj p) = p_body_rcv p" "p_header_plus (header_parsed adj p) = p_header_plus p"
  by (simp_all add: header_parsed_def Let_def)

lemma header_finished_body_step:
  assumes "header_finished adj p h = (e, q)"
  shows "body_step p q"
proof (cases "lstrip byte_ws h = []")
  case True
  with assms show ?thesis by (auto simp: header_finished_def body_step_def)
next
  case False
  obtain x r where r: "parse_header adj p (lstrip byte_ws h) = (x, r)" by fastforce
  from parse_header_body_step [OF this] assms False r show ?thesis
    by (cases x) (auto simp: header_finished_def body_step_def header_parsed_fields split: exn.splits)
qed

lemma br_completed_stays:
  assumes "body_ok br" and "br_received br s = (n, br')"
  shows "br_completed br \<longrightarrow> br_completed br'"
  using assms by (cases br) (auto simp: fr_received_def cr_received_def fr_inv_def Let_def split: prod.splits if_splits)

lemma parser_received_progress:
  assumes "progress_ok p" and r: "parser_received adj p s = (Inr n, q)" and "\<not> p_completed p"
  shows "progress_ok q \<and> 0 \<le> n \<and> n \<le> int (length s) \<and> (s \<noteq> [] \<longrightarrow> 0 < n \<or>
    (p_completed q \<and> p_body_rcv p \<noteq> None \<and> p_expect_continue q = p_expect_continue p))"
proof (cases "p_body_rcv p")
  case (Some br)
  then have rb: "received_body adj p br s = (n, q)" using r assms(3)
    by (simp add: parser_received_def split: prod.splits)
  obtain br' where b: "br_received br s = (n, br')" using rb
    by (auto simp: received_body_def Let_def split: prod.splits)
  have ok: "body_ok br" using assms(1) Some by (simp add: progress_ok_def)
  note bb = br_received_bounds [OF ok b]
  have "p_body_rcv q = Some br' \<and> (br_completed br' \<longrightarrow> p_completed q) \<and> p_expect_continue q = p_expect_continue p"
    using rb [symmetric] b unfolding received_body_def by (simp add: Let_def cong: if_cong)
  moreover have "br_completed br \<longrightarrow> br_completed br'" using br_completed_stays [OF ok b] by simp
  ultimately show ?thesis using bb Some by (auto simp: progress_ok_def)
next
  case None
  let ?s = "p_header_plus p @ s"
  have nf: "find_double_newline (p_header_plus p) = None" using assms(1) None by (simp add: progress_ok_def)
  have rh: "received_header adj p s = (Inr n, q)" using r None assms(3) by (simp add: parser_received_def)
  define k where "k = (case find_double_newline ?s of Some i \<Rightarrow> int i - int (length (p_header_plus p)) | None \<Rightarrow> int (length s))"
  have k: "0 \<le> k \<and> k \<le> int (length s) \<and> (s \<noteq> [] \<longrightarrow> 0 < k)"
    using fdn_append_None [OF nf, of s] fdn_bounds [of ?s]
    by (auto simp: k_def split: option.split)
  have "n = k \<and> (body_step p q \<or> (find_double_newline ?s = None \<and> p_header_plus q = ?s \<and> p_body_rcv q = None))"
  proof (cases "adj_max_request_header_size adj \<le> p_header_bytes_received
        (case find_double_newline ?s of Some i \<Rightarrow> p\<lparr>p_header_bytes_received := int i\<rparr>
         | None \<Rightarrow> p\<lparr>p_header_bytes_received := p_header_bytes_received p + int (length s)\<rparr>)")
    case True
    then show ?thesis using rh
      by (cases "find_double_newline ?s")
        (auto simp: received_header_def Let_def k_def body_step_def split: option.splits prod.splits
          dest!: parse_header_body_step)
  next
    case False
    then show ?thesis using rh
      by (cases "find_double_newline ?s")
        (auto simp: received_header_def Let_def k_def body_step_def None split: option.splits prod.splits
          dest!: header_finished_body_step)
  qed
  with k body_step_progress [OF _ assms(1)] show ?thesis by (auto simp: progress_ok_def)
qed

text \<open>None of its exceptions is the value that stands for a loop without end.\<close>

lemma header_loop_exn: "header_lines_loop r ls = Inl e \<Longrightarrow> e \<noteq> Diverges"
  by (induction r ls rule: header_lines_loop.induct)
    (auto simp: bare_crlf_error_def malformed_line_error_def split: if_splits)

lemma split_uri_exn: "split_uri uri = Inl e \<Longrightarrow> e \<noteq> Diverges"
  by (auto simp: split_uri_def urlsplit_def Let_def split: if_splits sum.splits exn.splits prod.splits)

lemma crack_exn: "crack_first_line l = Inl e \<Longrightarrow> e \<noteq> Diverges"
  by (auto simp: crack_first_line_def Let_def split: if_splits option.splits prod.splits)

lemma add_headers_exn: "add_headers h ls = (Some e, h') \<Longrightarrow> e \<noteq> Diverges"
  by (induction h ls rule: add_headers.induct)
    (auto simp: add_header_def Let_def split: if_splits option.splits prod.splits sum.splits)

lemma ph_exn:
  "ph_request_line adj l p = (Some e, q) \<Longrightarrow> e \<noteq> Diverges"
  "ph_connection adj p = (Some e, q) \<Longrightarrow> e \<noteq> Diverges"
  "ph_content_length adj p = (Some e, q) \<Longrightarrow> e \<noteq> Diverges"
  by (auto simp: ph_request_line_def ph_connection_def ph_transfer_encoding_def ph_content_length_def py_int_digits_def
      Let_def and_then_def split: if_splits sum.splits prod.splits option.splits dest: split_uri_exn crack_exn)

lemma parse_header_exn: "parse_header adj p h = (Some e, q) \<Longrightarrow> e \<noteq> Diverges"
  by (auto simp: parse_header_def get_header_lines_def Let_def and_then_def
    split: if_splits sum.splits prod.splits option.splits
    dest: ph_exn add_headers_exn header_loop_exn)

lemma parser_received_exn: "parser_received adj p s = (Inl e, q) \<Longrightarrow> e \<noteq> Diverges"
  by (auto simp: parser_received_def received_header_def header_finished_def Let_def
    split: if_splits sum.splits prod.splits option.splits exn.splits dest: parse_header_exn)

end
