(* ===== verification/Task.thy ===== *)
theory Task
  imports Parser Http_Date "HOL-Library.List_Lexorder" "HOL-Library.Char_ord"
begin

text \<open>
  \<^verbatim>\<open>task.py\<close>: the tasks that answer a request. A task writes to its channel only through
  \<^verbatim>\<open>write_soon\<close>; the operations take that call as the argument \<open>ws\<close> and keep the channel's state in
  the task's field \<open>t_channel\<close>.

  The application is code that the server does not know. Here it is a tree of the calls it makes,
  with what it does next depending on whether the call raised: see \<open>app\<close> and \<open>gen\<close> below.

  Strings of the application are native strings of PEP 3333, with code points below 256.
\<close>

subsection \<open>Strings\<close>

text \<open>
  \<^verbatim>\<open>str.capitalize\<close>, but for the three characters of Latin-1 (the sharp s, the y with diaeresis and
  the micro sign) whose capital is not in Latin-1; these stay.
\<close>

definition str_upper_char :: "char \<Rightarrow> char" where
  "str_upper_char c =
     (if in_range 97 122 c \<or> (in_range 224 254 c \<and> (of_char c :: nat) \<noteq> 247)
      then char_of (of_char c - 32 :: nat) else c)"

definition capitalize :: "string \<Rightarrow> string" where
  "capitalize s = (case s of [] \<Rightarrow> [] | c # cs \<Rightarrow> str_upper_char c # str_lower cs)"

text \<open>\<^verbatim>\<open>"-".join([x.capitalize() for x in headername.split("-")])\<close>.\<close>

definition capitalize_header :: "string \<Rightarrow> string" where
  "capitalize_header s = bjoin ''-'' (map capitalize (bsplit ''-'' s))"

text \<open>\<^verbatim>\<open>int(s)\<close>: white space, a sign, digits with single underscores between them.\<close>

definition py_int :: "string \<Rightarrow> exn + int" where
  "py_int s0 =
     (let s = strip str_ws s0;
          (neg, d) = (case s of [] \<Rightarrow> (False, [])
                      | c # r \<Rightarrow> if c = CHR ''-'' then (True, r) else if c = CHR ''+'' then (False, r) else (False, s));
          parts = bsplit ''_'' d; digits = concat parts
      in if list_all (\<lambda>p. p \<noteq> [] \<and> list_all is_digit p) parts
         then if 4300 < length digits
              then Inl (ValueError ''Exceeds the limit (4300 digits) for integer string conversion'')
              else Inr (if neg then - int (from_base 10 digits) else int (from_base 10 digits))
         else Inl (ValueError ''invalid literal for int() with base 10''))"

subsection \<open>Tasks\<close>

text \<open>What is given to \<^verbatim>\<open>write_soon\<close>: bytes, or the file of a \<^verbatim>\<open>wsgi.file_wrapper\<close>.\<close>

datatype outdata = Data bytes | FileData rofbuf

type_synonym 'c write_soon = "'c \<Rightarrow> outdata \<Rightarrow> (exn + int) \<times> 'c"
type_synonym header = "string \<times> string"

record 'c task =
  t_close_on_finish :: bool
  t_status :: string
  t_wrote_header :: bool
  t_start_time :: nat
  t_content_length :: "int option"
  t_content_bytes_written :: int
  t_logged_write_excess :: bool
  t_logged_write_no_body :: bool
  t_complete :: bool
  t_chunked_response :: bool
  t_request :: parser
  t_response_headers :: "header list"
  t_version :: string
  t_channel :: 'c

text \<open>\<^verbatim>\<open>Task.__init__\<close>; the class attribute \<^verbatim>\<open>complete\<close> is true for an error task.\<close>

definition task_init :: "bool \<Rightarrow> 'c \<Rightarrow> parser \<Rightarrow> 'c task" where
  "task_init is_error channel request =
     \<lparr>t_close_on_finish = False, t_status = ''200 OK'', t_wrote_header = False, t_start_time = 0,
      t_content_length = None, t_content_bytes_written = 0, t_logged_write_excess = False,
      t_logged_write_no_body = False, t_complete = is_error, t_chunked_response = False,
      t_request = request, t_response_headers = [],
      t_version = (if p_version request \<in> {''1.0'', ''1.1''} then p_version request else ''1.0''),
      t_channel = channel\<rparr>"

definition has_body :: "'c task \<Rightarrow> bool" where
  "has_body t \<longleftrightarrow>
     \<not> (prefix ''1'' (t_status t) \<or> prefix ''204'' (t_status t) \<or> prefix ''304'' (t_status t))"

definition set_close_on_finish :: "'c task \<Rightarrow> 'c task" where
  "set_close_on_finish t =
     (let t1 = (if \<not> t_wrote_header t \<and> \<not> list_ex (\<lambda>(k, v). capitalize k = ''Connection'') (t_response_headers t)
                then t\<lparr>t_response_headers := t_response_headers t @ [(''Connection'', ''close'')]\<rparr> else t)
      in t1\<lparr>t_close_on_finish := True\<rparr>)"

subsection \<open>build_response_header\<close>

text \<open>
  The loop over the headers: the list with the names capitalized, and the last values of
  \<^verbatim>\<open>Content-Length\<close>, \<^verbatim>\<open>Date\<close> and \<^verbatim>\<open>Server\<close>.
\<close>

definition normalize_headers :: "bool \<Rightarrow> header list \<Rightarrow> header list" where
  "normalize_headers body hs =
     filter (\<lambda>(k, v). body \<or> k \<noteq> ''Content-Length'') (map (\<lambda>(k, v). (capitalize_header k, v)) hs)"

definition last_value :: "string \<Rightarrow> header list \<Rightarrow> string option" where
  "last_value k hs = map_of (rev hs) k"

text \<open>\<^verbatim>\<open>not x\<close> for a header that may be missing or empty.\<close>

definition falsy :: "string option \<Rightarrow> bool" where
  "falsy v \<longleftrightarrow> v = None \<or> v = Some []"

text \<open>The decision about the connection, the code from \<^verbatim>\<open>if version == "1.0"\<close> on.\<close>

definition add_response_headers :: "header list \<Rightarrow> 'c task \<Rightarrow> 'c task" where
  "add_response_headers hs t = t\<lparr>t_response_headers := t_response_headers t @ hs\<rparr>"

definition decide_connection :: "string option \<Rightarrow> 'c task \<Rightarrow> exn option \<times> 'c task" where
  "decide_connection cl t =
     (let connection = str_lower (dict_get_or (p_headers (t_request t)) ''CONNECTION'' [])
      in if t_version t = ''1.0''
         then if connection = ''keep-alive''
              then (None, if falsy cl then set_close_on_finish t
                          else add_response_headers [(''Connection'', ''Keep-Alive'')] t)
              else (None, set_close_on_finish t)
         else if t_version t = ''1.1''
         then let t = (if connection = ''close'' then set_close_on_finish t else t)
              in (None, if falsy cl
                        then let t = (if has_body t
                                      then (add_response_headers [(''Transfer-Encoding'', ''chunked'')] t)
                                             \<lparr>t_chunked_response := True\<rparr> else t)
                             in if \<not> t_close_on_finish t then set_close_on_finish t else t
                        else t)
         else (Some (AssertionError ''neither HTTP/1.0 or HTTP/1.1''), t))"

definition header_lines :: "header list \<Rightarrow> string list" where
  "header_lines hs = map (\<lambda>(k, v). k @ '': '' @ v) (sort_key fst hs)"

text \<open>The length that the task knows is declared, when the application did not.\<close>

definition declare_length :: "string option \<Rightarrow> 'c task \<Rightarrow> string option \<times> 'c task" where
  "declare_length cl t =
     (case (cl, t_content_length t) of
        (None, Some n) \<Rightarrow>
          if has_body t
          then (Some (str_of_int n), add_response_headers [(''Content-Length'', str_of_int n)] t)
          else (cl, t)
      | _ \<Rightarrow> (cl, t))"

definition add_server :: "string option \<Rightarrow> string option \<Rightarrow> 'c task \<Rightarrow> 'c task" where
  "add_server ident server_header t =
     (if falsy server_header
      then (if falsy ident then t else add_response_headers [(''Server'', the ident)] t)
      else add_response_headers [(''Via'', if falsy ident then ''waitress'' else the ident)] t)"

definition add_date :: "string option \<Rightarrow> 'c task \<Rightarrow> 'c task" where
  "add_date date_header t =
     (if falsy date_header
      then add_response_headers [(''Date'', build_http_date (t_start_time t))] t else t)"

definition response_lines :: "'c task \<Rightarrow> string list" where
  "response_lines t = (''HTTP/'' @ t_version t @ '' '' @ t_status t) # header_lines (t_response_headers t)"

definition head_of :: "'c task \<Rightarrow> bytes" where
  "head_of t = bjoin CRLF (response_lines t) @ CRLF2"

definition build_response_header :: "string option \<Rightarrow> 'c task \<Rightarrow> (exn + bytes) \<times> 'c task" where
  "build_response_header ident t0 =
     (let hs = normalize_headers (has_body t0) (t_response_headers t0);
          t1 = t0\<lparr>t_response_headers := hs\<rparr>;
          (cl, t2) = declare_length (last_value ''Content-Length'' hs) t1
      in case decide_connection cl t2 of
           (Some e, t3) \<Rightarrow> (Inl e, t3)
         | (None, t3) \<Rightarrow>
             let t4 = add_date (last_value ''Date'' hs) (add_server ident (last_value ''Server'' hs) t3)
             in (Inr (head_of t4), t4))"

definition remove_content_length_header :: "'c task \<Rightarrow> 'c task" where
  "remove_content_length_header t =
     t\<lparr>t_response_headers := filter (\<lambda>(k, v). str_lower k \<noteq> ''content-length'') (t_response_headers t)\<rparr>"

subsection \<open>write and finish\<close>

definition send :: "'c write_soon \<Rightarrow> outdata \<Rightarrow> 'c task \<Rightarrow> exn option \<times> 'c task" where
  "send ws d t =
     (case ws (t_channel t) d of
        (Inl e, c) \<Rightarrow> (Some e, t\<lparr>t_channel := c\<rparr>)
      | (Inr n, c) \<Rightarrow> (None, t\<lparr>t_channel := c\<rparr>))"

text \<open>\<^verbatim>\<open>write\<close>: the header once, before the first data.\<close>

definition write_header :: "'c write_soon \<Rightarrow> string option \<Rightarrow> 'c task \<Rightarrow> exn option \<times> 'c task" where
  "write_header ws ident t =
     (if t_wrote_header t then (None, t)
      else case build_response_header ident t of
             (Inl e, t1) \<Rightarrow> (Some e, t1)
           | (Inr rh, t1) \<Rightarrow> and_then (send ws (Data rh) t1) (\<lambda>t. (None, t\<lparr>t_wrote_header := True\<rparr>)))"

text \<open>What is sent for \<^verbatim>\<open>data\<close>, with the bookkeeping; \<^verbatim>\<open>data\<close> is not empty and has its place.\<close>

definition frame_data :: "bytes \<Rightarrow> 'c task \<Rightarrow> bytes \<times> 'c task" where
  "frame_data data t =
     (if t_chunked_response t then (hex_upper (length data) @ CRLF @ data @ CRLF, t)
      else case t_content_length t of
             None \<Rightarrow> (data, t)
           | Some cl \<Rightarrow>
               let towrite = py_take (cl - t_content_bytes_written t) data;
                   t1 = t\<lparr>t_content_bytes_written := t_content_bytes_written t + int (length towrite)\<rparr>
               in (towrite, if towrite \<noteq> data then t1\<lparr>t_logged_write_excess := True\<rparr> else t1))"

definition write_body :: "'c write_soon \<Rightarrow> bytes \<Rightarrow> 'c task \<Rightarrow> exn option \<times> 'c task" where
  "write_body ws data t =
     (if data = [] then (None, t)
      else if has_body t
      then let (towrite, t1) = frame_data data t
           in if towrite \<noteq> [] then send ws (Data towrite) t1 else (None, t1)
      else (None, t\<lparr>t_content_bytes_written := t_content_bytes_written t + int (length data),
                    t_logged_write_no_body := True\<rparr>))"

definition task_write ::
  "'c write_soon \<Rightarrow> string option \<Rightarrow> bytes \<Rightarrow> 'c task \<Rightarrow> exn option \<times> 'c task" where
  "task_write ws ident data t =
     (if \<not> t_complete t
      then (Some (RuntimeError ''start_response was not called before body written''), t)
      else and_then (write_header ws ident t) (write_body ws data))"

definition task_finish :: "'c write_soon \<Rightarrow> string option \<Rightarrow> 'c task \<Rightarrow> exn option \<times> 'c task" where
  "task_finish ws ident t =
     and_then (if t_wrote_header t then (None, t) else task_write ws ident [] t)
       (\<lambda>t. if t_chunked_response t then send ws (Data (''0'' @ CRLF2)) t else (None, t))"

text \<open>\<^verbatim>\<open>service\<close>: an \<^verbatim>\<open>OSError\<close> closes the connection and is raised again only to be logged.\<close>

definition task_service ::
  "'c write_soon \<Rightarrow> adjustments \<Rightarrow> nat \<Rightarrow> ('c task \<Rightarrow> exn option \<times> 'c task) \<Rightarrow> 'c task
     \<Rightarrow> exn option \<times> 'c task" where
  "task_service ws adj now execute t =
     (case and_then (execute (t\<lparr>t_start_time := now\<rparr>)) (task_finish ws (adj_ident adj)) of
        (Some OSError, t1) \<Rightarrow>
          (if adj_log_socket_errors adj then Some OSError else None, t1\<lparr>t_close_on_finish := True\<rparr>)
      | r \<Rightarrow> r)"

subsection \<open>ErrorTask\<close>

definition error_task_execute ::
  "'c write_soon \<Rightarrow> string option \<Rightarrow> 'c task \<Rightarrow> exn option \<times> 'c task" where
  "error_task_execute ws ident t =
     (case p_error (t_request t) of
        None \<Rightarrow> (Some (AppError ''AttributeError''), t)
      | Some e \<Rightarrow>
          let (status, headers, body) = to_response ident e;
              t1 = add_response_headers headers (t\<lparr>t_status := status\<rparr>);
              t2 = (set_close_on_finish t1)\<lparr>t_content_length := Some (int (length body))\<rparr>
          in task_write ws ident body t2)"

subsection \<open>The application\<close>

text \<open>An argument of \<^verbatim>\<open>start_response\<close>: a native string, or an object of another type.\<close>

datatype wsgi_val = WStr string | WOther

text \<open>
  What runs inside the server: calls of \<^verbatim>\<open>start_response\<close> (status, headers, the exception of
  \<^verbatim>\<open>exc_info\<close>) and of the function \<^verbatim>\<open>write\<close> that it returns, each followed by what the application
  does when the call returned (\<^const>\<open>None\<close>) or raised. An iterator \<open>gen\<close> yields its chunks and stops;
  the application \<open>app\<close> returns an iterable: the file wrapper, or an object that may have a length and
  a method \<^verbatim>\<open>close\<close>, which may raise.
\<close>

datatype gen =
    GStop
  | GRaise exn
  | GYield bytes gen
  | GStart wsgi_val "(wsgi_val \<times> wsgi_val) list" "exn option" "exn option \<Rightarrow> gen"
  | GWrite bytes "exn option \<Rightarrow> gen"

datatype app_iter =
    AFile rofbuf
  | AIter "int option" "exn option option" gen     \<comment> \<open>length, \<^verbatim>\<open>close\<close> and what it raises\<close>

datatype app =
    AReturn app_iter
  | ARaise exn
  | AStart wsgi_val "(wsgi_val \<times> wsgi_val) list" "exn option" "exn option \<Rightarrow> app"
  | AWrite bytes "exn option \<Rightarrow> app"

subsection \<open>start_response\<close>

definition hop_by_hop :: "string list" where
  "hop_by_hop = [''connection'', ''keep-alive'', ''proxy-authenticate'', ''proxy-authorization'', ''te'',
     ''trailer'', ''transfer-encoding'', ''upgrade'']"

definition has_newline :: "string \<Rightarrow> bool" where
  "has_newline s \<longleftrightarrow> LF \<in> set s \<or> CR \<in> set s"

text \<open>The loop over the headers: the checks, and the declared length of the content.\<close>

fun check_headers :: "(wsgi_val \<times> wsgi_val) list \<Rightarrow> 'c task \<Rightarrow> exn option \<times> 'c task" where
  "check_headers [] t = (None, t)"
| "check_headers ((WOther, _) # hs) t = (Some (AssertionError ''Header name is not a string''), t)"
| "check_headers ((WStr k, WOther) # hs) t = (Some (AssertionError ''Header value is not a string''), t)"
| "check_headers ((WStr k, WStr v) # hs) t =
     (if has_newline v
      then (Some (ValueError ''carriage return/line feed character present in header value''), t)
      else if has_newline k
      then (Some (ValueError ''carriage return/line feed character present in header name''), t)
      else let kl = str_lower k
           in if kl = ''content-length''
              then (case py_int v of
                      Inl e \<Rightarrow> (Some e, t)
                    | Inr n \<Rightarrow> check_headers hs (t\<lparr>t_content_length := Some n\<rparr>))
              else if kl \<in> set hop_by_hop
              then (Some (AssertionError
                (k @ '' is a hop-by-hop header; it cannot be used by a WSGI application (see PEP 3333)'')), t)
              else check_headers hs t)"

fun str_headers :: "(wsgi_val \<times> wsgi_val) list \<Rightarrow> header list" where
  "str_headers ((WStr k, WStr v) # hs) = (k, v) # str_headers hs"
| "str_headers (_ # hs) = str_headers hs"
| "str_headers [] = []"

definition start_response ::
  "wsgi_val \<Rightarrow> (wsgi_val \<times> wsgi_val) list \<Rightarrow> exn option \<Rightarrow> 'c task \<Rightarrow> exn option \<times> 'c task" where
  "start_response status headers exc_info t0 =
     (if t_complete t0 \<and> exc_info = None
      then (Some (AssertionError ''start_response called a second time without providing exc_info.''), t0)
      else and_then
        (case exc_info of
           None \<Rightarrow> (None, t0)
         | Some e \<Rightarrow> if t_wrote_header t0 then (Some e, t0) else (None, t0\<lparr>t_response_headers := []\<rparr>))
        (\<lambda>t0. let t = t0\<lparr>t_complete := True\<rparr>
              in case status of
                   WOther \<Rightarrow> (Some (AssertionError ''status is not a string''), t)
                 | WStr s \<Rightarrow>
                     if has_newline s
                     then (Some (ValueError ''carriage return/line feed character present in status''), t)
                     else and_then (check_headers headers (t\<lparr>t_status := s\<rparr>))
                            (\<lambda>t. (None, add_response_headers (str_headers headers) t))))"

subsection \<open>The environment\<close>

text \<open>What the task reads from its channel and server, and the application it calls.\<close>

datatype env_val =
    EStr string
  | ENone
  | EVersion nat nat
  | EBool bool
  | EInput pyfile
  | EErrors                 \<comment> \<open>\<^verbatim>\<open>sys.stderr\<close>\<close>
  | EFileWrapper            \<comment> \<open>the class \<^verbatim>\<open>ReadOnlyFileBasedBuffer\<close>\<close>
  | EClientDisconnected     \<comment> \<open>the method \<^verbatim>\<open>check_client_disconnected\<close>\<close>

type_synonym environ = "(string \<times> env_val) list"

record server_info =
  sv_adj :: adjustments
  sv_effective_port :: string
  sv_server_name :: string
  sv_addr_host :: string
  sv_addr_port :: "int option"
  sv_application :: "environ \<Rightarrow> app"

definition rename_headers :: dict where
  "rename_headers = [(''CONTENT_LENGTH'', ''CONTENT_LENGTH''), (''CONTENT_TYPE'', ''CONTENT_TYPE'')]"

definition str_of_opt :: "string option \<Rightarrow> env_val" where
  "str_of_opt s = (case s of None \<Rightarrow> ENone | Some x \<Rightarrow> EStr x)"

text \<open>\<^verbatim>\<open>SCRIPT_NAME\<close> is the prefix of the configuration; this is \<^verbatim>\<open>PATH_INFO\<close>.\<close>

definition path_info :: "string \<Rightarrow> string \<Rightarrow> string" where
  "path_info url_prefix path0 =
     (let path = (if prefix ''/'' path0 then ''/'' @ lstrip (\<lambda>c. c = CHR ''/'') path0 else path0)
      in if url_prefix = [] then path
         else if path = url_prefix then []
         else if prefix (url_prefix @ ''/'') path then drop (length url_prefix) path
         else path)"

definition base_environ :: "server_info \<Rightarrow> parser \<Rightarrow> string \<Rightarrow> pyfile \<Rightarrow> environ" where
  "base_environ sv request version stream =
     [(''REMOTE_ADDR'', EStr (sv_addr_host sv)),
      (''REMOTE_HOST'', EStr (sv_addr_host sv)),
      (''REMOTE_PORT'', EStr (case sv_addr_port sv of None \<Rightarrow> ''None'' | Some n \<Rightarrow> str_of_int n)),
      (''REQUEST_METHOD'', EStr (map byte_upper (p_command request))),
      (''SERVER_PORT'', EStr (sv_effective_port sv)),
      (''SERVER_NAME'', EStr (sv_server_name sv)),
      (''SERVER_SOFTWARE'', str_of_opt (adj_ident (sv_adj sv))),
      (''SERVER_PROTOCOL'', EStr (''HTTP/'' @ version)),
      (''SCRIPT_NAME'', EStr (adj_url_prefix (sv_adj sv))),
      (''PATH_INFO'', EStr (path_info (adj_url_prefix (sv_adj sv)) (p_path request))),
      (''REQUEST_URI'', EStr (p_request_uri request)),
      (''QUERY_STRING'', EStr (p_query request)),
      (''wsgi.url_scheme'', EStr (p_url_scheme request)),
      (''wsgi.version'', EVersion 1 0),
      (''wsgi.errors'', EErrors),
      (''wsgi.multithread'', EBool True),
      (''wsgi.multiprocess'', EBool False),
      (''wsgi.run_once'', EBool False),
      (''wsgi.input'', EInput stream),
      (''wsgi.file_wrapper'', EFileWrapper),
      (''wsgi.input_terminated'', EBool True)]"

definition environ_key :: "string \<Rightarrow> string" where
  "environ_key key = (case dict_get rename_headers key of None \<Rightarrow> ''HTTP_'' @ key | Some k \<Rightarrow> k)"

fun add_environ_headers :: "dict \<Rightarrow> environ \<Rightarrow> environ" where
  "add_environ_headers [] env = env"
| "add_environ_headers ((key, value) # hs) env =
     add_environ_headers hs
       (if map_of env (environ_key key) = None then AList.update (environ_key key) (EStr value) env else env)"

definition get_environment :: "server_info \<Rightarrow> 'c task \<Rightarrow> environ \<times> 'c task" where
  "get_environment sv t =
     (let (stream, request) = get_body_stream (t_request t);
          env = add_environ_headers (p_headers request) (base_environ sv request (t_version t) stream)
      in (AList.update ''waitress.client_disconnected'' EClientDisconnected env, t\<lparr>t_request := request\<rparr>))"

subsection \<open>WSGITask\<close>

text \<open>One chunk of the loop over \<^verbatim>\<open>app_iter\<close>; \<open>first\<close> says whether it is the first one.\<close>

definition take_chunk ::
  "'c write_soon \<Rightarrow> string option \<Rightarrow> int option \<Rightarrow> bool \<Rightarrow> bytes \<Rightarrow> 'c task \<Rightarrow> exn option \<times> 'c task" where
  "take_chunk ws ident len first chunk t0 =
     (let t = (if first \<and> t_content_length t0 = None \<and> len = Some 1
               then t0\<lparr>t_content_length := Some (int (length chunk))\<rparr> else t0)
      in if chunk \<noteq> [] then task_write ws ident chunk t else (None, t))"

primrec run_gen ::
  "gen \<Rightarrow> 'c write_soon \<Rightarrow> string option \<Rightarrow> int option \<Rightarrow> bool \<Rightarrow> 'c task \<Rightarrow> exn option \<times> 'c task" where
  "run_gen GStop ws ident len first t = (None, t)"
| "run_gen (GRaise e) ws ident len first t = (Some e, t)"
| "run_gen (GYield chunk g) ws ident len first t =
     and_then (take_chunk ws ident len first chunk t) (\<lambda>t. run_gen g ws ident len False t)"
| "run_gen (GStart s hs x k) ws ident len first t =
     (let (r, t') = start_response s hs x t in run_gen (k r) ws ident len first t')"
| "run_gen (GWrite d k) ws ident len first t =
     (let (r, t') = task_write ws ident d t in run_gen (k r) ws ident len first t')"

definition check_length :: "'c task \<Rightarrow> 'c task" where
  "check_length t =
     (case t_content_length t of
        None \<Rightarrow> t
      | Some cl \<Rightarrow> if t_content_bytes_written t \<noteq> cl \<and> p_command (t_request t) \<noteq> ''HEAD''
                   then set_close_on_finish t else t)"

definition run_iter ::
  "'c write_soon \<Rightarrow> string option \<Rightarrow> int option \<Rightarrow> gen \<Rightarrow> 'c task \<Rightarrow> exn option \<times> 'c task" where
  "run_iter ws ident len g t =
     and_then (run_gen g ws ident len True t) (\<lambda>t. (None, check_length t))"

text \<open>The file wrapper as an iterator, for a file that cannot be sized or is empty.\<close>

function file_gen :: "rofbuf \<Rightarrow> gen" where
  "file_gen b = (case ro_next b of None \<Rightarrow> GStop | Some (val, b') \<Rightarrow> GYield val (file_gen b'))"
  by pat_completeness auto
termination
  by (relation "measure (\<lambda>b. length (f_data (ro_file b)) - f_pos (ro_file b))")
    (auto simp: ro_next_def file_read_def Let_def split: if_splits prod.splits)

declare file_gen.simps [simp del]

definition serve_file ::
  "'c write_soon \<Rightarrow> string option \<Rightarrow> rofbuf \<Rightarrow> 'c task \<Rightarrow> exn option \<times> 'c task" where
  "serve_file ws ident f0 t =
     (let cl = t_content_length t; (size, f) = ro_prepare cl f0
      in if size \<noteq> 0
         then let t1 = (if cl \<noteq> Some size
                        then (if cl \<noteq> None then remove_content_length_header t else t)
                               \<lparr>t_content_length := Some size\<rparr>
                        else t)
              in and_then (task_write ws ident [] t1) (send ws (FileData f))
         else run_iter ws ident (Some 0) (file_gen f) t)"

text \<open>The clause \<^verbatim>\<open>finally\<close>: an exception of \<^verbatim>\<open>close\<close> replaces the result.\<close>

definition close_iter :: "exn option option \<Rightarrow> exn option \<times> 'c task \<Rightarrow> exn option \<times> 'c task" where
  "close_iter close r = (case close of Some (Some e) \<Rightarrow> (Some e, snd r) | _ \<Rightarrow> r)"

fun serve_iter ::
  "'c write_soon \<Rightarrow> string option \<Rightarrow> app_iter \<Rightarrow> 'c task \<Rightarrow> exn option \<times> 'c task" where
  "serve_iter ws ident (AFile f) t = serve_file ws ident f t"
| "serve_iter ws ident (AIter len close g) t = close_iter close (run_iter ws ident len g t)"

primrec run_app ::
  "app \<Rightarrow> 'c write_soon \<Rightarrow> string option \<Rightarrow> 'c task \<Rightarrow> exn option \<times> 'c task" where
  "run_app (AReturn it) ws ident t = serve_iter ws ident it t"
| "run_app (ARaise e) ws ident t = (Some e, t)"
| "run_app (AStart s hs x k) ws ident t =
     (let (r, t') = start_response s hs x t in run_app (k r) ws ident t')"
| "run_app (AWrite d k) ws ident t =
     (let (r, t') = task_write ws ident d t in run_app (k r) ws ident t')"

definition wsgi_task_execute ::
  "'c write_soon \<Rightarrow> server_info \<Rightarrow> 'c task \<Rightarrow> exn option \<times> 'c task" where
  "wsgi_task_execute ws sv t =
     (let (env, t1) = get_environment sv t
      in run_app (sv_application sv env) ws (adj_ident (sv_adj sv)) t1)"

end
