(* ===== verification/Http_Date_Parse.thy ===== *)
theory Http_Date_Parse
  imports Http_Date Regex Task
begin

text \<open>
  \<^verbatim>\<open>utilities.parse_http_date\<close>: the dates of RFC 822 and RFC 850, matched with the regular expressions of the
  code; it reads what \<^const>\<open>build_http_date\<close> writes. The groups have numbers for names.
\<close>

definition short_days :: "string list" where
  "short_days = [''sun'', ''mon'', ''tue'', ''wed'', ''thu'', ''fri'', ''sat'']"

definition long_days :: "string list" where
  "long_days = [''sunday'', ''monday'', ''tuesday'', ''wednesday'', ''thursday'', ''friday'', ''saturday'']"

definition months :: "string list" where
  "months = [''jan'', ''feb'', ''mar'', ''apr'', ''may'', ''jun'', ''jul'', ''aug'', ''sep'', ''oct'', ''nov'', ''dec'']"

definition monmap :: "(string \<times> nat) list" where
  "monmap = zip months [1..<13]"

text \<open>\<^verbatim>\<open>(a|b|...)\<close>\<close>

fun ralt :: "rx list \<Rightarrow> rx" where
  "ralt [] = RCls (\<lambda>c. False)"
| "ralt [r] = r"
| "ralt (r # rs) = RAlt r (ralt rs)"

definition names_reg :: "string \<Rightarrow> string list \<Rightarrow> rx" where
  "names_reg n xs = RGroup n (ralt (map rlit xs))"

abbreviation digit :: rx where "digit \<equiv> RCls is_digit"

definition two_reg :: "string \<Rightarrow> rx" where
  "two_reg n = RGroup n (RSeq digit digit)"

definition day_reg :: rx where
  "day_reg = RGroup ''2'' (RSeq digit (ropt digit))"

definition year_reg :: rx where
  "year_reg = RGroup ''4'' (rplus digit)"

text \<open>\<^verbatim>\<open>hms_reg\<close>, a space and \<^verbatim>\<open>gmt\<close>, with which both forms end.\<close>

definition time_reg :: rx where
  "time_reg = rseq [two_reg ''5'', rlit '':'', two_reg ''6'', rlit '':'', two_reg ''7'', rlit '' '', rlit ''gmt'']"

definition rfc822_reg :: rx where
  "rfc822_reg = rseq [names_reg ''1'' short_days, rlit '','', rlit '' '', day_reg, rlit '' '', names_reg ''3'' months,
     rlit '' '', year_reg, rlit '' '', time_reg]"

definition rfc850_reg :: rx where
  "rfc850_reg = rseq [names_reg ''1'' long_days, rlit '','', rlit '' '', day_reg, rlit ''-'', names_reg ''3'' months,
     rlit ''-'', year_reg, rlit '' '', time_reg]"

text \<open>\<^verbatim>\<open>int(g(i))\<close>, and the month of \<^verbatim>\<open>g(3)\<close>.\<close>

definition group_int :: "caps \<Rightarrow> string \<Rightarrow> exn + int" where
  "group_int m i = py_int (the (map_of m i))"

definition group_month :: "caps \<Rightarrow> nat" where
  "group_month m = the (map_of monmap (the (map_of m ''3'')))"

text \<open>
  \<^verbatim>\<open>calendar.timegm\<close> of a tuple: \<^verbatim>\<open>datetime.date\<close> wants a year from 1 to 9999, and the other fields are only
  added up.
\<close>

definition days_to_year :: "nat \<Rightarrow> int" where
  "days_to_year y =
     (if 1970 \<le> y then int (sum_list (map year_length [1970..<y])) else - int (sum_list (map year_length [y..<1970])))"

definition timegm_of :: "int \<Rightarrow> nat \<Rightarrow> int \<Rightarrow> int \<Rightarrow> int \<Rightarrow> int \<Rightarrow> exn + int" where
  "timegm_of y mo d h mi s =
     (if 1 \<le> y \<and> y \<le> 9999
      then Inr (((days_to_year (nat y) + int (sum_list (take (mo - 1) (month_lengths (nat y)))) + (d - 1)) * 24 + h) * 3600
                + mi * 60 + s)
      else Inl (ValueError ''year is out of range''))"

definition unpack :: "string \<Rightarrow> caps \<Rightarrow> exn + int" where
  "unpack year m =
     (case py_int year of Inl e \<Rightarrow> Inl e | Inr y \<Rightarrow>
     (case group_int m ''2'' of Inl e \<Rightarrow> Inl e | Inr d \<Rightarrow>
     (case group_int m ''5'' of Inl e \<Rightarrow> Inl e | Inr h \<Rightarrow>
     (case group_int m ''6'' of Inl e \<Rightarrow> Inl e | Inr mi \<Rightarrow>
     (case group_int m ''7'' of Inl e \<Rightarrow> Inl e | Inr s \<Rightarrow> timegm_of y (group_month m) d h mi s)))))"

definition unpack_rfc822 :: "caps \<Rightarrow> exn + int" where
  "unpack_rfc822 m = unpack (the (map_of m ''4'')) m"

definition unpack_rfc850 :: "caps \<Rightarrow> exn + int" where
  "unpack_rfc850 m =
     (let yr = the (map_of m ''4'') in unpack (if length yr = 2 then ''19'' @ yr else yr) m)"

definition parse_http_date :: "string \<Rightarrow> exn + int" where
  "parse_http_date d0 =
     (let d = str_lower d0
      in case re_match rfc850_reg d of
           Some (m, []) \<Rightarrow> unpack_rfc850 m
         | _ \<Rightarrow> (case re_match rfc822_reg d of Some (m, []) \<Rightarrow> unpack_rfc822 m | _ \<Rightarrow> Inr 0))"

subsection \<open>Matching\<close>

lemma rmatch_seq1: "rmatch a cs s = [(cs1, s1)] \<Longrightarrow> rmatch (RSeq a b) cs s = rmatch b cs1 s1"
  by (simp add: rmatch_basic)

lemma rmatch_seq_first:
  "rmatch a cs s = (cs1, s1) # ways \<Longrightarrow> (\<And>w. w \<in> set ways \<Longrightarrow> rmatch b (fst w) (snd w) = []) \<Longrightarrow>
     rmatch (RSeq a b) cs s = rmatch b cs1 s1"
  by (induction ways) (auto simp: rmatch_basic)

lemma rmatch_seq_none: "rmatch a cs s = [] \<Longrightarrow> rmatch (RSeq a b) cs s = []"
  by (simp add: rmatch_basic)

lemma rlit_match: "rmatch (rlit u) cs (u @ s) = [(cs, s)]"
  by (induction u) (simp_all add: rlit.simps rmatch_basic)

lemma rlit_no: "\<not> prefix u s \<Longrightarrow> rmatch (rlit u) cs s = []"
proof (induction u arbitrary: s)
  case (Cons c u)
  then show ?case by (cases s) (auto simp: rlit.simps rmatch_basic)
qed simp

lemma two_match:
  "is_digit a \<Longrightarrow> is_digit b \<Longrightarrow> rmatch (two_reg n) cs (a # b # s) = [((n, [a, b]) # cs, s)]"
  by (simp add: two_reg_def rmatch_basic)

lemma day_match:
  "is_digit a \<Longrightarrow> is_digit b \<Longrightarrow>
     rmatch day_reg cs (a # b # s) = [((''2'', [a, b]) # cs, s), ((''2'', [a]) # cs, b # s)]"
  by (simp add: day_reg_def rmatch_basic)

lemma star_more: "p c \<Longrightarrow> rmatch (RStar True (RCls p)) cs (c # s) = rmatch (RStar True (RCls p)) cs s @ [(cs, c # s)]"
  by (subst rmatch.simps) (simp add: rmatch_basic)

lemma star_stop: "\<not> p c \<Longrightarrow> rmatch (RStar True (RCls p)) cs (c # s) = [(cs, c # s)]"
  by (subst rmatch.simps) (simp add: rmatch_basic)

lemma year_match:
  assumes "is_digit a" "is_digit b" "is_digit c" "is_digit d"
  shows "rmatch year_reg cs (a # b # c # d # SP # s) =
    [((''4'', [a, b, c, d]) # cs, SP # s), ((''4'', [a, b, c]) # cs, d # SP # s),
     ((''4'', [a, b]) # cs, c # d # SP # s), ((''4'', [a]) # cs, b # c # d # SP # s)]"
proof -
  have "\<not> is_digit SP" by (simp add: is_digit_def in_range_def)
  then show ?thesis
    using assms by (simp add: year_reg_def rmatch.simps(1,2,4,7) star_more star_stop)
qed

lemma rmatch_never: "rmatch (RCls (\<lambda>c. False)) cs s = []"
  by (cases s) (simp_all add: rmatch_basic)

text \<open>A name of the list is matched by its own alternative only, as no name is a prefix of another.\<close>

lemma ralt_rlit:
  assumes "x \<in> set xs" "\<forall>y \<in> set xs. prefix y (x @ s) \<longrightarrow> y = x" "distinct xs"
  shows "rmatch (ralt (map rlit xs)) cs (x @ s) = [(cs, s)]"
  using assms
proof (induction xs rule: induct_list012)
  case (2 y)
  then show ?case by (simp add: rlit_match)
next
  case (3 y z zs)
  show ?case
  proof (cases "y = x")
    case True
    have none: "rmatch (ralt (map rlit ys)) cs (x @ s) = []" if "\<forall>y \<in> set ys. \<not> prefix y (x @ s)" for ys
      using that by (induction ys rule: induct_list012) (simp_all add: rmatch_basic rlit_no rmatch_never)
    have "\<forall>y \<in> set (z # zs). \<not> prefix y (x @ s)" using 3(4,5) True by auto
    then show ?thesis using True none [of "z # zs"] by (simp add: rmatch_basic rlit_match)
  next
    case False
    then have "\<not> prefix y (x @ s)" using 3(4) by auto
    then show ?thesis using 3 False by (simp add: rmatch_basic rlit_no)
  qed
qed simp

lemma ralt_none:
  "\<forall>y \<in> set xs. \<not> prefix y s \<Longrightarrow> rmatch (ralt (map rlit xs)) cs s = []"
  by (induction xs rule: induct_list012) (simp_all add: rmatch_basic rlit_no rmatch_never)

definition names_ok :: "nat \<Rightarrow> string list \<Rightarrow> bool" where
  "names_ok k xs \<longleftrightarrow> distinct xs \<and> list_all (\<lambda>x. length x = k) xs"

lemma names_match:
  assumes "names_ok k xs" "x \<in> set xs"
  shows "rmatch (names_reg n xs) cs (x @ s) = [((n, x) # cs, s)]"
proof -
  have "\<forall>y \<in> set xs. prefix y (x @ s) \<longrightarrow> y = x"
  proof (intro ballI impI)
    fix y
    assume "y \<in> set xs" "prefix y (x @ s)"
    with assms have "length y = length x" by (auto simp: names_ok_def list_all_iff)
    with \<open>prefix y (x @ s)\<close> show "y = x" by (simp add: prefix_iff_take)
  qed
  with assms have "rmatch (ralt (map rlit xs)) cs (x @ s) = [(cs, s)]"
    by (intro ralt_rlit) (auto simp: names_ok_def)
  then show ?thesis by (simp add: names_reg_def rmatch_basic)
qed

lemma names_none:
  "\<forall>y \<in> set xs. \<not> prefix y s \<Longrightarrow> rmatch (names_reg n xs) cs s = []"
  by (simp add: names_reg_def rmatch_basic ralt_none)

lemma lit_seq: "rmatch (RSeq (rlit u) b) cs (u @ s) = rmatch b cs s"
  by (rule rmatch_seq1) (rule rlit_match)

lemma lit_seq_no: "\<not> prefix u s \<Longrightarrow> rmatch (RSeq (rlit u) b) cs s = []"
  by (rule rmatch_seq_none) (rule rlit_no)

lemmas char_seq = lit_seq [of "[c]" for c, simplified]

lemma is_digit_special: "is_digit c \<Longrightarrow> c \<noteq> SP \<and> c \<noteq> CHR '':'' \<and> c \<noteq> CHR ''-''"
  by (auto simp: is_digit_def in_range_def)

lemma digit_seq_no: "is_digit c \<Longrightarrow> rmatch (RSeq (rlit [SP]) b) cs (c # s) = []"
  using is_digit_special [of c] by (intro lit_seq_no) auto

lemma time_match:
  assumes "is_digit h1" "is_digit h2" "is_digit m1" "is_digit m2" "is_digit s1" "is_digit s2"
  shows "rmatch time_reg cs (h1 # h2 # CHR '':'' # m1 # m2 # CHR '':'' # s1 # s2 # '' gmt'') =
    [((''7'', [s1, s2]) # (''6'', [m1, m2]) # (''5'', [h1, h2]) # cs, [])]"
  using assms
  by (simp add: time_reg_def rmatch_seq1 [OF two_match] char_seq)
    (simp add: rmatch_basic rlit.simps)

lemma short_days_ok: "names_ok 3 short_days" and months_ok: "names_ok 3 months"
  by code_simp+

lemma rfc822_match:
  assumes w: "w \<in> set short_days" and mo: "mo \<in> set months"
    and d: "is_digit d1" "is_digit d2" "is_digit y1" "is_digit y2" "is_digit y3" "is_digit y4"
      "is_digit h1" "is_digit h2" "is_digit m1" "is_digit m2" "is_digit s1" "is_digit s2"
  shows "rmatch rfc822_reg [] (w @ '', '' @ d1 # d2 # '' '' @ mo @ '' '' @ y1 # y2 # y3 # y4 # '' '' @
      h1 # h2 # CHR '':'' # m1 # m2 # CHR '':'' # s1 # s2 # '' gmt'') =
    [([(''7'', [s1, s2]), (''6'', [m1, m2]), (''5'', [h1, h2]), (''4'', [y1, y2, y3, y4]), (''3'', mo), (''2'', [d1, d2]), (''1'', w)], [])]"
proof -
  let ?time = "h1 # h2 # CHR '':'' # m1 # m2 # CHR '':'' # s1 # s2 # '' gmt''"
  let ?year = "y1 # y2 # y3 # y4 # SP # ?time"
  have year: "rmatch (RSeq year_reg (RSeq (rlit '' '') time_reg)) cs ?year =
      rmatch time_reg ((''4'', [y1, y2, y3, y4]) # cs) ?time" for cs
    using d by (subst rmatch_seq_first [OF year_match]) (auto simp: digit_seq_no char_seq)
  have day: "rmatch (RSeq day_reg (RSeq (rlit '' '') b)) cs (d1 # d2 # SP # s) = rmatch b ((''2'', [d1, d2]) # cs) s" for b cs s
    using d by (subst rmatch_seq_first [OF day_match]) (auto simp: digit_seq_no char_seq)
  show ?thesis
    using d by (simp add: rfc822_reg_def rmatch_seq1 [OF names_match [OF short_days_ok w]]
        rmatch_seq1 [OF names_match [OF months_ok mo]] char_seq day year time_match)
qed

lemma rfc850_no:
  assumes "w \<in> set short_days"
  shows "rmatch rfc850_reg [] (w @ '','' @ s) = []"
proof -
  have "list_all (\<lambda>w. list_all (\<lambda>y. take 4 y \<noteq> w @ '','' \<and> 4 \<le> length y \<and> length w = 3) long_days) short_days"
    by code_simp
  with assms have l: "\<forall>y \<in> set long_days. take 4 y \<noteq> w @ '','' \<and> 4 \<le> length y \<and> length w = 3"
    by (auto simp: list_all_iff)
  have "\<forall>y \<in> set long_days. \<not> prefix y (w @ '','' @ s)"
  proof (intro ballI notI)
    fix y
    assume y: "y \<in> set long_days" "prefix y (w @ '','' @ s)"
    with l have "length (w @ '','') = 4" "4 \<le> length y" by auto
    obtain u where "w @ '','' @ s = y @ u" using y(2) by (auto simp: prefix_def)
    then have "take 4 (w @ '','' @ s) = take 4 (y @ u)" by simp
    moreover have "take 4 (w @ '','' @ s) = w @ '',''" "take 4 (y @ u) = take 4 y"
      using \<open>length (w @ '','') = 4\<close> \<open>4 \<le> length y\<close> by simp_all
    ultimately have "take 4 y = w @ '',''" by simp
    with l y(1) show False by blast
  qed
  then show ?thesis unfolding rfc850_reg_def rseq.simps by (intro rmatch_seq_none names_none)
qed

subsection \<open>The numbers\<close>

lemma py_int_digits:
  assumes "list_all is_digit s" "s \<noteq> []" "length s \<le> 4300"
  shows "py_int s = Inr (int (from_base 10 s))"
proof -
  have n: "\<not> str_ws c \<and> c \<noteq> CHR ''_'' \<and> c \<noteq> CHR ''-'' \<and> c \<noteq> CHR ''+''" if "is_digit c" for c
    using that by (auto simp: is_digit_def str_ws_def in_range_def)
  have l: "lstrip str_ws s = s" using assms(1) n by (intro lstrip_id) (cases s; auto)
  have "rstrip str_ws s = s" using assms(1) n by (intro rstrip_id) (cases s rule: rev_cases; auto)
  with l have st: "strip str_ws s = s" by (simp add: strip_def)
  have "bfind ''_'' s = None" using assms(1) n by (auto simp: list_all_iff)
  then have sp: "bsplit ''_'' s = [s]" by (simp only: bsplit.simps [of "''_''" s] option.case)
  obtain c r where c: "s = c # r" using assms(2) by (cases s) auto
  with assms(1) n have "c \<noteq> CHR ''-''" "c \<noteq> CHR ''+''" by auto
  with assms st sp c show ?thesis by (simp add: py_int_def)
qed

abbreviation dc :: "nat \<Rightarrow> char" where "dc \<equiv> digit_char"

lemma two_digits: "n < 100 \<Longrightarrow> pad (CHR ''0'') 2 n = [dc (n div 10), dc (n mod 10)]"
proof (cases "n < 10")
  case True
  then have "n div 10 = 0" "n mod 10 = n" by simp_all
  moreover have "dc 0 = CHR ''0''" by code_simp
  ultimately show ?thesis using True by (simp add: pad_def to_base.simps [of 10 n])
next
  case False
  assume "n < 100"
  then have "to_base 10 (n div 10) = [dc (n div 10)]" by (subst to_base.simps) simp
  with False show ?thesis by (simp add: pad_def to_base.simps [of 10 n])
qed

lemma four_digits:
  assumes "1000 \<le> n" "n < 10000"
  shows "pad SP 4 n = [dc (n div 1000), dc (n div 100 mod 10), dc (n div 10 mod 10), dc (n mod 10)]"
proof -
  have "to_base 10 (n div 1000) = [dc (n div 1000)]" using assms by (subst to_base.simps) simp
  moreover have "n div 10 div 10 div 10 = n div 1000" "n div 10 div 10 = n div 100" by (simp_all add: div_mult2_eq [symmetric])
  moreover have "to_base 10 (n div 100) = to_base 10 (n div 100 div 10) @ [dc (n div 100 mod 10)]"
    using assms by (subst to_base.simps) simp
  moreover have "to_base 10 (n div 10) = to_base 10 (n div 10 div 10) @ [dc (n div 10 mod 10)]"
    using assms by (subst to_base.simps) simp
  moreover have "to_base 10 n = to_base 10 (n div 10) @ [dc (n mod 10)]"
    using assms by (subst to_base.simps) simp
  ultimately show ?thesis by (simp add: pad_def div_mult2_eq [symmetric])
qed

lemma two_value: "n < 100 \<Longrightarrow> py_int [dc (n div 10), dc (n mod 10)] = Inr (int n)"
  by (subst py_int_digits) (simp_all add: is_digit_digit_char from_base_def digit_val_char)

lemma four_value:
  assumes "n < 10000"
  shows "py_int [dc (n div 1000), dc (n div 100 mod 10), dc (n div 10 mod 10), dc (n mod 10)] = Inr (int n)"
proof -
  have q: "n div 10 div 10 div 10 = n div 1000" "n div 10 div 10 = n div 100" by (simp_all add: div_mult2_eq [symmetric])
  have "n div 1000 < 10" using assms by (simp add: less_mult_imp_div_less)
  then have "from_base 10 [dc (n div 1000), dc (n div 100 mod 10), dc (n div 10 mod 10), dc (n mod 10)] =
      10 * (10 * (10 * (n div 1000) + n div 100 mod 10) + n div 10 mod 10) + n mod 10"
    by (simp add: from_base_def digit_val_char)
  also have "10 * (n div 1000) + n div 100 mod 10 = n div 100" unfolding q(2) [symmetric] q(1) [symmetric] by (rule mult_div_mod_eq)
  also have "10 * (n div 100) + n div 10 mod 10 = n div 10" unfolding q(2) [symmetric] by (rule mult_div_mod_eq)
  also have "10 * (n div 10) + n mod 10 = n" by (rule mult_div_mod_eq)
  finally show ?thesis using \<open>n div 1000 < 10\<close> by (subst py_int_digits) (simp_all add: is_digit_digit_char)
qed

subsection \<open>The round trip\<close>

lemma lower_digit: "is_digit c \<Longrightarrow> str_lower_char c = c"
  by (auto simp: str_lower_char_def is_digit_def in_range_def)

lemma lower_weekday: "i < 7 \<Longrightarrow> str_lower (weekdayname ! i) \<in> set short_days"
proof -
  have "list_all (\<lambda>w. str_lower w \<in> set short_days) weekdayname" by code_simp
  then show "i < 7 \<Longrightarrow> ?thesis" by (simp add: list_all_length weekdayname_def)
qed

lemma lower_month: "1 \<le> i \<Longrightarrow> i \<le> 12 \<Longrightarrow> str_lower (monthname ! i) \<in> set months \<and> map_of monmap (str_lower (monthname ! i)) = Some i"
proof -
  assume i: "1 \<le> i" "i \<le> 12"
  have "list_all (\<lambda>i. str_lower (monthname ! i) \<in> set months \<and> map_of monmap (str_lower (monthname ! i)) = Some i) [1..<13]"
    by code_simp
  then have "\<forall>j \<in> set [1..<13]. str_lower (monthname ! j) \<in> set months \<and> map_of monmap (str_lower (monthname ! j)) = Some j"
    unfolding list_all_iff .
  moreover have "i \<in> set [1..<13]" using i by simp
  ultimately show ?thesis by blast
qed

lemma timegm_of_gmtime:
  assumes "1970 \<le> tm_year t" "tm_year t \<le> 9999" "1 \<le> tm_mday t"
  shows "timegm_of (int (tm_year t)) (tm_mon t) (int (tm_mday t)) (int (tm_hour t)) (int (tm_min t)) (int (tm_sec t)) =
    Inr (int (timegm t))"
  using assms by (simp add: timegm_of_def timegm_def days_to_year_def of_nat_diff)

lemma gmtime_year: "1970 \<le> tm_year (gmtime when)"
proof -
  obtain y yd where y: "find_year 1970 (when div 86400) = (y, yd)" by fastforce
  then show ?thesis using find_year_ok [OF y] by (simp add: gmtime_def Let_def split: prod.split)
qed

lemma month_length_max: "1 \<le> i \<Longrightarrow> i \<le> 12 \<Longrightarrow> month_lengths y ! (i - 1) \<le> 31"
proof -
  assume i: "1 \<le> i" "i \<le> 12"
  have "list_all (\<lambda>l. l \<le> 31) (month_lengths y)" by (simp add: month_lengths_def)
  moreover have "i - 1 < length (month_lengths y)" using i by (simp add: month_lengths_def)
  ultimately show ?thesis by (simp add: list_all_length)
qed

text \<open>
  C39: the \<^verbatim>\<open>Date\<close> header can be read back. \<^verbatim>\<open>parse_http_date\<close> gives for what \<^verbatim>\<open>build_http_date\<close> wrote, through the
  calendar, the fixed form, the lower case, the two regular expressions and the calendar back, the number of
  seconds since 1970 that it was written for, as long as the year has four digits.
\<close>

theorem http_date_roundtrip:
  assumes "tm_year (gmtime when) \<le> 9999"
  shows "parse_http_date (build_http_date when) = Inr (int when)"
proof -
  let ?t = "gmtime when"
  note g = gmtime_correct [of "when", unfolded Let_def]
  have year: "1000 \<le> tm_year ?t" "tm_year ?t < 10000" using gmtime_year [of "when"] assms by simp_all
  have day: "tm_mday ?t < 100" using g month_length_max [of "tm_mon ?t" "tm_year ?t"] by linarith
  have hms: "tm_hour ?t < 100" "tm_min ?t < 100" "tm_sec ?t < 100" using g by simp_all
  define w where "w = str_lower (weekdayname ! tm_wday ?t)"
  define mo where "mo = str_lower (monthname ! tm_mon ?t)"
  have w: "w \<in> set short_days" unfolding w_def using g lower_weekday by blast
  have mo: "mo \<in> set months" "map_of monmap mo = Some (tm_mon ?t)" unfolding mo_def using g lower_month by auto
  let ?two = "\<lambda>n. [dc (n div 10), dc (n mod 10)]"
  let ?year = "[dc (tm_year ?t div 1000), dc (tm_year ?t div 100 mod 10), dc (tm_year ?t div 10 mod 10), dc (tm_year ?t mod 10)]"
  have dig: "is_digit (dc (n div 10))" "is_digit (dc (n mod 10))" if "n < 100" for n
    using that by (simp_all add: is_digit_digit_char less_mult_imp_div_less)
  have ydig: "is_digit (dc (tm_year ?t div 1000))" using year by (simp add: is_digit_digit_char less_mult_imp_div_less)
  have mdig: "is_digit (dc (n mod 10))" for n by (simp add: is_digit_digit_char)
  let ?d = "w @ '', '' @ dc (tm_mday ?t div 10) # dc (tm_mday ?t mod 10) # '' '' @ mo @ '' '' @
    dc (tm_year ?t div 1000) # dc (tm_year ?t div 100 mod 10) # dc (tm_year ?t div 10 mod 10) # dc (tm_year ?t mod 10) # '' '' @
    dc (tm_hour ?t div 10) # dc (tm_hour ?t mod 10) # CHR '':'' # dc (tm_min ?t div 10) # dc (tm_min ?t mod 10) # CHR '':'' #
    dc (tm_sec ?t div 10) # dc (tm_sec ?t mod 10) # '' gmt''"
  have low: "str_lower_char SP = SP" "str_lower_char CHR '','' = CHR '',''" "str_lower_char CHR '':'' = CHR '':''"
    "str_lower_char CHR ''G'' = CHR ''g''" "str_lower_char CHR ''M'' = CHR ''m''" "str_lower_char CHR ''T'' = CHR ''t''"
    by code_simp+
  have "str_lower (build_http_date when) = ?d"
    using day hms year dig ydig mdig
    by (simp add: build_http_date_def Let_def two_digits four_digits str_lower_def low lower_digit w_def mo_def)
  moreover have "re_match rfc850_reg ?d = None"
    using rfc850_no [OF w, of "SP # drop (length w + 2) ?d"] by (simp add: re_match_def)
  moreover have "re_match rfc822_reg ?d =
    Some ([(''7'', ?two (tm_sec ?t)), (''6'', ?two (tm_min ?t)), (''5'', ?two (tm_hour ?t)), (''4'', ?year), (''3'', mo),
       (''2'', ?two (tm_mday ?t)), (''1'', w)], [])"
    using rfc822_match [OF w mo(1), OF dig [OF day] ydig mdig mdig mdig dig [OF hms(1)] dig [OF hms(2)] dig [OF hms(3)]]
    by (simp add: re_match_def)
  ultimately have "parse_http_date (build_http_date when) =
      timegm_of (int (tm_year ?t)) (tm_mon ?t) (int (tm_mday ?t)) (int (tm_hour ?t)) (int (tm_min ?t)) (int (tm_sec ?t))"
    using two_value [OF day] two_value [OF hms(1)] two_value [OF hms(2)] two_value [OF hms(3)] four_value [OF year(2)] mo(2)
    by (simp add: parse_http_date_def Let_def unpack_rfc822_def unpack_def group_int_def group_month_def)
  also have "\<dots> = Inr (int (timegm ?t))" using gmtime_year assms g by (intro timegm_of_gmtime) auto
  also have "timegm ?t = when" using g by simp
  finally show ?thesis .
qed

theorem http_date_roundtrip_witness:
  "tm_year (gmtime 1000000) = 1970 \<and> parse_http_date (build_http_date 1000000) = Inr 1000000"
proof -
  have y: "tm_year (gmtime 1000000) = 1970"
    by (simp add: gmtime_def Let_def find_year.simps [of 1970] year_length_def leap_year_def split: prod.split)
  with http_date_roundtrip [of 1000000] show ?thesis by simp
qed

end
