(* ===== verification/Response.thy ===== *)
theory Response
  imports Task
begin

text \<open>
  What a task sends, whatever the application does. The first part is about the header block:
  what \<^verbatim>\<open>start_response\<close> lets through, what \<^verbatim>\<open>build_response_header\<close> makes of it. The second part is
  the locale \<open>channel_writer\<close>, which says what a task needs to know of its channel's \<^verbatim>\<open>write_soon\<close>,
  and the invariant that every operation of a task keeps over such a channel.
\<close>

subsection \<open>Names of headers\<close>

lemma str_lower_upper: "str_lower_char (str_upper_char c) = str_lower_char c"
  by (auto simp: str_lower_char_def str_upper_char_def in_range_def)

lemma str_lower_idem: "str_lower_char (str_lower_char c) = str_lower_char c"
  by (auto simp: str_lower_char_def in_range_def)

lemma str_upper_lower: "str_upper_char (str_lower_char c) = str_upper_char c"
  by (auto simp: str_lower_char_def str_upper_char_def in_range_def)

lemma char_of_eq: "char_of (n :: nat) = c \<longleftrightarrow> n mod 256 = of_char c"
proof
  assume "n mod 256 = of_char c"
  then have "char_of (n mod 256) = char_of (of_char c :: nat)" by simp
  then show "char_of n = c" by simp
qed auto

lemma str_lower_char_other:
  "of_char d < (65 :: nat) \<Longrightarrow> str_lower_char c = d \<longleftrightarrow> c = d"
  by (auto simp: str_lower_char_def in_range_def char_of_eq)

lemma str_lower_dash: "str_lower_char c = CHR ''-'' \<longleftrightarrow> c = CHR ''-''"
  by (rule str_lower_char_other) simp

lemma bfind_map:
  assumes "\<And>c. f c = d \<longleftrightarrow> c = d"
  shows "bfind [d] (map f s) = bfind [d] s"
  by (induction s) (auto simp: assms, (metis assms)+)

lemma bsplit_map:
  assumes "\<And>c. f c = d \<longleftrightarrow> c = d"
  shows "bsplit [d] (map f s) = map (map f) (bsplit [d] s)"
proof (induction "length s" arbitrary: s rule: less_induct)
  case less
  show ?case
  proof (cases "bfind [d] s")
    case None
    then show ?thesis by (simp add: bsplit.simps [of "[d]"] bfind_map [OF assms] del: bfind_single_None)
  next
    case (Some i)
    then have "i + 1 \<le> length s" using bfind_le [of "[d]" s i] by simp
    with less [of "drop (i + 1) s"] Some show ?thesis
      by (simp add: bsplit.simps [of "[d]" s] bsplit.simps [of "[d]" "map f s"] bfind_map [OF assms]
        take_map drop_map)
  qed
qed

lemma bjoin_map: "map f (bjoin sep xs) = bjoin (map f sep) (map (map f) xs)"
  by (induction sep xs rule: bjoin.induct) simp_all

lemma str_lower_map: "str_lower = map str_lower_char"
  by (rule ext) (simp add: str_lower_def)

lemma str_lower_capitalize: "str_lower (capitalize s) = str_lower s"
  by (cases s) (simp_all add: str_lower_def capitalize_def str_lower_upper str_lower_idem)

lemma capitalize_lower: "capitalize (str_lower s) = capitalize s"
  by (cases s) (simp_all add: str_lower_def capitalize_def str_upper_lower str_lower_idem)

lemma str_lower_capitalize_header: "str_lower (capitalize_header s) = str_lower s"
proof -
  have j: "str_lower (bjoin ''-'' xs) = bjoin ''-'' (map str_lower xs)" for xs
    using str_lower_dash [of "CHR ''-''"] by (simp add: str_lower_map bjoin_map)
  have "str_lower (capitalize_header s) = bjoin ''-'' (map str_lower (bsplit ''-'' s))"
    by (simp add: capitalize_header_def j comp_def str_lower_capitalize)
  also have "\<dots> = str_lower s" by (simp add: j [symmetric] bjoin_bsplit)
  finally show ?thesis .
qed

lemma capitalize_header_lower: "capitalize_header (str_lower s) = capitalize_header s"
  by (simp add: capitalize_header_def str_lower_def bsplit_map [OF str_lower_dash] comp_def)
     (simp add: str_lower_def [symmetric] capitalize_lower)

lemma capitalized_iff:
  "capitalize_header k = ''Content-Length'' \<longleftrightarrow> str_lower k = ''content-length''"
proof -
  have "capitalize_header ''content-length'' = ''Content-Length''"
    and "str_lower ''Content-Length'' = ''content-length''" by code_simp+
  then show ?thesis using str_lower_capitalize_header [of k] capitalize_header_lower [of k] by metis
qed

lemma capitalized_te:
  "capitalize_header k = ''Transfer-Encoding'' \<longleftrightarrow> str_lower k = ''transfer-encoding''"
proof -
  have "capitalize_header ''transfer-encoding'' = ''Transfer-Encoding''"
    and "str_lower ''Transfer-Encoding'' = ''transfer-encoding''" by code_simp+
  then show ?thesis using str_lower_capitalize_header [of k] capitalize_header_lower [of k] by metis
qed

lemma str_lower_char_newline:
  "str_lower_char c = LF \<longleftrightarrow> c = LF" "str_lower_char c = CR \<longleftrightarrow> c = CR"
  by (simp_all add: str_lower_char_other)

lemma no_newline_lower: "has_newline (str_lower s) \<longleftrightarrow> has_newline s"
  by (induction s)
    (auto simp: has_newline_def str_lower_def str_lower_char_newline
      eq_commute [of LF "str_lower_char _"] eq_commute [of CR "str_lower_char _"])

lemma no_newline_capitalized: "has_newline (capitalize_header s) \<longleftrightarrow> has_newline s"
  by (metis no_newline_lower str_lower_capitalize_header)

subsection \<open>The header block\<close>

definition headers_clean :: "header list \<Rightarrow> bool" where
  "headers_clean hs \<longleftrightarrow> list_all (\<lambda>(k, v). \<not> has_newline k \<and> \<not> has_newline v) hs"

definition ident_clean :: "string option \<Rightarrow> bool" where
  "ident_clean ident \<longleftrightarrow> (case ident of None \<Rightarrow> True | Some i \<Rightarrow> \<not> has_newline i)"

text \<open>A block of lines that ends at its first empty line: nothing in it starts a body or another response.\<close>

definition safe_head :: "bytes \<Rightarrow> bool" where
  "safe_head h \<longleftrightarrow> suffix CRLF2 h \<and> find_double_newline h = Some (length h)
     \<and> list_all (\<lambda>l. l \<noteq> [] \<and> \<not> has_newline l) (bsplit CRLF (take (length h - 4) h))"

definition task_clean :: "'c task \<Rightarrow> bool" where
  "task_clean t \<longleftrightarrow> \<not> has_newline (t_status t) \<and> headers_clean (t_response_headers t)
     \<and> t_version t \<in> {''1.0'', ''1.1''}"

lemma has_newline_append [simp]: "has_newline (a @ b) \<longleftrightarrow> has_newline a \<or> has_newline b"
  by (auto simp: has_newline_def)

lemma known_names_clean [simp]:
  "\<not> has_newline ''Content-Length''" "\<not> has_newline ''Connection''" "\<not> has_newline ''Transfer-Encoding''"
  "\<not> has_newline ''Server''" "\<not> has_newline ''Via''" "\<not> has_newline ''Date''" "\<not> has_newline ''close''"
  "\<not> has_newline ''Keep-Alive''" "\<not> has_newline ''chunked''" "\<not> has_newline ''waitress''"
  "\<not> has_newline (build_http_date n)"
  using http_date_no_newline by (simp_all add: has_newline_def)

lemma bsplit_bjoin:
  "ls \<noteq> [] \<Longrightarrow> \<forall>l \<in> set ls. \<not> has_newline l \<Longrightarrow> bsplit CRLF (bjoin CRLF ls) = ls"
proof (induction ls)
  case (Cons l ls)
  have l: "CR \<notin> set l" using Cons.prems by (simp add: has_newline_def)
  show ?case
  proof (cases ls)
    case Nil
    have "bfind CRLF l = None"
    proof (rule bfind_NoneI, rule notI)
      fix j assume "prefix CRLF (drop j l)"
      then have "CR \<in> set (drop j l)" by (auto simp: prefix_def)
      with l show False by (auto dest: in_set_dropD)
    qed
    then show ?thesis using Nil by (simp add: bsplit.simps [of CRLF])
  next
    case (Cons a as)
    have "bfind CRLF (l @ CRLF @ bjoin CRLF ls) = Some (length l)"
      using bfind_skip l by fastforce
    then show ?thesis using Cons.IH Cons.prems Cons by (simp add: bsplit.simps [of CRLF] bjoin_Cons)
  qed
qed simp

lemma bfind_block_end:
  "ls \<noteq> [] \<Longrightarrow> \<forall>l \<in> set ls. l \<noteq> [] \<and> \<not> has_newline l \<Longrightarrow>
   bfind CRLF2 (bjoin CRLF ls @ CRLF2 @ s) = Some (length (bjoin CRLF ls))"
proof (induction ls)
  case (Cons l ls)
  have l: "CR \<notin> set l" using Cons.prems by (simp add: has_newline_def)
  show ?case
  proof (cases ls)
    case Nil
    then show ?thesis using bfind_skip [OF l, of "[LF, CR, LF]" "CRLF2 @ s"] by simp
  next
    case (Cons a as)
    then obtain c u where "a = c # u" "c \<noteq> CR"
      using Cons.prems by (cases a) (auto simp: has_newline_def)
    then obtain w where w: "bjoin CRLF ls @ CRLF2 @ s = c # w"
      using Cons by (cases as) auto
    have ih: "bfind CRLF2 (c # w) = Some (length (bjoin CRLF ls))"
      using Cons.IH Cons.prems Cons w by (simp del: bfind.simps)
    have "bfind CRLF2 (CR # LF # c # w) = Some (2 + length (bjoin CRLF ls))"
      using \<open>c \<noteq> CR\<close> ih by simp
    then have "bfind CRLF2 (l @ CR # LF # c # w) = Some (length l + (2 + length (bjoin CRLF ls)))"
      using bfind_skip [OF l, of "[LF, CR, LF]" "CR # LF # c # w"] by (simp del: bfind.simps)
    moreover have "bjoin CRLF (l # ls) @ CRLF2 @ s = l @ CR # LF # c # w"
      using w Cons by (simp add: bjoin_Cons)
    ultimately show ?thesis using Cons by (simp add: bjoin_Cons del: bfind.simps)
  qed
qed simp

lemma header_lines_set:
  "set (header_lines hs) = (\<lambda>(k, v). k @ '': '' @ v) ` set hs"
  by (simp add: header_lines_def)

lemma response_lines_clean:
  assumes "task_clean t" and "l \<in> set (response_lines t)"
  shows "l \<noteq> [] \<and> \<not> has_newline l"
  using assms
  by (auto simp: response_lines_def header_lines_set task_clean_def headers_clean_def list_all_iff)
    (auto simp: has_newline_def)

lemma head_of_safe:
  assumes "task_clean t"
  shows "safe_head (head_of t)" and "bsplit CRLF (take (length (head_of t) - 4) (head_of t)) = response_lines t"
proof -
  have ne: "response_lines t \<noteq> []" by (simp add: response_lines_def)
  have cl: "\<forall>l \<in> set (response_lines t). l \<noteq> [] \<and> \<not> has_newline l"
    using response_lines_clean [OF assms] by blast
  have b: "bsplit CRLF (bjoin CRLF (response_lines t)) = response_lines t"
    using bsplit_bjoin [OF ne] cl by blast
  show "bsplit CRLF (take (length (head_of t) - 4) (head_of t)) = response_lines t"
    by (simp add: head_of_def b)
  have "find_double_newline (head_of t) = Some (length (head_of t))"
    using bfind_block_end [OF ne cl, of "[]"] by (simp add: find_double_newline_def head_of_def)
  then show "safe_head (head_of t)"
    using b cl by (simp add: safe_head_def head_of_def list_all_iff suffix_def)
qed

subsection \<open>build_response_header\<close>

definition cap_headers :: "header list \<Rightarrow> header list" where
  "cap_headers hs = map (\<lambda>(k, v). (capitalize_header k, v)) hs"

text \<open>
  Before the header is built: it is clean, no transfer coding is declared, and a declared length
  is the one that the task counts with.
\<close>

definition head_ready :: "'c task \<Rightarrow> bool" where
  "head_ready t \<longleftrightarrow> task_clean t \<and> last_value ''Transfer-Encoding'' (cap_headers (t_response_headers t)) = None
     \<and> (case last_value ''Content-Length'' (cap_headers (t_response_headers t)) of
          None \<Rightarrow> True
        | Some v \<Rightarrow> (case t_content_length t of None \<Rightarrow> False | Some n \<Rightarrow> py_int v = Inr n))"

text \<open>
  The header that was built: how the end of the body is announced to the client. Either there is a
  length, which the task counts with, or a chunked coding, or the connection will be closed.
\<close>

definition length_ok :: "'c task \<Rightarrow> string \<Rightarrow> bool" where
  "length_ok t v \<longleftrightarrow> \<not> t_chunked_response t \<and> has_body t
     \<and> (case t_content_length t of None \<Rightarrow> False | Some n \<Rightarrow> py_int v = Inr n \<or> v = str_of_int n)"

definition announced :: "'c task \<Rightarrow> bool" where
  "announced t \<longleftrightarrow> task_clean t
     \<and> (t_chunked_response t \<longleftrightarrow> last_value ''Transfer-Encoding'' (t_response_headers t) \<noteq> None)
     \<and> (t_chunked_response t \<longrightarrow> has_body t)
     \<and> pred_option (length_ok t) (last_value ''Content-Length'' (t_response_headers t))"

definition framed :: "'c task \<Rightarrow> bool" where
  "framed t \<longleftrightarrow> announced t \<and>
     (last_value ''Content-Length'' (t_response_headers t) = None \<longrightarrow> t_close_on_finish t)"

lemma last_value_append:
  "last_value k (a @ b) = (case last_value k b of None \<Rightarrow> last_value k a | Some v \<Rightarrow> Some v)"
  by (simp add: last_value_def map_add_def split: option.split)

lemma last_value_simps [simp]:
  "last_value k [] = None" "last_value k [(k', v)] = (if k' = k then Some v else None)"
  by (auto simp: last_value_def)

lemma last_value_normalize:
  "last_value k (normalize_headers body hs) =
     (if \<not> body \<and> k = ''Content-Length'' then None else last_value k (cap_headers hs))"
proof -
  have "map_of (filter (\<lambda>(k, v). body \<or> k \<noteq> ''Content-Length'') xs) k =
      (if \<not> body \<and> k = ''Content-Length'' then None else map_of xs k)" for xs :: "header list"
    by (induction xs) auto
  then show ?thesis
    by (simp add: last_value_def normalize_headers_def cap_headers_def rev_filter)
qed

lemma clean_normalize: "headers_clean hs \<Longrightarrow> headers_clean (normalize_headers body hs)"
  by (auto simp: headers_clean_def normalize_headers_def list_all_iff no_newline_capitalized)

lemma clean_append [simp]: "headers_clean (a @ b) \<longleftrightarrow> headers_clean a \<and> headers_clean b"
  by (simp add: headers_clean_def)

lemma clean_single [simp]: "headers_clean [(k, v)] \<longleftrightarrow> \<not> has_newline k \<and> \<not> has_newline v"
  by (simp add: headers_clean_def)

lemma clean_str_of_int: "\<not> has_newline (str_of_int n)"
proof -
  have "c \<noteq> LF \<and> c \<noteq> CR" if "c \<in> set (str_of_nat m)" for c m
    using is_digit_not_ctl [OF str_of_nat_digit [OF that]] by simp
  then show ?thesis by (auto simp: str_of_int_def has_newline_def)
qed

lemma set_close_fields [simp]:
  "t_status (set_close_on_finish t) = t_status t" "t_version (set_close_on_finish t) = t_version t"
  "t_wrote_header (set_close_on_finish t) = t_wrote_header t" "t_channel (set_close_on_finish t) = t_channel t"
  "t_complete (set_close_on_finish t) = t_complete t" "t_request (set_close_on_finish t) = t_request t"
  "t_content_length (set_close_on_finish t) = t_content_length t"
  "t_content_bytes_written (set_close_on_finish t) = t_content_bytes_written t"
  "t_chunked_response (set_close_on_finish t) = t_chunked_response t"
  "t_close_on_finish (set_close_on_finish t)" "t_start_time (set_close_on_finish t) = t_start_time t"
  "has_body (set_close_on_finish t) = has_body t"
  by (simp_all add: set_close_on_finish_def Let_def has_body_def)

lemma add_headers_fields [simp]:
  "t_status (add_response_headers hs t) = t_status t" "t_version (add_response_headers hs t) = t_version t"
  "t_wrote_header (add_response_headers hs t) = t_wrote_header t" "t_channel (add_response_headers hs t) = t_channel t"
  "t_complete (add_response_headers hs t) = t_complete t" "t_request (add_response_headers hs t) = t_request t"
  "t_content_length (add_response_headers hs t) = t_content_length t"
  "t_content_bytes_written (add_response_headers hs t) = t_content_bytes_written t"
  "t_chunked_response (add_response_headers hs t) = t_chunked_response t"
  "t_close_on_finish (add_response_headers hs t) = t_close_on_finish t"
  "t_start_time (add_response_headers hs t) = t_start_time t"
  "has_body (add_response_headers hs t) = has_body t"
  "t_response_headers (add_response_headers hs t) = t_response_headers t @ hs"
  by (simp_all add: add_response_headers_def has_body_def)

lemma set_close_headers:
  "t_response_headers (set_close_on_finish t) =
     (if \<not> t_wrote_header t \<and> \<not> list_ex (\<lambda>(k, v). capitalize k = ''Connection'') (t_response_headers t)
      then t_response_headers t @ [(''Connection'', ''close'')] else t_response_headers t)"
  by (simp add: set_close_on_finish_def Let_def)

lemma set_close_last [simp]:
  "k \<noteq> ''Connection'' \<Longrightarrow> last_value k (t_response_headers (set_close_on_finish t)) = last_value k (t_response_headers t)"
  by (simp add: set_close_headers last_value_append)

lemma set_close_clean [simp]:
  "headers_clean (t_response_headers (set_close_on_finish t)) = headers_clean (t_response_headers t)"
  by (simp add: set_close_headers has_newline_def)

lemma falsy_iff: "\<not> falsy v \<longleftrightarrow> (\<exists>x. v = Some x \<and> x \<noteq> [])"
  by (cases v) (auto simp: falsy_def)

lemma py_int_Nil: "py_int [] = Inl (ValueError ''invalid literal for int() with base 10'')"
  by code_simp

lemma str_of_int_nonempty [simp]: "str_of_int n \<noteq> []" "[] \<noteq> str_of_int n"
  by (simp_all add: str_of_int_def eq_commute [of "[]"])

text \<open>What \<^verbatim>\<open>decide_connection\<close> leaves alone.\<close>

lemma decide_fields:
  assumes "decide_connection cl t = (r, t')"
  shows "t_status t' = t_status t \<and> t_version t' = t_version t \<and> t_wrote_header t' = t_wrote_header t
    \<and> t_channel t' = t_channel t \<and> t_complete t' = t_complete t \<and> t_request t' = t_request t
    \<and> t_content_length t' = t_content_length t \<and> t_content_bytes_written t' = t_content_bytes_written t
    \<and> t_start_time t' = t_start_time t \<and> (t_close_on_finish t \<longrightarrow> t_close_on_finish t')"
  using assms
  by (cases "t_version t = ''1.0''"; cases "t_version t = ''1.1''")
    (auto simp: decide_connection_def Let_def split: if_splits)

lemma length_ok_simps [simp]:
  "length_ok (set_close_on_finish t) = length_ok t" "length_ok (add_response_headers hs t) = length_ok t"
  by (simp_all add: length_ok_def fun_eq_iff)

lemma announced_close: "announced t \<Longrightarrow> announced (set_close_on_finish t)"
  by (simp add: announced_def task_clean_def)

lemma announced_add:
  "announced t \<Longrightarrow> headers_clean [(k, v)] \<Longrightarrow> k \<noteq> ''Content-Length'' \<Longrightarrow> k \<noteq> ''Transfer-Encoding'' \<Longrightarrow>
   announced (add_response_headers [(k, v)] t)"
  by (simp add: announced_def task_clean_def last_value_append)

lemma announced_chunked:
  "announced t \<Longrightarrow> last_value ''Content-Length'' (t_response_headers t) = None \<Longrightarrow> has_body t \<Longrightarrow>
   announced ((add_response_headers [(''Transfer-Encoding'', ''chunked'')] t)\<lparr>t_chunked_response := True\<rparr>)"
  by (simp add: announced_def task_clean_def last_value_append has_newline_def has_body_def)

lemma announced_falsy:
  assumes "announced t"
  shows "falsy (last_value ''Content-Length'' (t_response_headers t)) \<longleftrightarrow>
     last_value ''Content-Length'' (t_response_headers t) = None"
proof -
  have "v \<noteq> []" if "last_value ''Content-Length'' (t_response_headers t) = Some v" for v
  proof -
    from assms that have "length_ok t v" by (simp add: announced_def)
    then show ?thesis using py_int_Nil by (auto simp: length_ok_def split: option.splits)
  qed
  then show ?thesis by (auto simp: falsy_def)
qed

lemma decide_ok:
  assumes "announced t" and cl: "cl = last_value ''Content-Length'' (t_response_headers t)"
  shows "\<exists>t'. decide_connection cl t = (None, t') \<and> framed t'"
proof -
  let ?c = "str_lower (dict_get_or (p_headers (t_request t)) ''CONNECTION'' [])"
  have f: "falsy cl \<longleftrightarrow> cl = None" using announced_falsy [OF assms(1)] cl by simp
  consider "t_version t = ''1.0''" | "t_version t = ''1.1''"
    using assms by (auto simp: announced_def task_clean_def)
  then show ?thesis
  proof cases
    case 1
    then show ?thesis using assms f announced_close [OF assms(1)]
      announced_add [OF assms(1), of "''Connection''" "''Keep-Alive''"]
      by (cases "?c = ''keep-alive''"; cases "cl = None")
        (auto simp: decide_connection_def Let_def framed_def last_value_append has_newline_def)
  next
    case 2
    define u where "u = (if ?c = ''close'' then set_close_on_finish t else t)"
    define w where "w = (if has_body u then (add_response_headers [(''Transfer-Encoding'', ''chunked'')] u)
                            \<lparr>t_chunked_response := True\<rparr> else u)"
    define x where "x = (if \<not> t_close_on_finish w then set_close_on_finish w else w)"
    have u: "announced u" "last_value ''Content-Length'' (t_response_headers u) = cl"
      using assms announced_close [OF assms(1)] by (simp_all add: u_def)
    have d: "decide_connection cl t = (None, if falsy cl then x else u)"
      using 2 by (simp add: decide_connection_def Let_def x_def w_def u_def)
    show ?thesis
    proof (cases "cl = None")
      case True
      then have w: "announced w" "last_value ''Content-Length'' (t_response_headers w) = None"
        using u announced_chunked [OF u(1)] by (simp_all add: w_def last_value_append)
      then have "framed x" using announced_close [OF w(1)] by (simp add: x_def framed_def)
      with d f True show ?thesis by simp
    next
      case False
      with d f u show ?thesis by (auto simp: framed_def)
    qed
  qed
qed

text \<open>The whole of \<^verbatim>\<open>build_response_header\<close>: it cannot fail, and what it returns announces the body.\<close>

lemma framed_add:
  "framed t \<Longrightarrow> headers_clean [(k, v)] \<Longrightarrow> k \<noteq> ''Content-Length'' \<Longrightarrow> k \<noteq> ''Transfer-Encoding'' \<Longrightarrow>
   framed (add_response_headers [(k, v)] t)"
  using announced_add [of t k v] by (auto simp: framed_def last_value_append)

lemma ident_cleanD: "ident_clean ident \<Longrightarrow> \<not> falsy ident \<Longrightarrow> \<not> has_newline (the ident)"
  by (auto simp: ident_clean_def falsy_def split: option.splits)

lemma framed_server_date:
  "framed t \<Longrightarrow> ident_clean ident \<Longrightarrow> framed (add_date dh (add_server ident sh t))"
  by (auto simp: add_date_def add_server_def intro!: framed_add dest: ident_cleanD)

lemma declare_length_ok:
  assumes "announced t" and "\<not> t_chunked_response t"
    and d: "declare_length (last_value ''Content-Length'' (t_response_headers t)) t = (cl, t')"
  shows "announced t' \<and> cl = last_value ''Content-Length'' (t_response_headers t')"
proof (cases "\<exists>n. last_value ''Content-Length'' (t_response_headers t) = None \<and> t_content_length t = Some n \<and> has_body t")
  case True
  with assms show ?thesis
    by (auto simp: declare_length_def announced_def task_clean_def last_value_append length_ok_def clean_str_of_int)
next
  case False
  with d have "t' = t" "cl = last_value ''Content-Length'' (t_response_headers t)"
    by (auto simp: declare_length_def split: option.splits if_splits)
  with assms(1) show ?thesis by simp
qed

lemma normalized_announced:
  assumes "head_ready t" and "\<not> t_chunked_response t"
  shows "announced (t\<lparr>t_response_headers := normalize_headers (has_body t) (t_response_headers t)\<rparr>)"
proof -
  define t1 where "t1 = t\<lparr>t_response_headers := normalize_headers (has_body t) (t_response_headers t)\<rparr>"
  have h1: "t_response_headers t1 = normalize_headers (has_body t) (t_response_headers t)"
    and f1: "has_body t1 = has_body t" "t_content_length t1 = t_content_length t"
    "t_chunked_response t1 = t_chunked_response t" "t_status t1 = t_status t" "t_version t1 = t_version t"
    by (simp_all add: t1_def has_body_def)
  have "announced t1"
    using assms
    by (auto simp: head_ready_def announced_def task_clean_def f1 h1 last_value_normalize clean_normalize length_ok_def
      split: option.splits)
  then show ?thesis by (simp add: t1_def)
qed

lemma build_response_header_ok:
  assumes "head_ready t" and "\<not> t_chunked_response t" and id: "ident_clean ident"
    and b: "build_response_header ident t = (r, t')"
  shows "r = Inr (head_of t') \<and> framed t'"
proof -
  define t1 where "t1 = t\<lparr>t_response_headers := normalize_headers (has_body t) (t_response_headers t)\<rparr>"
  have h1: "t_response_headers t1 = normalize_headers (has_body t) (t_response_headers t)"
    and f1: "has_body t1 = has_body t" "t_content_length t1 = t_content_length t"
    "t_chunked_response t1 = t_chunked_response t" "t_status t1 = t_status t" "t_version t1 = t_version t"
    and t1: "t\<lparr>t_response_headers := t_response_headers t1\<rparr> = t1"
    by (simp_all add: t1_def has_body_def)
  have a1: "announced t1" using normalized_announced [OF assms(1,2)] by (simp add: t1_def)
  obtain cl t2 where q: "declare_length (last_value ''Content-Length'' (t_response_headers t1)) t1 = (cl, t2)"
    by fastforce
  from declare_length_ok [OF a1 _ q] assms(2) f1 obtain t3 where
    d: "decide_connection cl t2 = (None, t3)" and t3: "framed t3"
    using decide_ok by metis
  then show ?thesis
    using b q framed_server_date [OF t3 id]
    by (auto simp: build_response_header_def Let_def h1 [symmetric] t1)
qed

text \<open>A length that the task knows is declared.\<close>

lemma decide_length:
  assumes "decide_connection cl t = (r, t')"
  shows "last_value ''Content-Length'' (t_response_headers t') = last_value ''Content-Length'' (t_response_headers t)"
proof -
  have a: "last_value ''Content-Length'' (t_response_headers (add_response_headers [(k, v)] u))
      = last_value ''Content-Length'' (t_response_headers u)" if "k \<noteq> ''Content-Length''" for k v and u :: "'a task"
    using that by (simp add: last_value_append)
  show ?thesis
    using assms a [of "''Connection''"] a [of "''Transfer-Encoding''"]
    by (cases "t_version t = ''1.0''"; cases "t_version t = ''1.1''")
      (auto simp: decide_connection_def Let_def simp del: add_headers_fields(13) split: if_splits)
qed

lemma declare_length_some:
  assumes d: "declare_length (last_value ''Content-Length'' (t_response_headers t)) t = (cl, t')"
    and "has_body t" and "t_content_length t = Some n"
  shows "last_value ''Content-Length'' (t_response_headers t') \<noteq> None"
proof (cases "last_value ''Content-Length'' (t_response_headers t)")
  case None
  with assms show ?thesis by (auto simp: declare_length_def last_value_append)
next
  case (Some v)
  with d have "t' = t" by (simp add: declare_length_def)
  with Some show ?thesis by simp
qed

lemma build_declares:
  assumes "build_response_header ident t = (Inr h, t')" and "has_body t" and n: "t_content_length t = Some n"
  shows "last_value ''Content-Length'' (t_response_headers t') \<noteq> None"
proof -
  let ?t1 = "t\<lparr>t_response_headers := normalize_headers (has_body t) (t_response_headers t)\<rparr>"
  obtain cl t2 where q: "declare_length (last_value ''Content-Length'' (t_response_headers ?t1)) ?t1 = (cl, t2)"
    by fastforce
  have "has_body ?t1" using assms(2) by (simp add: has_body_def)
  then have "last_value ''Content-Length'' (t_response_headers t2) \<noteq> None"
    using declare_length_some [OF q] n by simp
  moreover obtain e t3 where d: "decide_connection cl t2 = (e, t3)" by fastforce
  have "last_value ''Content-Length'' (t_response_headers (add_date dh (add_server ident sh t3)))
      = last_value ''Content-Length'' (t_response_headers t3)" for dh sh
    by (simp add: add_date_def add_server_def last_value_append)
  ultimately show ?thesis using assms(1) q d decide_length [OF d]
    by (cases e) (auto simp: build_response_header_def Let_def)
qed

text \<open>What else changes: nothing that is not about headers.\<close>

lemma add_server_date_fields:
  "t' = add_date dh (add_server ident sh t) \<Longrightarrow>
   t_status t' = t_status t \<and> t_version t' = t_version t \<and> t_wrote_header t' = t_wrote_header t
    \<and> t_channel t' = t_channel t \<and> t_complete t' = t_complete t \<and> t_request t' = t_request t
    \<and> t_content_length t' = t_content_length t \<and> t_content_bytes_written t' = t_content_bytes_written t
    \<and> t_close_on_finish t' = t_close_on_finish t"
  by (simp add: add_date_def add_server_def)

lemma declare_length_fields:
  "declare_length cl t = (cl', t') \<Longrightarrow>
   t_status t' = t_status t \<and> t_version t' = t_version t \<and> t_wrote_header t' = t_wrote_header t
    \<and> t_channel t' = t_channel t \<and> t_complete t' = t_complete t \<and> t_request t' = t_request t
    \<and> t_content_length t' = t_content_length t \<and> t_content_bytes_written t' = t_content_bytes_written t
    \<and> t_close_on_finish t' = t_close_on_finish t"
  by (auto simp: declare_length_def split: option.splits if_splits)

lemma build_fields:
  assumes "build_response_header ident t = (r, t')"
  shows "t_status t' = t_status t \<and> t_version t' = t_version t \<and> t_wrote_header t' = t_wrote_header t
    \<and> t_channel t' = t_channel t \<and> t_complete t' = t_complete t \<and> t_request t' = t_request t
    \<and> t_content_length t' = t_content_length t \<and> t_content_bytes_written t' = t_content_bytes_written t
    \<and> (t_close_on_finish t \<longrightarrow> t_close_on_finish t')"
proof -
  let ?t1 = "t\<lparr>t_response_headers := normalize_headers (has_body t) (t_response_headers t)\<rparr>"
  obtain cl t2 where q: "declare_length (last_value ''Content-Length'' (t_response_headers ?t1)) ?t1 = (cl, t2)"
    by fastforce
  obtain e t3 where d: "decide_connection cl t2 = (e, t3)" by fastforce
  show ?thesis
    using assms q d declare_length_fields [OF q] decide_fields [OF d] add_server_date_fields [OF refl, of _ ident _ t3]
    by (cases e) (auto simp: build_response_header_def Let_def)
qed

subsection \<open>start_response\<close>

lemma last_value_Cons:
  "last_value k ((k', v) # hs) =
     (case last_value k hs of None \<Rightarrow> if k' = k then Some v else None | Some w \<Rightarrow> Some w)"
  using last_value_append [of k "[(k', v)]" hs] by (simp split: option.splits)

lemma check_headers_fields:
  "check_headers hs t = (r, t') \<Longrightarrow> t' = t\<lparr>t_content_length := t_content_length t'\<rparr>"
proof (induction hs t arbitrary: r rule: check_headers.induct)
  case (4 k v hs t)
  show ?case
  proof (cases "\<not> has_newline v \<and> \<not> has_newline k")
    case nn: True
    show ?thesis
    proof (cases "str_lower k = ''content-length''")
      case True
      with nn "4.prems" "4.IH"(1) [of "str_lower k"] show ?thesis by (cases "py_int v") fastforce+
    next
      case False
      with nn "4.prems" "4.IH"(2) show ?thesis by (auto simp: Let_def split: if_splits)
    qed
  next
    case False
    with "4.prems" show ?thesis by (auto split: if_splits)
  qed
qed auto

lemma hop_by_hop_te: "''transfer-encoding'' \<in> set hop_by_hop"
  by (simp add: hop_by_hop_def)

text \<open>The headers that pass the checks.\<close>

lemma check_headers_ok:
  "check_headers hs t = (None, t') \<Longrightarrow>
   headers_clean (str_headers hs) \<and> last_value ''Transfer-Encoding'' (cap_headers (str_headers hs)) = None
   \<and> (case last_value ''Content-Length'' (cap_headers (str_headers hs)) of
        None \<Rightarrow> t_content_length t' = t_content_length t
      | Some v \<Rightarrow> \<exists>n. t_content_length t' = Some n \<and> py_int v = Inr n)"
proof (induction hs t rule: check_headers.induct)
  case (4 k v hs t)
  from "4.prems" have nn: "\<not> has_newline v" "\<not> has_newline k" by (auto split: if_splits)
  show ?case
  proof (cases "str_lower k = ''content-length''")
    case True
    with nn "4.prems" obtain n where n: "py_int v = Inr n"
      and c: "check_headers hs (t\<lparr>t_content_length := Some n\<rparr>) = (None, t')"
      by (cases "py_int v") (auto simp: Let_def)
    from "4.IH"(1) [OF nn refl True n c] True nn n show ?thesis
      by (auto simp: cap_headers_def last_value_Cons capitalized_iff capitalized_te headers_clean_def split: option.splits)
  next
    case False
    with nn "4.prems" have h: "str_lower k \<notin> set hop_by_hop" and c: "check_headers hs t = (None, t')"
      by (auto simp: Let_def split: if_splits)
    then have "str_lower k \<noteq> ''transfer-encoding''" using hop_by_hop_te by metis
    with "4.IH"(2) [OF nn refl False h c] False nn show ?thesis
      by (auto simp: cap_headers_def last_value_Cons capitalized_iff capitalized_te headers_clean_def split: option.splits)
  qed
qed (auto simp: cap_headers_def headers_clean_def)

definition startable :: "'c task \<Rightarrow> bool" where
  "startable t \<longleftrightarrow> head_ready t \<and>
     (t_complete t \<or> last_value ''Content-Length'' (cap_headers (t_response_headers t)) = None)"

text \<open>
  \<^verbatim>\<open>start_response\<close> before the header was sent: whatever its arguments and whether it raises, the
  header stays in order. After that it always raises and changes nothing.
\<close>

lemma start_response_before:
  assumes "startable t" and "\<not> t_wrote_header t" and s: "start_response s hs x t = (r, t')"
  shows "startable t' \<and> t_version t' = t_version t \<and> \<not> t_wrote_header t' \<and> t_channel t' = t_channel t
    \<and> t_request t' = t_request t \<and> t_content_bytes_written t' = t_content_bytes_written t
    \<and> t_chunked_response t' = t_chunked_response t \<and> t_close_on_finish t' = t_close_on_finish t
    \<and> (r = None \<longrightarrow> t_complete t')"
proof (cases "t_complete t \<and> x = None")
  case True
  then show ?thesis using assms by (auto simp: start_response_def)
next
  case False
  define t1 where "t1 = (case x of None \<Rightarrow> t | Some e \<Rightarrow> t\<lparr>t_response_headers := []\<rparr>)\<lparr>t_complete := True\<rparr>"
  have h1: "headers_clean (t_response_headers t1) \<and> last_value ''Transfer-Encoding'' (cap_headers (t_response_headers t1)) = None
      \<and> last_value ''Content-Length'' (cap_headers (t_response_headers t1)) = None"
    using assms(1) False
    by (auto simp: t1_def startable_def head_ready_def task_clean_def headers_clean_def cap_headers_def split: option.splits)
  have f1: "t_status t1 = t_status t" "t_version t1 = t_version t" "\<not> t_wrote_header t1" "t_complete t1"
    "t_channel t1 = t_channel t" "t_request t1 = t_request t" "t_close_on_finish t1 = t_close_on_finish t"
    "t_content_bytes_written t1 = t_content_bytes_written t" "t_chunked_response t1 = t_chunked_response t"
    using assms(2) by (simp_all add: t1_def split: option.splits)
  have st: "\<not> has_newline (t_status t)" "t_version t \<in> {''1.0'', ''1.1''}"
    using assms(1) by (auto simp: startable_def head_ready_def task_clean_def)
  have eq: "start_response s hs x t =
     (case s of
        WOther \<Rightarrow> (Some (AssertionError ''status is not a string''), t1)
      | WStr s \<Rightarrow>
          if has_newline s
          then (Some (ValueError ''carriage return/line feed character present in status''), t1)
          else and_then (check_headers hs (t1\<lparr>t_status := s\<rparr>))
                 (\<lambda>t. (None, add_response_headers (str_headers hs) t)))"
    using False assms(2) by (cases x; cases s) (simp_all add: start_response_def and_then_def t1_def Let_def)
  have ready: "startable u" if "t_response_headers u = t_response_headers t1" "t_complete u"
    "\<not> has_newline (t_status u)" "t_version u = t_version t" for u :: "'a task"
    using that h1 st by (auto simp: startable_def head_ready_def task_clean_def)
  show ?thesis
  proof (cases "\<exists>st. s = WStr st \<and> \<not> has_newline st")
    case False
    then have "t' = t1" "r \<noteq> None" using s eq by (cases s; auto split: if_splits)+
    then show ?thesis using ready [of t1] f1 st by simp
  next
    case True
    then obtain st where st': "s = WStr st" "\<not> has_newline st" by blast
    obtain r2 t2 where c: "check_headers hs (t1\<lparr>t_status := st\<rparr>) = (r2, t2)" by fastforce
    define cl where "cl = t_content_length t2"
    have t2: "t2 = t1\<lparr>t_status := st, t_content_length := cl\<rparr>"
      using check_headers_fields [OF c] by (simp add: cl_def)
    show ?thesis
    proof (cases r2)
      case (Some e)
      with c eq st' s have "t' = t2" "r \<noteq> None" by (auto simp: and_then_def)
      then show ?thesis using ready [of t2] f1 st' by (simp add: t2)
    next
      case None
      with c eq st' s have t': "t' = add_response_headers (str_headers hs) t2" by (auto simp: and_then_def)
      have "startable t'"
        using check_headers_ok [of hs "t1\<lparr>t_status := st\<rparr>" t2] c None h1 f1 st st'(2)
        by (auto simp: t' startable_def head_ready_def task_clean_def cap_headers_def last_value_append t2
          split: option.splits)
      then show ?thesis using f1 by (simp add: t' t2)
    qed
  qed
qed

lemma start_response_after:
  "t_complete t \<Longrightarrow> t_wrote_header t \<Longrightarrow> start_response s hs x t = (r, t') \<Longrightarrow> t' = t \<and> r \<noteq> None"
  by (cases x) (auto simp: start_response_def and_then_def)

lemma start_response_fields:
  assumes "start_response s hs x t = (r, t')"
  shows "t_wrote_header t' = t_wrote_header t \<and> t_channel t' = t_channel t \<and> t_request t' = t_request t"
proof -
  have c: "t_wrote_header u' = t_wrote_header u \<and> t_channel u' = t_channel u \<and> t_request u' = t_request u"
    if "check_headers hs u = (q, u')" for q u and u' :: "'a task"
    using arg_cong [OF check_headers_fields [OF that], of t_wrote_header]
      arg_cong [OF check_headers_fields [OF that], of t_channel]
      arg_cong [OF check_headers_fields [OF that], of t_request] by simp
  show ?thesis
    using assms
    by (auto simp: start_response_def and_then_def Let_def split: if_splits option.splits wsgi_val.splits prod.splits dest: c)
qed

text \<open>Fields that the header does not depend on.\<close>

lemma has_body_upd [simp]:
  "has_body (t\<lparr>t_channel := c\<rparr>) = has_body t" "has_body (t\<lparr>t_wrote_header := b\<rparr>) = has_body t"
  "has_body (t\<lparr>t_content_bytes_written := n\<rparr>) = has_body t" "has_body (t\<lparr>t_logged_write_excess := b\<rparr>) = has_body t"
  "has_body (t\<lparr>t_logged_write_no_body := b\<rparr>) = has_body t" "has_body (t\<lparr>t_content_length := l\<rparr>) = has_body t"
  by (simp_all add: has_body_def)

lemma head_of_upd [simp]:
  "head_of (t\<lparr>t_channel := c\<rparr>) = head_of t" "head_of (t\<lparr>t_wrote_header := b\<rparr>) = head_of t"
  "head_of (t\<lparr>t_content_bytes_written := n\<rparr>) = head_of t" "head_of (t\<lparr>t_logged_write_excess := b\<rparr>) = head_of t"
  "head_of (t\<lparr>t_logged_write_no_body := b\<rparr>) = head_of t" "head_of (t\<lparr>t_content_length := l\<rparr>) = head_of t"
  by (simp_all add: head_of_def response_lines_def)

lemma length_ok_upd [simp]:
  "length_ok (t\<lparr>t_channel := c\<rparr>) = length_ok t" "length_ok (t\<lparr>t_wrote_header := b\<rparr>) = length_ok t"
  "length_ok (t\<lparr>t_content_bytes_written := n\<rparr>) = length_ok t" "length_ok (t\<lparr>t_logged_write_excess := b\<rparr>) = length_ok t"
  "length_ok (t\<lparr>t_logged_write_no_body := b\<rparr>) = length_ok t"
  by (simp_all add: length_ok_def fun_eq_iff)

lemma framed_upd [simp]:
  "framed (t\<lparr>t_channel := c\<rparr>) = framed t" "framed (t\<lparr>t_wrote_header := b\<rparr>) = framed t"
  "framed (t\<lparr>t_content_bytes_written := n\<rparr>) = framed t" "framed (t\<lparr>t_logged_write_excess := b\<rparr>) = framed t"
  "framed (t\<lparr>t_logged_write_no_body := b\<rparr>) = framed t"
  by (simp_all add: framed_def announced_def task_clean_def)

lemma passive_has_body [simp]:
  "has_body (t\<lparr>t_start_time := n\<rparr>) = has_body t" "has_body (t\<lparr>t_request := q\<rparr>) = has_body t"
  by (simp_all add: has_body_def)

lemma passive_length_ok [simp]:
  "length_ok (t\<lparr>t_start_time := n\<rparr>) = length_ok t" "length_ok (t\<lparr>t_request := q\<rparr>) = length_ok t"
  by (simp_all add: length_ok_def fun_eq_iff)

lemma passive_upd [simp]:
  "head_of (t\<lparr>t_start_time := n\<rparr>) = head_of t" "head_of (t\<lparr>t_request := q\<rparr>) = head_of t"
  "framed (t\<lparr>t_start_time := n\<rparr>) = framed t" "framed (t\<lparr>t_request := q\<rparr>) = framed t"
  "startable (t\<lparr>t_start_time := n\<rparr>) = startable t" "startable (t\<lparr>t_request := q\<rparr>) = startable t"
  by (simp_all add: head_of_def response_lines_def framed_def announced_def task_clean_def startable_def head_ready_def
      cong: option.case_cong)

lemma framed_length:
  "framed t \<Longrightarrow> t_content_length t = None \<Longrightarrow> framed (t\<lparr>t_content_length := l\<rparr>)
     \<and> last_value ''Content-Length'' (t_response_headers t) = None"
  by (cases "last_value ''Content-Length'' (t_response_headers t)")
    (auto simp: framed_def announced_def task_clean_def length_ok_def)

lemma startable_length:
  "startable t \<Longrightarrow> t_content_length t = None \<Longrightarrow> startable (t\<lparr>t_content_length := l\<rparr>)"
  by (auto simp: startable_def head_ready_def task_clean_def split: option.splits)

lemma close_upd [simp]:
  "head_of (t\<lparr>t_close_on_finish := b\<rparr>) = head_of t" "length_ok (t\<lparr>t_close_on_finish := b\<rparr>) = length_ok t"
  "has_body (t\<lparr>t_close_on_finish := b\<rparr>) = has_body t"
  by (simp_all add: head_of_def response_lines_def length_ok_def has_body_def fun_eq_iff)

lemma close_upd_framed:
  "framed t \<Longrightarrow> framed (t\<lparr>t_close_on_finish := True\<rparr>)"
  by (simp add: framed_def announced_def task_clean_def)

lemma startable_close: "startable t \<Longrightarrow> startable (set_close_on_finish t)"
proof -
  have "str_lower ''Connection'' = ''connection''" by code_simp
  then have "capitalize_header ''Connection'' \<noteq> ''Content-Length'' \<and> capitalize_header ''Connection'' \<noteq> ''Transfer-Encoding''"
    by (simp add: capitalized_iff capitalized_te)
  then show "startable t \<Longrightarrow> startable (set_close_on_finish t)"
    by (simp add: startable_def head_ready_def task_clean_def set_close_headers cap_headers_def last_value_append
        cong: option.case_cong)
qed

lemma startable_remove:
  assumes "startable t"
  shows "startable ((remove_content_length_header t)\<lparr>t_content_length := l\<rparr>)"
proof -
  have e: "map_of (map (\<lambda>(k, v). (capitalize_header k, v)) (filter (\<lambda>(k, v). str_lower k \<noteq> ''content-length'') hs)) k
      = (if k = ''Content-Length'' then None else map_of (map (\<lambda>(k, v). (capitalize_header k, v)) hs) k)" for hs :: "header list" and k
    by (induction hs) (auto simp: capitalized_iff [symmetric])
  have c: "headers_clean hs \<Longrightarrow> headers_clean (filter p hs)" for hs p
    by (auto simp: headers_clean_def list_all_iff)
  show ?thesis using assms
    by (simp add: startable_def head_ready_def task_clean_def remove_content_length_header_def c
        last_value_def cap_headers_def)
      (simp add: rev_map rev_filter e)
qed

definition file_ok :: "rofbuf \<Rightarrow> bool" where
  "file_ok f \<longleftrightarrow> \<not> f_closed (ro_file f) \<and>
     (if ro_seekable f then f_pos (ro_file f) \<le> length (f_data (ro_file f)) else ro_remain f = 0)"

lemma ro_prepare_cases:
  assumes "file_ok f0" and "ro_prepare cl f0 = (sz, f)"
  shows "sz = ro_remain f \<and> (0 < sz \<longrightarrow> ro_wf f \<and> length (ro_content f) = nat sz)"
proof -
  have s: "sz = ro_remain f" using assms(2) by (auto simp: ro_prepare_def Let_def)
  moreover have "ro_wf f" if "0 < sz"
  proof -
    have sk: "ro_seekable f0" using assms that by (auto simp: file_ok_def ro_prepare_def Let_def split: if_splits)
    have "case cl of None \<Rightarrow> True | Some n \<Rightarrow> 0 \<le> n"
      using assms(2) that sk by (auto simp: ro_prepare_def Let_def split: option.splits)
    with ro_prepare_ok(1) [OF sk, of cl] assms sk show ?thesis by (simp add: file_ok_def)
  qed
  ultimately show ?thesis by (auto simp: ro_wf_def)
qed

subsection \<open>Applications\<close>

text \<open>The files that an application returns are open and stand within their data.\<close>

primrec files_ok :: "app \<Rightarrow> bool" where
  "files_ok (AReturn it) = (case it of AFile f \<Rightarrow> file_ok f | AIter _ _ _ \<Rightarrow> True)"
| "files_ok (ARaise e) = True"
| "files_ok (AStart s hs x k) = (\<forall>r. files_ok (k r))"
| "files_ok (AWrite d k) = (\<forall>r. files_ok (k r))"

text \<open>No file is returned.\<close>

primrec iter_only :: "app \<Rightarrow> bool" where
  "iter_only (AReturn it) = (case it of AFile f \<Rightarrow> False | AIter _ _ _ \<Rightarrow> True)"
| "iter_only (ARaise e) = True"
| "iter_only (AStart s hs x k) = (\<forall>r. iter_only (k r))"
| "iter_only (AWrite d k) = (\<forall>r. iter_only (k r))"

lemma iter_only_files: "iter_only a \<Longrightarrow> files_ok a"
  by (induction a) (auto split: app_iter.splits)

text \<open>The declared length was written, or it does not matter.\<close>

definition length_met :: "'c task \<Rightarrow> bool" where
  "length_met t \<longleftrightarrow> p_command (t_request t) = ''HEAD'' \<or> t_close_on_finish t \<or>
     (case t_content_length t of None \<Rightarrow> True | Some n \<Rightarrow> t_content_bytes_written t = n)"

lemma write_header_fields:
  assumes "write_header ws ident t = (r, t')"
  shows "t_content_length t' = t_content_length t \<and> t_content_bytes_written t' = t_content_bytes_written t
    \<and> t_request t' = t_request t \<and> (t_close_on_finish t \<longrightarrow> t_close_on_finish t')"
proof -
  obtain q t1 where b: "build_response_header ident t = (q, t1)" by fastforce
  with assms build_fields [OF b] show ?thesis
    by (cases q) (auto simp: write_header_def and_then_def send_def split: if_splits sum.splits prod.splits option.splits)
qed

lemma write_nothing:
  assumes "task_write ws ident [] t = (r, t')" and "length_met t"
  shows "length_met t'"
proof -
  obtain r1 t1 where h: "write_header ws ident t = (r1, t1)" by fastforce
  then have "t' = t \<or> t' = t1"
    using assms(1) by (cases r1) (auto simp: task_write_def and_then_def write_body_def split: if_splits)
  with assms(2) write_header_fields [OF h] show ?thesis by (auto simp: length_met_def cong: option.case_cong)
qed

lemma get_environment_request:
  assumes "get_environment sv t = (env, t')"
  shows "t' = t\<lparr>t_request := snd (get_body_stream (t_request t))\<rparr>"
  using assms by (auto simp: get_environment_def split: prod.splits)

lemma body_stream_command: "p_command (snd (get_body_stream p)) = p_command p"
  by (simp add: get_body_stream_def Let_def split: prod.splits option.splits)

text \<open>The status lines of the errors.\<close>

lemma to_response_ok:
  assumes "to_response ident e = (status, hs, body)"
  shows "\<not> has_newline status" and "\<not> prefix ''1'' status" and "\<not> prefix ''204'' status"
    and "\<not> prefix ''304'' status" and "hs = [(''Content-Type'', ''text/plain; charset=utf-8'')]" and "body \<noteq> []"
proof -
  have st: "status = str_of_nat (err_code e) @ '' '' @ err_reason e"
    and "hs = [(''Content-Type'', ''text/plain; charset=utf-8'')]"
    using assms by (simp_all add: to_response_def Let_def)
  then show "hs = [(''Content-Type'', ''text/plain; charset=utf-8'')]" by simp
  have "str_of_nat 400 = ''400''" "str_of_nat 431 = ''431''" "str_of_nat 413 = ''413''" "str_of_nat 500 = ''500''"
    "str_of_nat 501 = ''501''" by code_simp+
  with st show "\<not> has_newline status" "\<not> prefix ''1'' status" "\<not> prefix ''204'' status" "\<not> prefix ''304'' status"
    by (cases e; simp add: has_newline_def)+
  have "utf8_encode (CRLF @ s) \<noteq> []" "utf8_encode (a @ b) = utf8_encode a @ utf8_encode b" for s a b
    by (simp_all add: utf8_encode_def utf8_char_def Let_def)
  then show "body \<noteq> []" using assms by (auto simp: to_response_def Let_def)
qed

subsection \<open>What a task relies on\<close>

fun out_bytes :: "outdata \<Rightarrow> bytes" where
  "out_bytes (Data b) = b"
| "out_bytes (FileData f) = ro_content f"

fun out_ready :: "outdata \<Rightarrow> bool" where
  "out_ready (Data b) \<longleftrightarrow> b \<noteq> []"
| "out_ready (FileData f) \<longleftrightarrow> ro_wf f"

definition chunk_frame :: "bytes \<Rightarrow> bytes" where
  "chunk_frame d = hex_upper (length d) @ CRLF @ d @ CRLF"

text \<open>
  The stream of a channel is what it has accepted. A refused write says that the client is gone;
  then part of the stream may be lost, and every later write is refused. A file whose length is
  negative is not accepted.
\<close>

text \<open>What ends the body of a chunked response.\<close>

definition last_chunk :: "'c task \<Rightarrow> bytes" where
  "last_chunk t = (if t_chunked_response t then ''0'' @ CRLF2 else [])"

text \<open>
  What a client sees of a response: nothing, or a header that ends at the first empty line and is
  one safe block.
\<close>

definition one_head :: "bytes \<Rightarrow> bool" where
  "one_head s \<longleftrightarrow> s = [] \<or> (case find_double_newline s of None \<Rightarrow> False | Some n \<Rightarrow> safe_head (take n s))"

lemma one_head_append: "safe_head h \<Longrightarrow> one_head (h @ s)"
  using fdn_append_Some [of h "length h" s] by (auto simp: one_head_def safe_head_def)

lemma one_head_more: "one_head s \<Longrightarrow> s \<noteq> [] \<Longrightarrow> one_head (s @ u)"
  using fdn_append_Some [of s _ u] fdn_bounds [of s] by (auto simp: one_head_def split: option.splits)

locale channel_writer =
  fixes ws :: "'c write_soon"
    and stream :: "'c \<Rightarrow> bytes"
    and alive :: "'c \<Rightarrow> bool"
    and cwf :: "'c \<Rightarrow> bool"
  assumes rejected: "cwf c \<Longrightarrow> ro_remain f < 0 \<Longrightarrow> ws c (FileData f) = (r, c') \<Longrightarrow>
            (\<exists>e. r = Inl e) \<and> cwf c' \<and> prefix (stream c') (stream c) \<and> (alive c' \<longrightarrow> alive c \<and> stream c' = stream c)"
    and accepted: "cwf c \<Longrightarrow> out_ready d \<Longrightarrow> ws c d = (Inr n, c') \<Longrightarrow>
            cwf c' \<and> alive c \<and> stream c' = stream c @ out_bytes d"
    and refused: "cwf c \<Longrightarrow> out_ready d \<Longrightarrow> ws c d = (Inl e, c') \<Longrightarrow>
            e = ClientDisconnected \<and> cwf c' \<and> \<not> alive c' \<and> prefix (stream c') (stream c)"
begin

text \<open>The channel had the stream \<open>s0\<close> and was given \<open>s\<close> since.\<close>

definition given :: "bytes \<Rightarrow> bytes \<Rightarrow> 'c \<Rightarrow> bool" where
  "given s0 s c \<longleftrightarrow> cwf c \<and> prefix (stream c) (s0 @ s) \<and> (alive c \<longrightarrow> stream c = s0 @ s)"

lemma given_start: "cwf c \<Longrightarrow> given (stream c) [] c"
  by (simp add: given_def)

lemma given_ws:
  assumes "given s0 s c" and "out_ready d" and "ws c d = (r, c')"
  shows "(\<exists>n. r = Inr n \<and> alive c \<and> given s0 (s @ out_bytes d) c') \<or> (r = Inl ClientDisconnected \<and> \<not> alive c' \<and> given s0 s c')"
proof (cases r)
  case (Inl e)
  with assms refused [of c d e c'] show ?thesis by (auto simp: given_def intro: prefix_order.trans)
next
  case (Inr n)
  with assms accepted [of c d n c'] show ?thesis by (auto simp: given_def)
qed

lemma send_given:
  assumes "given s0 s (t_channel t)" and "out_ready d" and "send ws d t = (r, t')"
  obtains c' where "t' = t\<lparr>t_channel := c'\<rparr>"
    and "(r = None \<and> alive (t_channel t) \<and> given s0 (s @ out_bytes d) c') \<or> (r = Some ClientDisconnected \<and> \<not> alive c' \<and> given s0 s c')"
proof -
  obtain q c' where w: "ws (t_channel t) d = (q, c')" by fastforce
  from given_ws [OF assms(1,2) w] assms(3) w that show thesis by (auto simp: send_def)
qed

definition body_ok :: "'c task \<Rightarrow> bytes \<Rightarrow> bool" where
  "body_ok t body \<longleftrightarrow>
     (t_chunked_response t \<longrightarrow> (\<exists>ds. [] \<notin> set ds \<and> body = concat (map chunk_frame ds))) \<and>
     (alive (t_channel t) \<and> last_value ''Content-Length'' (t_response_headers t) \<noteq> None \<longrightarrow>
        t_content_bytes_written t = int (length body) \<and>
        (case t_content_length t of None \<Rightarrow> True | Some n \<Rightarrow> 0 \<le> n \<longrightarrow> int (length body) \<le> n))"

definition response_inv :: "bytes \<Rightarrow> 'c task \<Rightarrow> bool" where
  "response_inv s0 t \<longleftrightarrow>
     (if t_wrote_header t
      then t_complete t \<and> framed t \<and> (\<exists>body. given s0 (head_of t @ body) (t_channel t) \<and> body_ok t body)
      else given s0 [] (t_channel t) \<and>
           (alive (t_channel t) \<longrightarrow> startable t \<and> \<not> t_chunked_response t \<and> t_content_bytes_written t = 0))"

lemma start_response_inv:
  assumes "response_inv s0 t" and "start_response s hs x t = (r, t')"
  shows "response_inv s0 t'"
proof (cases "t_wrote_header t")
  case True
  then show ?thesis using assms start_response_after [of t s hs x r t'] by (auto simp: response_inv_def)
next
  case False
  then show ?thesis
    using assms start_response_fields [OF assms(2)] start_response_before [of t s hs x r t']
    by (auto simp: response_inv_def)
qed

lemma head_of_nonempty [simp]: "head_of t \<noteq> []"
  by (simp add: head_of_def)

lemma write_header_inv:
  assumes "response_inv s0 t" and "t_complete t" and id: "ident_clean ident"
    and w: "write_header ws ident t = (r, t')"
  shows "response_inv s0 t' \<and> (r = None \<longrightarrow> t_wrote_header t') \<and> t_request t' = t_request t"
proof (cases "t_wrote_header t")
  case True
  then show ?thesis using assms by (simp add: write_header_def)
next
  case False
  obtain q t1 where b: "build_response_header ident t = (q, t1)" by fastforce
  note f = build_fields [OF b]
  from assms(1) False have g: "given s0 [] (t_channel t1)"
    and al: "alive (t_channel t) \<longrightarrow> startable t \<and> \<not> t_chunked_response t \<and> t_content_bytes_written t = 0"
    using f by (simp_all add: response_inv_def)
  have hd: "q = Inr (head_of t1) \<and> framed t1" if "alive (t_channel t)"
    using build_response_header_ok [OF _ _ id b] al that by (auto simp: startable_def)
  show ?thesis
  proof (cases q)
    case (Inl e)
    with hd have "\<not> alive (t_channel t1)" using f by auto
    with Inl b w False g f show ?thesis by (auto simp: write_header_def response_inv_def)
  next
    case (Inr rh)
    obtain r2 t2 where s: "send ws (Data rh) t1 = (r2, t2)" by fastforce
    have rh: "rh = head_of t1" using b Inr
      by (auto simp: build_response_header_def Let_def split: prod.splits option.splits)
    from send_given [OF g _ s] rh obtain c' where t2: "t2 = t1\<lparr>t_channel := c'\<rparr>"
      and c: "(r2 = None \<and> alive (t_channel t1) \<and> given s0 rh c') \<or> (r2 = Some ClientDisconnected \<and> \<not> alive c' \<and> given s0 [] c')"
      by auto
    from c show ?thesis
    proof
      assume c: "r2 = None \<and> alive (t_channel t1) \<and> given s0 rh c'"
      then have "q = Inr (head_of t1)" "framed t1" "t_content_bytes_written t1 = 0" using hd al f by auto
      moreover have "t' = t1\<lparr>t_channel := c', t_wrote_header := True\<rparr>" "r = None"
        using w False b Inr s c by (auto simp: write_header_def and_then_def t2)
      ultimately show ?thesis using c f assms(2) Inr by (auto simp: response_inv_def body_ok_def intro!: exI [of _ "[]"] split: option.splits)
    next
      assume c: "r2 = Some ClientDisconnected \<and> \<not> alive c' \<and> given s0 [] c'"
      then show ?thesis using w False b Inr s f by (auto simp: write_header_def and_then_def response_inv_def t2)
    qed
  qed
qed

lemma frame_data_ok:
  assumes "framed t" and "body_ok t body" and "data \<noteq> []" and f: "frame_data data t = (tw, t1)"
  shows "framed t1 \<and> head_of t1 = head_of t \<and> body_ok t1 (body @ tw) \<and> t_channel t1 = t_channel t
    \<and> t_complete t1 = t_complete t \<and> t_wrote_header t1 = t_wrote_header t \<and> t_request t1 = t_request t
    \<and> t_chunked_response t1 = t_chunked_response t"
proof (cases "t_chunked_response t")
  case True
  then obtain ds where ds: "[] \<notin> set ds" "body = concat (map chunk_frame ds)"
    using assms(2) by (auto simp: body_ok_def)
  have tw: "tw = chunk_frame data" "t1 = t" using f True by (simp_all add: frame_data_def chunk_frame_def)
  have "last_value ''Content-Length'' (t_response_headers t) = None"
    using assms(1) True
    by (cases "last_value ''Content-Length'' (t_response_headers t)") (auto simp: framed_def announced_def length_ok_def)
  with ds tw assms show ?thesis by (auto simp: body_ok_def intro!: exI [of _ "ds @ [data]"])
next
  case False
  show ?thesis
  proof (cases "t_content_length t")
    case None
    have "last_value ''Content-Length'' (t_response_headers t) = None"
      using framed_length [OF assms(1) None] by simp
    with False None f assms(1) show ?thesis by (auto simp: frame_data_def body_ok_def)
  next
    case (Some cl)
    define tw' where "tw' = py_take (cl - t_content_bytes_written t) data"
    have tw: "tw = tw'" and t1: "t1 = t\<lparr>t_content_bytes_written := t_content_bytes_written t + int (length tw')\<rparr>
      \<or> t1 = t\<lparr>t_content_bytes_written := t_content_bytes_written t + int (length tw'), t_logged_write_excess := True\<rparr>"
      using f False Some by (auto simp: frame_data_def Let_def tw'_def split: if_splits)
    have "int (length tw') \<le> cl - t_content_bytes_written t" if "t_content_bytes_written t \<le> cl"
      using that by (simp add: tw'_def py_take_def)
    then show ?thesis using t1 assms(1,2) False Some by (auto simp: body_ok_def tw)
  qed
qed

lemma write_body_inv:
  assumes "response_inv s0 t" and "t_wrote_header t" and w: "write_body ws data t = (r, t')"
  shows "response_inv s0 t' \<and> t_wrote_header t' \<and> t_request t' = t_request t"
proof -
  from assms(1,2) obtain body where inv: "t_complete t" "framed t" "given s0 (head_of t @ body) (t_channel t)" "body_ok t body"
    by (auto simp: response_inv_def)
  show ?thesis
  proof (cases "data \<noteq> [] \<and> has_body t")
    case False
    have "\<not> t_chunked_response t \<and> last_value ''Content-Length'' (t_response_headers t) = None" if "\<not> has_body t"
      using that inv(2)
      by (cases "last_value ''Content-Length'' (t_response_headers t)") (auto simp: framed_def announced_def length_ok_def)
    then have "body_ok (t\<lparr>t_content_bytes_written := n, t_logged_write_no_body := b\<rparr>) body" if "\<not> has_body t" for n b
      using that inv(4) by (simp add: body_ok_def)
    then have "response_inv s0 (t\<lparr>t_content_bytes_written := n, t_logged_write_no_body := b\<rparr>)" if "\<not> has_body t" for n b
      using that inv assms(2) by (auto simp: response_inv_def)
    moreover have "t' = t \<or> (\<not> has_body t \<and> (\<exists>n b. t' = t\<lparr>t_content_bytes_written := n, t_logged_write_no_body := b\<rparr>))"
      using w False by (cases "data = []") (auto simp: write_body_def)
    ultimately show ?thesis using assms(1,2) by auto
  next
    case True
    obtain tw t1 where f: "frame_data data t = (tw, t1)" by fastforce
    note f1 = frame_data_ok [OF inv(2,4) conjunct1 [OF True] f]
    have g1: "given s0 (head_of t1 @ body) (t_channel t1)" using inv(3) f1 by simp
    show ?thesis
    proof (cases "tw = []")
      case True
      then have "t' = t1" using w f \<open>data \<noteq> [] \<and> has_body t\<close> by (auto simp: write_body_def)
      then show ?thesis using f1 g1 inv assms(2) True by (auto simp: response_inv_def)
    next
      case False
      then have s: "send ws (Data tw) t1 = (r, t')" using w f True by (simp add: write_body_def)
      have "out_ready (Data tw)" using False by simp
      from send_given [OF g1 this s] obtain c' where t': "t' = t1\<lparr>t_channel := c'\<rparr>"
        and c: "(alive (t_channel t1) \<and> given s0 (head_of t1 @ body @ tw) c') \<or> (\<not> alive c' \<and> given s0 (head_of t1 @ body) c')"
        by auto
      from c have "\<exists>b. given s0 (head_of t1 @ b) c' \<and> body_ok t' b"
      proof (elim disjE conjE)
        assume "given s0 (head_of t1 @ body @ tw) c'" "alive (t_channel t1)"
        moreover have "body_ok t' (body @ tw)" using f1 \<open>alive (t_channel t1)\<close> by (auto simp: body_ok_def t')
        ultimately show ?thesis by blast
      next
        assume "given s0 (head_of t1 @ body) c'" "\<not> alive c'"
        moreover have "body_ok t' body" using inv(4) f1 \<open>\<not> alive c'\<close> by (auto simp: body_ok_def t')
        ultimately show ?thesis by blast
      qed
      then show ?thesis using f1 inv(1) assms(2) by (auto simp: response_inv_def t')
    qed
  qed
qed

lemma task_write_inv:
  assumes "response_inv s0 t" and id: "ident_clean ident" and w: "task_write ws ident data t = (r, t')"
  shows "response_inv s0 t' \<and> t_request t' = t_request t \<and> (r = None \<longrightarrow> t_wrote_header t')"
proof (cases "t_complete t")
  case False
  then show ?thesis using assms by (auto simp: task_write_def)
next
  case True
  obtain r1 t1 where h: "write_header ws ident t = (r1, t1)" by fastforce
  note h1 = write_header_inv [OF assms(1) True id h]
  show ?thesis
  proof (cases r1)
    case None
    then have "write_body ws data t1 = (r, t')" using w h True by (simp add: task_write_def and_then_def)
    with write_body_inv [of s0 t1 data r t'] h1 None show ?thesis by auto
  next
    case (Some e)
    then show ?thesis using w h h1 True by (simp add: task_write_def and_then_def)
  qed
qed

lemma framed_safe: "framed t \<Longrightarrow> one_head (head_of t @ s)"
  by (rule one_head_append) (simp add: head_of_safe framed_def announced_def)

lemma set_length_inv:
  assumes "response_inv s0 t" and "t_content_length t = None"
  shows "response_inv s0 (t\<lparr>t_content_length := l\<rparr>)"
  using assms framed_length [OF _ assms(2)] startable_length [OF _ assms(2)]
  by (auto simp: response_inv_def body_ok_def)

lemma take_chunk_inv:
  assumes "response_inv s0 t" and id: "ident_clean ident" and c: "take_chunk ws ident len first chunk t = (r, t')"
  shows "response_inv s0 t' \<and> t_request t' = t_request t"
proof -
  define t1 where "t1 = (if first \<and> t_content_length t = None \<and> len = Some 1
               then t\<lparr>t_content_length := Some (int (length chunk))\<rparr> else t)"
  have "response_inv s0 t1" "t_request t1 = t_request t" using assms(1) set_length_inv by (simp_all add: t1_def)
  then show ?thesis using c task_write_inv [OF _ id, of s0 t1 chunk r t']
    by (auto simp: take_chunk_def Let_def t1_def [symmetric] split: if_splits)
qed

lemma run_gen_inv:
  assumes id: "ident_clean ident"
  shows "response_inv s0 t \<Longrightarrow> run_gen g ws ident len first t = (r, t') \<Longrightarrow>
    response_inv s0 t' \<and> t_request t' = t_request t"
proof (induction g arbitrary: first t r t')
  case (GYield chunk g)
  obtain r1 t1 where c: "take_chunk ws ident len first chunk t = (r1, t1)" by fastforce
  with GYield take_chunk_inv [OF GYield.prems(1) id c] show ?case
    by (cases r1) (auto simp: and_then_def)
next
  case (GStart s hs x k)
  obtain r1 t1 where c: "start_response s hs x t = (r1, t1)" by fastforce
  then have "run_gen (k r1) ws ident len first t1 = (r, t')" using GStart.prems(2) by simp
  from GStart.IH [OF rangeI start_response_inv [OF GStart.prems(1) c] this] start_response_fields [OF c]
  show ?case by simp
next
  case (GWrite d k)
  obtain r1 t1 where c: "task_write ws ident d t = (r1, t1)" by fastforce
  then have "run_gen (k r1) ws ident len first t1 = (r, t')" using GWrite.prems(2) by simp
  from GWrite.IH [OF rangeI _ this] task_write_inv [OF GWrite.prems(1) id c] show ?case by simp
qed auto

lemma close_flag_inv:
  assumes "response_inv s0 t"
  shows "response_inv s0 (t\<lparr>t_close_on_finish := True\<rparr>)"
  using assms close_upd_framed [of t]
  by (auto simp: response_inv_def body_ok_def startable_def head_ready_def task_clean_def cong: option.case_cong)

lemma set_close_inv:
  assumes "response_inv s0 t"
  shows "response_inv s0 (set_close_on_finish t)"
proof (cases "t_wrote_header t")
  case True
  then have "set_close_on_finish t = t\<lparr>t_close_on_finish := True\<rparr>" by (simp add: set_close_on_finish_def)
  then show ?thesis using close_flag_inv [OF assms] by simp
next
  case False
  then show ?thesis using assms startable_close [of t] by (auto simp: response_inv_def)
qed

lemma run_iter_inv:
  assumes "response_inv s0 t" and id: "ident_clean ident" and c: "run_iter ws ident len g t = (r, t')"
  shows "response_inv s0 t' \<and> t_request t' = t_request t
    \<and> (r = None \<longrightarrow> p_command (t_request t) = ''HEAD'' \<or> t_close_on_finish t' \<or>
          (case t_content_length t' of None \<Rightarrow> True | Some n \<Rightarrow> t_content_bytes_written t' = n))"
proof -
  obtain r1 t1 where g: "run_gen g ws ident len True t = (r1, t1)" by fastforce
  have "response_inv s0 (check_length t1) \<and> t_request (check_length t1) = t_request t1"
    if "response_inv s0 t1"
    using that set_close_inv [OF that] by (simp add: check_length_def split: option.split)
  with run_gen_inv [OF id assms(1) g] c g show ?thesis
    by (cases r1) (auto simp: run_iter_def and_then_def check_length_def split: option.splits if_splits)
qed

text \<open>The invariant of a task that may also have sent a file: only the header is known to be in order.\<close>

definition sent_inv :: "bytes \<Rightarrow> 'c task \<Rightarrow> bool" where
  "sent_inv s0 t \<longleftrightarrow> response_inv s0 t \<or>
     (t_complete t \<and> t_wrote_header t \<and> (\<exists>s. s \<noteq> [] \<and> one_head s \<and> given s0 s (t_channel t)))"

lemma sent_invD: "sent_inv s0 t \<Longrightarrow> \<exists>s. one_head s \<and> given s0 s (t_channel t) \<and> (t_wrote_header t \<longrightarrow> s \<noteq> [])"
proof -
  assume "sent_inv s0 t"
  moreover have "one_head []" by (simp add: one_head_def)
  ultimately show ?thesis
    unfolding sent_inv_def response_inv_def using framed_safe [of t] head_of_nonempty [of t]
    by (cases "t_wrote_header t") (auto, metis Nil_is_append_conv head_of_nonempty)
qed

lemma send_file_given:
  assumes "given s0 s c" and "ro_wf f \<or> ro_remain f < 0" and "ws c (FileData f) = (r, c')"
  shows "given s0 s c' \<or> given s0 (s @ ro_content f) c'"
proof (cases "ro_remain f < 0")
  case True
  with rejected [of c f r c'] assms show ?thesis by (auto simp: given_def intro: prefix_order.trans)
next
  case False
  with given_ws [OF assms(1) _ assms(3)] assms(2) show ?thesis by auto
qed

lemma serve_file_inv:
  assumes "response_inv s0 t" and id: "ident_clean ident" and "file_ok f0"
    and w: "serve_file ws ident f0 t = (r, t')"
  shows "sent_inv s0 t' \<and> t_request t' = t_request t"
proof -
  define cl where "cl = t_content_length t"
  obtain sz f where p: "ro_prepare cl f0 = (sz, f)" by fastforce
  note f = ro_prepare_cases [OF assms(3) p]
  show ?thesis
  proof (cases "sz = 0")
    case True
    with w p run_iter_inv [OF assms(1) id, of "Some 0" "file_gen f" r t'] show ?thesis
      by (auto simp: serve_file_def sent_inv_def cl_def)
  next
    case False
    define t1 where "t1 = (if cl \<noteq> Some sz
                        then (if cl \<noteq> None then remove_content_length_header t else t)\<lparr>t_content_length := Some sz\<rparr>
                        else t)"
    have f1: "t_channel t1 = t_channel t" "t_wrote_header t1 = t_wrote_header t" "t_complete t1 = t_complete t"
      "t_request t1 = t_request t" "t_chunked_response t1 = t_chunked_response t"
      "t_content_bytes_written t1 = t_content_bytes_written t"
      by (simp_all add: t1_def remove_content_length_header_def)
    obtain r2 t2 where h: "task_write ws ident [] t1 = (r2, t2)" by fastforce
    have w2: "(r, t') = and_then (r2, t2) (send ws (FileData f))"
      using w p False h by (simp add: serve_file_def Let_def cl_def [symmetric] t1_def [symmetric])
    have t2: "t_request t2 = t_request t \<and> (r2 = None \<longrightarrow> t_wrote_header t2) \<and> (response_inv s0 t2 \<or>
        (r2 = None \<and> t_complete t2 \<and> t_wrote_header t2 \<and> (\<exists>s. s \<noteq> [] \<and> one_head s \<and> given s0 s (t_channel t2))))"
    proof (cases "t_wrote_header t")
      case True
      then have "t_complete t" using assms(1) by (simp add: response_inv_def)
      with h True f1 have "r2 = None \<and> t2 = t1"
        by (simp add: task_write_def write_header_def write_body_def and_then_def)
      moreover from assms(1) True have "\<exists>s. s \<noteq> [] \<and> one_head s \<and> given s0 s (t_channel t)"
        using sent_invD [of s0 t] by (auto simp: sent_inv_def)
      ultimately show ?thesis using f1 True \<open>t_complete t\<close> by simp
    next
      case False
      have "startable t1" if "startable t"
        using that startable_remove [OF that] startable_length [OF that] by (simp add: t1_def cl_def)
      then have "response_inv s0 t1" using assms(1) False f1 by (simp add: response_inv_def)
      with task_write_inv [OF this id h] f1 show ?thesis by simp
    qed
    show ?thesis
    proof (cases r2)
      case (Some e)
      with w2 t2 show ?thesis by (auto simp: and_then_def sent_inv_def)
    next
      case None
      obtain s where s: "s \<noteq> []" "one_head s" "given s0 s (t_channel t2)" and "t_complete t2" "t_wrote_header t2"
        using t2 sent_invD [of s0 t2] None by (auto simp: sent_inv_def response_inv_def)
      obtain q c' where c: "ws (t_channel t2) (FileData f) = (q, c')" by fastforce
      have "ro_wf f \<or> ro_remain f < 0" using f False by linarith
      from send_file_given [OF s(3) this c] s one_head_more [OF s(2,1)]
      have "\<exists>s. s \<noteq> [] \<and> one_head s \<and> given s0 s c'" by (metis append_is_Nil_conv)
      moreover have "t' = t2\<lparr>t_channel := c'\<rparr>"
        using w2 c None by (auto simp: and_then_def send_def split: sum.splits)
      ultimately show ?thesis using \<open>t_complete t2\<close> \<open>t_wrote_header t2\<close> t2 by (auto simp: sent_inv_def)
    qed
  qed
qed

lemma run_app_inv:
  assumes id: "ident_clean ident"
  shows "response_inv s0 t \<Longrightarrow> files_ok a \<Longrightarrow> run_app a ws ident t = (r, t') \<Longrightarrow>
    sent_inv s0 t' \<and> t_request t' = t_request t \<and>
    (iter_only a \<longrightarrow> response_inv s0 t' \<and> (r = None \<longrightarrow> length_met t'))"
proof (induction a arbitrary: t r t')
  case (AReturn it)
  show ?case
  proof (cases it)
    case (AFile f)
    with AReturn serve_file_inv [OF AReturn.prems(1) id] show ?thesis by auto
  next
    case (AIter len close g)
    obtain r1 t1 where i: "run_iter ws ident len g t = (r1, t1)" by fastforce
    then have "t' = t1" "r = None \<longrightarrow> r1 = None"
      using AReturn.prems(3) AIter by (auto simp: close_iter_def split: option.splits)
    with run_iter_inv [OF AReturn.prems(1) id i] AIter show ?thesis
      by (auto simp: sent_inv_def length_met_def)
  qed
next
  case (AStart s hs x k)
  obtain r1 t1 where c: "start_response s hs x t = (r1, t1)" by fastforce
  then have run: "run_app (k r1) ws ident t1 = (r, t')" using AStart.prems(3) by simp
  have "files_ok (k r1)" using AStart.prems(2) by simp
  from AStart.IH [OF rangeI start_response_inv [OF AStart.prems(1) c] this run] start_response_fields [OF c]
  show ?case by auto
next
  case (AWrite d k)
  obtain r1 t1 where c: "task_write ws ident d t = (r1, t1)" by fastforce
  then have run: "run_app (k r1) ws ident t1 = (r, t')" using AWrite.prems(3) by simp
  have "files_ok (k r1)" using AWrite.prems(2) by simp
  from AWrite.IH [OF rangeI _ this run] task_write_inv [OF AWrite.prems(1) id c] show ?case by auto
qed (auto simp: sent_inv_def)

text \<open>A task that has finished: the header, the body, and the end of a chunked body.\<close>

definition finished :: "bytes \<Rightarrow> 'c task \<Rightarrow> bool" where
  "finished s0 t \<longleftrightarrow> t_wrote_header t \<and> framed t \<and>
     (\<exists>body. given s0 (head_of t @ body @ last_chunk t) (t_channel t) \<and> body_ok t body)"

lemma finish_body:
  assumes "sent_inv s0 t" and id: "ident_clean ident"
    and f: "(if t_wrote_header t then (None, t) else task_write ws ident [] t) = (r, t1)"
  shows "sent_inv s0 t1 \<and> t_request t1 = t_request t \<and> (r = None \<longrightarrow> t_wrote_header t1)
    \<and> (response_inv s0 t \<longrightarrow> response_inv s0 t1) \<and> (length_met t \<longrightarrow> length_met t1)"
proof (cases "t_wrote_header t")
  case True
  with assms show ?thesis by auto
next
  case False
  then have "response_inv s0 t" using assms(1) by (simp add: sent_inv_def)
  with False f task_write_inv [OF this id, of "[]" r t1] write_nothing [of ws ident t r t1] show ?thesis
    by (auto simp: sent_inv_def)
qed

lemma finish_inv:
  assumes "sent_inv s0 t" and id: "ident_clean ident" and f: "task_finish ws ident t = (r, t')"
  shows "(\<exists>s. one_head s \<and> given s0 s (t_channel t')) \<and> t_request t' = t_request t \<and>
    (response_inv s0 t \<and> r = None \<longrightarrow> finished s0 t' \<and> (length_met t \<longrightarrow> length_met t'))"
proof -
  obtain r1 t1 where w: "(if t_wrote_header t then (None, t) else task_write ws ident [] t) = (r1, t1)" by fastforce
  note 1 = finish_body [OF assms(1) id w]
  from 1 sent_invD obtain s where s: "one_head s" "given s0 s (t_channel t1)" "t_wrote_header t1 \<longrightarrow> s \<noteq> []" by blast
  have e: "(r, t') = and_then (r1, t1) (\<lambda>t. if t_chunked_response t then send ws (Data (''0'' @ CRLF2)) t else (None, t))"
    using f w by (simp add: task_finish_def)
  show ?thesis
  proof (cases "r1 = None \<and> t_chunked_response t1")
    case False
    then have "t' = t1 \<and> r = r1" using e by (cases r1) (auto simp: and_then_def)
    moreover have "finished s0 t1" if "response_inv s0 t" "r1 = None"
      using 1 that False by (auto simp: finished_def response_inv_def last_chunk_def)
    ultimately show ?thesis using 1 s by auto
  next
    case True
    then have snd: "send ws (Data (''0'' @ CRLF2)) t1 = (r, t')" using e by (simp add: and_then_def)
    have s1: "s \<noteq> []" using 1 s True by simp
    from send_given [OF s(2) _ snd] obtain c' where t': "t' = t1\<lparr>t_channel := c'\<rparr>"
      and "given s0 (s @ ''0'' @ CRLF2) c' \<or> given s0 s c'" by auto
    then have "\<exists>s. one_head s \<and> given s0 s c'" using s one_head_more [OF s(1) s1] by blast
    moreover have "finished s0 t'" if inv: "response_inv s0 t" and r: "r = None"
    proof -
      from 1 inv True obtain body where b: "framed t1" "given s0 (head_of t1 @ body) (t_channel t1)" "body_ok t1 body"
        "t_wrote_header t1"
        by (auto simp: response_inv_def)
      from send_given [OF b(2) _ snd] obtain c2 where
        "t' = t1\<lparr>t_channel := c2\<rparr>" "given s0 (head_of t1 @ body @ ''0'' @ CRLF2) c2" using r by auto
      then have "given s0 (head_of t1 @ body @ ''0'' @ CRLF2) c'" using arg_cong [OF t', of t_channel] by simp
      moreover have "last_value ''Content-Length'' (t_response_headers t1) = None"
        using b(1) True
        by (cases "last_value ''Content-Length'' (t_response_headers t1)") (auto simp: framed_def announced_def length_ok_def)
      then have "body_ok t' body" using b(3) by (simp add: body_ok_def t')
      moreover have "framed t'" "t_wrote_header t'" "head_of t' = head_of t1" "last_chunk t' = ''0'' @ CRLF2"
        using b True by (simp_all add: t' last_chunk_def)
      ultimately show ?thesis unfolding finished_def t' by auto
    qed
    moreover have "length_met t1 \<longrightarrow> length_met t'" by (simp add: length_met_def t' cong: option.case_cong)
    ultimately show ?thesis using 1 t' by auto
  qed
qed

lemma task_init_inv:
  assumes "cwf c"
  shows "response_inv (stream c) (task_init e c req)"
proof -
  have "\<not> has_newline ''200 OK''" by code_simp
  then show ?thesis using given_start [OF assms]
    by (simp add: response_inv_def task_init_def startable_def head_ready_def task_clean_def headers_clean_def cap_headers_def)
qed

lemma passive_inv:
  assumes "response_inv s0 t"
  shows "response_inv s0 (t\<lparr>t_start_time := n\<rparr>)" and "response_inv s0 (t\<lparr>t_request := q\<rparr>)"
proof -
  have "body_ok (t\<lparr>t_start_time := n\<rparr>) = body_ok t" "body_ok (t\<lparr>t_request := q\<rparr>) = body_ok t"
    by (simp_all add: body_ok_def fun_eq_iff cong: option.case_cong)
  with assms show "response_inv s0 (t\<lparr>t_start_time := n\<rparr>)" "response_inv s0 (t\<lparr>t_request := q\<rparr>)"
    by (simp_all add: response_inv_def)
qed

text \<open>The whole life of a task of an application over this channel.\<close>

lemma wsgi_execute_inv:
  assumes "response_inv s0 t" and id: "ident_clean (adj_ident (sv_adj sv))" and "\<And>env. files_ok (sv_application sv env)"
    and e: "wsgi_task_execute ws sv t = (r, t')"
  shows "sent_inv s0 t' \<and> ((\<forall>env. iter_only (sv_application sv env)) \<longrightarrow>
     response_inv s0 t' \<and> (r = None \<longrightarrow> length_met t'))"
proof -
  obtain env t1 where g: "get_environment sv t = (env, t1)" by fastforce
  have "response_inv s0 t1"
    using get_environment_request [OF g] passive_inv(2) [OF assms(1)] by metis
  moreover have "run_app (sv_application sv env) ws (adj_ident (sv_adj sv)) t1 = (r, t')"
    using e g by (simp add: wsgi_task_execute_def)
  ultimately show ?thesis using run_app_inv [OF id _ assms(3)] by blast
qed

lemma wsgi_service_inv:
  assumes "cwf c" and id: "ident_clean (adj_ident (sv_adj sv))" and files: "\<And>env. files_ok (sv_application sv env)"
    and s: "task_service ws adj now (wsgi_task_execute ws sv) (task_init False c req) = (r, t')"
    and adj: "adj_ident adj = adj_ident (sv_adj sv)"
  shows "(\<exists>s. one_head s \<and> given (stream c) s (t_channel t'))"
    and "(\<forall>env. iter_only (sv_application sv env)) \<Longrightarrow> r = None \<Longrightarrow>
         adj_log_socket_errors adj \<or> \<not> t_close_on_finish t' \<Longrightarrow> finished (stream c) t' \<and> length_met t'"
proof -
  define t1 where "t1 = (task_init False c req)\<lparr>t_start_time := now\<rparr>"
  have i1: "response_inv (stream c) t1" using passive_inv(1) [OF task_init_inv [OF assms(1)]] by (simp add: t1_def)
  obtain r2 t2 where e: "wsgi_task_execute ws sv t1 = (r2, t2)" by fastforce
  obtain r3 t3 where w: "and_then (r2, t2) (task_finish ws (adj_ident adj)) = (r3, t3)" by fastforce
  note x = wsgi_execute_inv [OF i1 id files e]
  note f = finish_inv [OF conjunct1 [OF x], of "adj_ident adj"]
  have r': "(t' = t3 \<and> r = r3) \<or> (r3 = Some OSError \<and> t' = t3\<lparr>t_close_on_finish := True\<rparr>
      \<and> r = (if adj_log_socket_errors adj then Some OSError else None))"
    using s e w by (auto simp: task_service_def t1_def [symmetric] split: option.splits exn.splits)
  have "\<exists>s. one_head s \<and> given (stream c) s (t_channel t3)"
    using w f id adj sent_invD [OF conjunct1 [OF x]] by (cases r2) (auto simp: and_then_def)
  with r' show "\<exists>s. one_head s \<and> given (stream c) s (t_channel t')" by auto
  assume it: "\<forall>env. iter_only (sv_application sv env)" and r: "r = None"
    and "adj_log_socket_errors adj \<or> \<not> t_close_on_finish t'"
  then have t3: "t' = t3" "r3 = None" using r' by auto
  then have "r2 = None" "task_finish ws (adj_ident adj) t2 = (None, t3)" using w by (auto simp: and_then_def split: option.splits)
  then show "finished (stream c) t' \<and> length_met t'" using f x it id adj t3 by auto
qed

text \<open>The header, exactly.\<close>

lemma write_header_exact:
  assumes "response_inv s0 t" and "t_complete t" and "\<not> t_wrote_header t" and id: "ident_clean ident"
    and w: "write_header ws ident t = (None, t')"
  shows "framed t' \<and> given s0 (head_of t') (t_channel t') \<and> t_wrote_header t' \<and> t_complete t'
    \<and> t_content_length t' = t_content_length t \<and> t_content_bytes_written t' = 0 \<and> has_body t' = has_body t
    \<and> (has_body t \<and> t_content_length t \<noteq> None \<longrightarrow> last_value ''Content-Length'' (t_response_headers t') \<noteq> None)
    \<and> (t_close_on_finish t \<longrightarrow> t_close_on_finish t')"
proof -
  obtain q t1 where b: "build_response_header ident t = (q, t1)" by fastforce
  note f = build_fields [OF b]
  obtain rh where q: "q = Inr rh" using w b assms(3) by (cases q) (auto simp: write_header_def)
  have rh: "rh = head_of t1" using b q
    by (auto simp: build_response_header_def Let_def split: prod.splits option.splits)
  obtain r2 t2 where s: "send ws (Data rh) t1 = (r2, t2)" by fastforce
  then have t': "t' = t2\<lparr>t_wrote_header := True\<rparr>" "r2 = None"
    using w b q assms(3) by (auto simp: write_header_def and_then_def split: option.splits)
  have g: "given s0 [] (t_channel t1)" using assms(1,3) f by (simp add: response_inv_def)
  from send_given [OF g _ s] rh t' obtain c' where t2: "t2 = t1\<lparr>t_channel := c'\<rparr>"
    and c: "alive (t_channel t1)" "given s0 rh c'" by auto
  then have st: "startable t" "\<not> t_chunked_response t" "t_content_bytes_written t = 0"
    using assms(1,3) f by (simp_all add: response_inv_def)
  then have fr: "framed t1" using build_response_header_ok [OF _ _ id b] by (simp add: startable_def)
  have hb: "has_body t1 = has_body t" using f by (simp add: has_body_def)
  show ?thesis
    using fr c rh f st hb assms(2) build_declares [OF b [unfolded q]] by (auto simp: t' t2)
qed

text \<open>The response of an error task, exactly.\<close>

lemma error_execute_exact:
  assumes "given s0 [] c" and id: "ident_clean ident" and e: "p_error req = Some err"
    and resp: "to_response ident err = (status, hs, body)"
    and w: "error_task_execute ws ident ((task_init True c req)\<lparr>t_start_time := now\<rparr>) = (r, t')"
  shows "response_inv s0 t' \<and>
    (r = None \<longrightarrow> t_wrote_header t' \<and> t_close_on_finish t' \<and> \<not> t_chunked_response t' \<and>
       t_content_length t' = Some (int (length body)) \<and>
       last_value ''Content-Length'' (t_response_headers t') \<noteq> None \<and>
       given s0 (head_of t' @ body) (t_channel t'))"
proof -
  note ok = to_response_ok [OF resp]
  define t1 where "t1 = add_response_headers hs ((task_init True c req)\<lparr>t_start_time := now, t_status := status\<rparr>)"
  define t2 where "t2 = (set_close_on_finish t1)\<lparr>t_content_length := Some (int (length body))\<rparr>"
  have "capitalize_header ''Content-Type'' = ''Content-Type''" by code_simp
  then have "startable t1" using ok(1,5)
    by (simp add: t1_def startable_def head_ready_def task_clean_def task_init_def cap_headers_def has_newline_def
        headers_clean_def last_value_Cons)
  moreover have "t_content_length t1 = None" by (simp add: t1_def task_init_def)
  ultimately have "startable t2" using startable_length [OF startable_close] by (simp add: t2_def)
  then have i2: "response_inv s0 t2" and f2: "t_complete t2" "\<not> t_wrote_header t2" "t_close_on_finish t2"
    "t_content_length t2 = Some (int (length body))" "has_body t2"
    using assms(1) ok(2-4) by (simp_all add: response_inv_def t2_def t1_def task_init_def has_body_def)
  have tw: "task_write ws ident body t2 = (r, t')"
    using w e resp by (simp add: error_task_execute_def Let_def t2_def t1_def task_init_def)
  show ?thesis
  proof (cases "r = None")
    case False
    with task_write_inv [OF i2 id tw] show ?thesis by blast
  next
    case True
    then obtain t3 where h: "write_header ws ident t2 = (None, t3)" and wb: "write_body ws body t3 = (None, t')"
      using tw f2 by (auto simp: task_write_def and_then_def split: prod.splits option.splits)
    note x = write_header_exact [OF i2 f2(1,2) id h]
    have nc: "\<not> t_chunked_response t3"
      using x f2 by (auto simp: framed_def announced_def length_ok_def split: option.splits)
    define t4 where "t4 = t3\<lparr>t_content_bytes_written := int (length body)\<rparr>"
    have "frame_data body t3 = (body, t4)"
      using nc x f2 by (simp add: frame_data_def py_take_def t4_def)
    then have s: "send ws (Data body) t4 = (None, t')" using wb x f2 ok(6) by (simp add: write_body_def)
    have "given s0 (head_of t3) (t_channel t4)" using x by (simp add: t4_def)
    from send_given [OF this _ s] ok(6) obtain c' where "t' = t4\<lparr>t_channel := c'\<rparr>"
      and "given s0 (head_of t3 @ body) c'" by auto
    with x f2 nc task_write_inv [OF i2 id tw] show ?thesis by (simp add: t4_def)
  qed
qed

text \<open>The response with a file, exactly: the declared length is that of the file as it is sent.\<close>

lemma serve_file_exact:
  assumes "response_inv s0 t" and "t_complete t" and "\<not> t_wrote_header t" and id: "ident_clean ident" and "file_ok f0"
    and w: "serve_file ws ident f0 t = (None, t')" and p: "ro_prepare (t_content_length t) f0 = (sz, f)" and "sz \<noteq> 0"
  shows "0 < sz \<and> length (ro_content f) = nat sz \<and> t_content_length t' = Some sz \<and> framed t' \<and> t_wrote_header t'
    \<and> (has_body t' \<longrightarrow> last_value ''Content-Length'' (t_response_headers t') \<noteq> None)
    \<and> given s0 (head_of t' @ ro_content f) (t_channel t')"
proof -
  define cl where "cl = t_content_length t"
  define t1 where "t1 = (if cl \<noteq> Some sz
                      then (if cl \<noteq> None then remove_content_length_header t else t)\<lparr>t_content_length := Some sz\<rparr>
                      else t)"
  have f1: "t_channel t1 = t_channel t" "t_wrote_header t1 = t_wrote_header t" "t_complete t1 = t_complete t"
    "t_chunked_response t1 = t_chunked_response t" "t_content_length t1 = Some sz"
    "t_content_bytes_written t1 = t_content_bytes_written t"
    by (simp_all add: t1_def remove_content_length_header_def cl_def)
  have "startable t1" if "startable t"
    using that startable_remove [OF that] startable_length [OF that] by (simp add: t1_def cl_def)
  then have i1: "response_inv s0 t1" using assms(1,3) f1 by (simp add: response_inv_def)
  have w2: "and_then (task_write ws ident [] t1) (send ws (FileData f)) = (None, t')"
    using w p assms(8) by (simp add: serve_file_def Let_def cl_def [symmetric] t1_def [symmetric])
  then obtain t2 where tw: "task_write ws ident [] t1 = (None, t2)" and s: "send ws (FileData f) t2 = (None, t')"
    by (auto simp: and_then_def split: prod.splits option.splits)
  then have h: "write_header ws ident t1 = (None, t2)"
    using f1 assms(2) by (auto simp: task_write_def and_then_def write_body_def split: prod.splits option.splits)
  have c1: "t_complete t1" "\<not> t_wrote_header t1" using f1 assms(2,3) by simp_all
  note x = write_header_exact [OF i1 c1 id h]
  note f = ro_prepare_cases [OF assms(5) p]
  have pos: "0 < sz"
  proof (rule ccontr)
    assume "\<not> 0 < sz"
    then have neg: "ro_remain f < 0" using f assms(8) by simp
    obtain q c' where c: "ws (t_channel t2) (FileData f) = (q, c')" by fastforce
    have "cwf (t_channel t2)" using x by (simp add: given_def)
    from rejected [OF this neg c] s c show False by (auto simp: send_def)
  qed
  then have rd: "out_ready (FileData f)" using f by simp
  have "given s0 (head_of t2) (t_channel t2)" using x by simp
  from send_given [OF this rd s] obtain c' where "t' = t2\<lparr>t_channel := c'\<rparr>"
    and "given s0 (head_of t2 @ ro_content f) c'" by auto
  with x f1 f pos show ?thesis by simp
qed

end

subsection \<open>Chunked responses\<close>



subsection \<open>When the connection is closed\<close>









subsection \<open>What start_response accepts\<close>





end
