(* ===== verification/Channel.thy ===== *)
theory Channel
  imports Response
begin

text \<open>
  \<^verbatim>\<open>channel.py\<close>: one connection. The channel is used by two threads: the main thread polls the
  socket (\<^verbatim>\<open>handle_read\<close>, \<^verbatim>\<open>handle_write\<close>), a worker runs \<^verbatim>\<open>service\<close>, which writes the response with
  \<^verbatim>\<open>write_soon\<close>. Sections under \<^verbatim>\<open>outbuf_lock\<close> and \<^verbatim>\<open>requests_lock\<close> are atomic, so the threads interleave
  where the worker enters \<^verbatim>\<open>write_soon\<close> and where it waits.

  What is outside of the program is in fields of the record: \<open>c_net\<close>, the results of the next calls
  of the socket's \<^verbatim>\<open>send\<close>; \<open>c_sched\<close>, what the main thread does at each of the points where it may
  get in between; \<open>c_now\<close>, the clock; \<open>c_tasks\<close>, the tasks of the channel that wait
  in the queue of the dispatcher (\<^verbatim>\<open>server.add_task\<close> puts one there); \<open>c_triggers\<close>, how often
  \<^verbatim>\<open>server.pull_trigger\<close> was called. \<open>c_wire\<close> is what the socket has taken.
\<close>

text \<open>The outcome of \<^verbatim>\<open>socket.send\<close>: bytes taken, \<^verbatim>\<open>EWOULDBLOCK\<close>, an error of \<^verbatim>\<open>_DISCONNECTED\<close>, another one.\<close>

datatype net_result = Sent nat | WouldBlock | Gone | NetError

text \<open>The outcome of \<^verbatim>\<open>socket.recv\<close>.\<close>

datatype recv_result = Recv bytes | RecvGone | RecvError

text \<open>
  What the main thread does with a channel: \<^verbatim>\<open>select\<close> said that the socket can be read, or written
  (and the thread can take \<^verbatim>\<open>outbuf_lock\<close> or not), or that it has an error condition; the server does
  its maintenance; time passes. \<^verbatim>\<open>poll()\<close> reports several events of a socket at once, so there
  the write event and the error may come although an event before closed the channel.
\<close>

datatype main_event =
    PollRead recv_result | PollWrite bool | PollError | LateWrite bool | LateError | Maintenance nat | Tick nat

record channel =
  c_adj :: adjustments
  c_outbufs :: "outbuf list"
  c_sendbuf_len :: int
  c_request :: "parser option"
  c_requests :: "parser list"
  c_last_activity :: nat
  c_will_close :: bool
  c_close_when_flushed :: bool
  c_sent_continue :: bool
  c_total_outbufs_len :: int
  c_current_outbuf_count :: int
  c_connected :: bool
  c_socket :: bool            \<comment> \<open>\<^verbatim>\<open>self.socket\<close> is not \<^verbatim>\<open>None\<close>; the channel is in the map\<close>
  c_wire :: bytes
  c_net :: "net_result list"
  c_sched :: "main_event list list"
  c_now :: nat
  c_tasks :: nat
  c_triggers :: nat

definition channel_init :: "adjustments \<Rightarrow> int \<Rightarrow> net_result list \<Rightarrow> main_event list list \<Rightarrow> nat \<Rightarrow> channel" where
  "channel_init adj sendbuf_len net sched now =
     \<lparr>c_adj = adj, c_outbufs = [OB (ob_init (adj_outbuf_overflow adj))], c_sendbuf_len = sendbuf_len,
      c_request = None, c_requests = [], c_last_activity = now, c_will_close = False,
      c_close_when_flushed = False, c_sent_continue = False, c_total_outbufs_len = 0,
      c_current_outbuf_count = 0, c_connected = True, c_socket = True, c_wire = [], c_net = net,
      c_sched = sched, c_now = now, c_tasks = 0, c_triggers = 0\<rparr>"

definition pull_trigger :: "channel \<Rightarrow> channel" where
  "pull_trigger c = c\<lparr>c_triggers := Suc (c_triggers c)\<rparr>"

definition server_add_task :: "channel \<Rightarrow> channel" where
  "server_add_task c = c\<lparr>c_tasks := Suc (c_tasks c)\<rparr>"

definition check_client_disconnected :: "channel \<Rightarrow> bool" where
  "check_client_disconnected c \<longleftrightarrow> \<not> c_connected c"

definition writable :: "channel \<Rightarrow> bool" where
  "writable c \<longleftrightarrow> 0 < c_total_outbufs_len c \<or> c_will_close c \<or> c_close_when_flushed c"

definition readable :: "channel \<Rightarrow> bool" where
  "readable c \<longleftrightarrow>
     \<not> (c_will_close c \<or> c_close_when_flushed c
        \<or> adj_channel_request_lookahead (c_adj c) < int (length (c_requests c))
        \<or> c_total_outbufs_len c \<noteq> 0)"

text \<open>\<^verbatim>\<open>handle_close\<close>, with \<^verbatim>\<open>wasyncore.dispatcher.close\<close>.\<close>

definition handle_close :: "channel \<Rightarrow> channel" where
  "handle_close c =
     c\<lparr>c_outbufs := map out_close (c_outbufs c), c_total_outbufs_len := 0, c_connected := False,
       c_socket := False\<rparr>"

subsection \<open>Sending\<close>

text \<open>\<^verbatim>\<open>wasyncore.dispatcher.send\<close>. With no result to come the socket is not ready.\<close>

definition sock_send :: "bool \<Rightarrow> bytes \<Rightarrow> channel \<Rightarrow> (exn + nat) \<times> channel" where
  "sock_send do_close data c =
     (if \<not> c_socket c then (Inl (AppError ''AttributeError''), c)
      else case c_net c of
             [] \<Rightarrow> (Inr 0, c)
           | r # rs \<Rightarrow>
               let c1 = c\<lparr>c_net := rs\<rparr>
               in (case r of
                     Sent n \<Rightarrow> (Inr (min n (length data)), c1\<lparr>c_wire := c_wire c1 @ take n data\<rparr>)
                   | WouldBlock \<Rightarrow> (Inr 0, c1)
                   | Gone \<Rightarrow> (Inr 0, if do_close then handle_close c1 else c1)
                   | NetError \<Rightarrow> (Inl OSError, c1)))"

lemma sock_send_net:
  "sock_send do_close data c = (Inr n, c') \<Longrightarrow> n \<noteq> 0 \<Longrightarrow> length (c_net c') < length (c_net c)
     \<and> c_outbufs c' = c_outbufs c"
  by (auto simp: sock_send_def Let_def split: if_splits list.splits net_result.splits)

text \<open>
  The two loops of \<^verbatim>\<open>_flush_some\<close>: \<open>len\<close> is \<^verbatim>\<open>outbuflen\<close>, what is left of the first buffer; \<open>sent\<close> counts
  what was sent. \<^verbatim>\<open>toclose.close()\<close> only frees the buffer that is taken out.
\<close>

function flush_loop :: "bool \<Rightarrow> nat \<Rightarrow> int \<Rightarrow> channel \<Rightarrow> exn option \<times> nat \<times> channel" where
  "flush_loop do_close sent len c =
     (case c_outbufs c of
        [] \<Rightarrow> (Some (AppError ''IndexError''), sent, c)
      | b # bs \<Rightarrow>
          if 0 < len
          then (let (chunk, b1) = out_get (c_sendbuf_len c) b
                in (case sock_send do_close chunk (c\<lparr>c_outbufs := b1 # bs\<rparr>) of
                     (Inl e, c1) \<Rightarrow> (Some e, sent, c1)
                   | (Inr n, c1) \<Rightarrow>
                       if n = 0 then (None, sent, c1)
                       else (case out_skip n b1 of
                               (Some e, b2) \<Rightarrow> (Some e, sent, c1\<lparr>c_outbufs := b2 # bs\<rparr>)
                             | (None, b2) \<Rightarrow>
                                 flush_loop do_close (sent + n) (len - int n)
                                   (c1\<lparr>c_outbufs := b2 # bs,
                                       c_total_outbufs_len := c_total_outbufs_len c1 - int n\<rparr>))))
          else (case bs of
                  [] \<Rightarrow> (None, sent, c)
                | b' # bs' \<Rightarrow> flush_loop do_close sent (out_len b') (c\<lparr>c_outbufs := bs\<rparr>)))"
  by pat_completeness auto
termination
  by (relation "measures [\<lambda>(d, s, l, c). length (c_net c), \<lambda>(d, s, l, c). length (c_outbufs c)]")
    (auto dest!: sock_send_net [OF sym])

declare flush_loop.simps [simp del]

definition flush_some :: "bool \<Rightarrow> channel \<Rightarrow> (exn + bool) \<times> channel" where
  "flush_some do_close c =
     (case flush_loop do_close 0 (case c_outbufs c of [] \<Rightarrow> 0 | b # bs \<Rightarrow> out_len b) c of
        (Some e, sent, c1) \<Rightarrow> (Inl e, c1)
      | (None, sent, c1) \<Rightarrow>
          if sent \<noteq> 0 then (Inr True, c1\<lparr>c_last_activity := c_now c1\<rparr>) else (Inr False, c1))"

text \<open>\<^verbatim>\<open>_flush_exception(flush)\<close>: whether something was sent, whether it raised.\<close>

definition flush_exception :: "bool \<Rightarrow> channel \<Rightarrow> bool \<times> bool \<times> channel" where
  "flush_exception do_close c =
     (case flush_some do_close c of
        (Inr flushed, c1) \<Rightarrow> (flushed, False, c1)
      | (Inl e, c1) \<Rightarrow> (False, True, c1\<lparr>c_will_close := True\<rparr>))"

definition handle_write :: "bool \<Rightarrow> channel \<Rightarrow> channel" where
  "handle_write lockable c =
     (let flush = (if c_requests c = [] then True
                   else if adj_send_bytes (c_adj c) \<le> c_total_outbufs_len c then lockable else False);
          c1 = (if flush then snd (snd (flush_exception True c)) else c);
          c2 = (if c_close_when_flushed c1 \<and> c_total_outbufs_len c1 = 0
                then c1\<lparr>c_close_when_flushed := False, c_will_close := True\<rparr> else c1)
      in if c_will_close c2 then handle_close c2 else c2)"

subsection \<open>Receiving\<close>

text \<open>\<^verbatim>\<open>self.outbufs[-1].append(data)\<close>\<close>

definition append_last :: "bytes \<Rightarrow> channel \<Rightarrow> exn option \<times> channel" where
  "append_last data c =
     (if c_outbufs c = [] then (Some (AppError ''IndexError''), c)
      else case out_append (last (c_outbufs c)) data of
             Inl e \<Rightarrow> (Some e, c)
           | Inr b \<Rightarrow> (None, c\<lparr>c_outbufs := butlast (c_outbufs c) @ [b]\<rparr>))"

definition continue_line :: bytes where
  "continue_line = ''HTTP/1.1 100 Continue'' @ CRLF2"

definition map_request :: "(parser \<Rightarrow> parser) \<Rightarrow> channel \<Rightarrow> channel" where
  "map_request f c = c\<lparr>c_request := map_option f (c_request c)\<rparr>"

definition send_continue :: "channel \<Rightarrow> exn option \<times> channel" where
  "send_continue c =
     (let n = int (length continue_line)
      in and_then (append_last continue_line (map_request (\<lambda>p. p\<lparr>p_expect_continue := False\<rparr>) c))
           (\<lambda>c. case flush_some True
                       (c\<lparr>c_current_outbuf_count := c_current_outbuf_count c + n,
                         c_total_outbufs_len := c_total_outbufs_len c + n, c_sent_continue := True\<rparr>) of
                  (Inl e, c1) \<Rightarrow> (Some e, c1)
                | (Inr _, c1) \<Rightarrow> (None, map_request (\<lambda>p. p\<lparr>p_completed := False\<rparr>) c1)))"

definition wants_continue :: "channel \<Rightarrow> bool" where
  "wants_continue c \<longleftrightarrow>
     (case c_request c of None \<Rightarrow> False | Some p \<Rightarrow> p_expect_continue p \<and> p_headers_finished p)
     \<and> \<not> c_sent_continue c"

definition maybe_continue :: "channel \<Rightarrow> exn option \<times> channel" where
  "maybe_continue c = (if wants_continue c \<and> c_requests c = [] then send_continue c else (None, c))"

text \<open>\<^verbatim>\<open>if self.request.completed\<close>: the request is queued, and the first one of the queue becomes a task.\<close>

definition queue_request :: "channel \<Rightarrow> channel" where
  "queue_request c =
     (case c_request c of
        None \<Rightarrow> c
      | Some p \<Rightarrow>
          if p_completed p
          then (let c1 = c\<lparr>c_sent_continue := False\<rparr>;
                    c2 = (if p_empty p then c1
                          else let c2 = c1\<lparr>c_requests := c_requests c1 @ [p]\<rparr>
                               in if length (c_requests c2) = 1 then server_add_task c2 else c2)
                in c2\<lparr>c_request := None\<rparr>)
          else c)"

text \<open>
  The loop of \<^verbatim>\<open>received\<close>. The next round needs progress: a consumed byte, or a request that is
  finished or no longer expects to be asked for its body. Without it the loop would go on with the
  same data for ever, which is the value \<^const>\<open>Diverges\<close> here.
\<close>

definition request_rank :: "channel \<Rightarrow> nat" where
  "request_rank c = (case c_request c of None \<Rightarrow> 0 | Some p \<Rightarrow> if p_expect_continue p then 2 else 1)"

function received_loop :: "bytes \<Rightarrow> channel \<Rightarrow> exn option \<times> channel" where
  "received_loop data c =
     (if data = [] then (None, c)
      else case parser_received (c_adj c) (case c_request c of None \<Rightarrow> parser_init | Some p \<Rightarrow> p) data of
             (Inl e, p) \<Rightarrow> (Some e, c\<lparr>c_request := Some p\<rparr>)
           | (Inr n, p) \<Rightarrow>
               (case maybe_continue (c\<lparr>c_request := Some p\<rparr>) of
                  (Some e, c1) \<Rightarrow> (Some e, c1)
                | (None, c1) \<Rightarrow>
                    let c2 = queue_request c1
                    in if int (length data) \<le> n then (None, c2)
                       else if 0 < n \<or> (n = 0 \<and> request_rank c2 < request_rank c)
                       then received_loop (drop (nat n) data) c2
                       else (Some Diverges, c2)))"
  by pat_completeness auto
termination
  by (relation "measures [\<lambda>(d, c). length d, \<lambda>(d, c). request_rank c]") auto

declare received_loop.simps [simp del]

definition received :: "bytes \<Rightarrow> channel \<Rightarrow> exn option \<times> channel" where
  "received data c =
     (if data = [] then (None, c)
      else if c_will_close c \<or> c_close_when_flushed c then (None, c)
      else received_loop data c)"

text \<open>
  \<^verbatim>\<open>handle_read\<close>, with \<^verbatim>\<open>wasyncore.dispatcher.recv\<close>: no data or a lost connection closes the channel.
\<close>

definition handle_read :: "recv_result \<Rightarrow> channel \<Rightarrow> exn option \<times> channel" where
  "handle_read r c =
     (case r of
        RecvError \<Rightarrow> (None, handle_close c)
      | RecvGone \<Rightarrow> (None, (handle_close c)\<lparr>c_connected := False\<rparr>)
      | Recv d \<Rightarrow>
          let data = take (nat (adj_recv_bytes (c_adj c))) d
          in if data = [] then (None, (handle_close c)\<lparr>c_connected := False\<rparr>)
             else received data (c\<lparr>c_last_activity := c_now c\<rparr>))"

subsection \<open>The main thread\<close>

text \<open>
  One event of the main thread for this channel, while it is in the map. \<^verbatim>\<open>poll\<close> asked \<^verbatim>\<open>readable\<close> and
  \<^verbatim>\<open>writable\<close> earlier, before \<^verbatim>\<open>select\<close>, and a worker may have changed the channel since: so the event
  may come in any state. An exception of \<^verbatim>\<open>handle_read\<close> ends in \<^verbatim>\<open>handle_error\<close>, which closes. The
  event before the last is \<^verbatim>\<open>BaseWSGIServer.maintenance\<close> with its cutoff.
\<close>

fun main_step :: "main_event \<Rightarrow> channel \<Rightarrow> channel" where
  "main_step (PollRead r) c =
     (if c_socket c
      then (case handle_read r c of (None, c1) \<Rightarrow> c1 | (Some e, c1) \<Rightarrow> handle_close c1)
      else c)"
| "main_step (PollWrite lockable) c = (if c_socket c then handle_write lockable c else c)"
| "main_step PollError c = (if c_socket c then handle_close c else c)"
| "main_step (LateWrite lockable) c = (if c_socket c then c else handle_write lockable c)"
| "main_step LateError c = (if c_socket c then c else handle_close c)"
| "main_step (Maintenance cutoff) c =
     (if c_socket c \<and> c_requests c = [] \<and> c_last_activity c < cutoff then c\<lparr>c_will_close := True\<rparr> else c)"
| "main_step (Tick n) c = c\<lparr>c_now := n\<rparr>"

definition main_steps :: "main_event list \<Rightarrow> channel \<Rightarrow> channel" where
  "main_steps evs c = foldl (\<lambda>c ev. main_step ev c) c evs"

text \<open>The main thread gets in before the worker takes the lock.\<close>

definition interleave :: "channel \<Rightarrow> channel" where
  "interleave c = (case c_sched c of [] \<Rightarrow> c | evs # s \<Rightarrow> main_steps evs (c\<lparr>c_sched := s\<rparr>))"

text \<open>
  \<^verbatim>\<open>outbuf_lock.wait()\<close> returns after something that the main thread does. A schedule that is over
  is read as one that goes on with an error condition of the socket, which closes the channel.
\<close>

definition wait_outbuf :: "channel \<Rightarrow> channel" where
  "wait_outbuf c =
     (case c_sched c of [] \<Rightarrow> main_step PollError c | evs # s \<Rightarrow> main_steps evs (c\<lparr>c_sched := s\<rparr>))"

definition above_watermark :: "channel \<Rightarrow> bool" where
  "above_watermark c \<longleftrightarrow> adj_outbuf_high_watermark (c_adj c) < c_total_outbufs_len c"

subsection \<open>write_soon\<close>

text \<open>\<^verbatim>\<open>while self.connected and ...: pull_trigger(); wait()\<close>, over the schedule of the main thread.\<close>

fun wait_below :: "main_event list list \<Rightarrow> channel \<Rightarrow> channel" where
  "wait_below [] c =
     (if c_connected c \<and> above_watermark c then main_step PollError (pull_trigger (c\<lparr>c_sched := []\<rparr>))
      else c\<lparr>c_sched := []\<rparr>)"
| "wait_below (evs # s) c =
     (if c_connected c \<and> above_watermark c then wait_below s (main_steps evs (pull_trigger c))
      else c\<lparr>c_sched := evs # s\<rparr>)"

definition flush_outbufs_below_high_watermark :: "channel \<Rightarrow> channel" where
  "flush_outbufs_below_high_watermark c =
     (if above_watermark c
      then let (_, exc, c1) = flush_exception False c
           in if exc then wait_outbuf (pull_trigger c1) else wait_below (c_sched c1) c1
      else c)"

definition new_outbuf :: "channel \<Rightarrow> outbuf" where
  "new_outbuf c = OB (ob_init (adj_outbuf_overflow (c_adj c)))"

text \<open>The end of \<^verbatim>\<open>write_soon\<close>: the data is in the buffers, send if there is enough.\<close>

definition wrote_soon :: "int \<Rightarrow> channel \<Rightarrow> channel" where
  "wrote_soon num_bytes c =
     (let c1 = c\<lparr>c_total_outbufs_len := c_total_outbufs_len c + num_bytes\<rparr>
      in if adj_send_bytes (c_adj c1) \<le> c_total_outbufs_len c1
         then let (flushed, exc, c2) = flush_exception False c1
              in if exc \<or> \<not> flushed \<or> adj_send_bytes (c_adj c2) \<le> c_total_outbufs_len c2
                 then pull_trigger c2 else c2
         else c1)"

definition rotate_outbuf :: "channel \<Rightarrow> channel" where
  "rotate_outbuf c =
     (if adj_outbuf_high_watermark (c_adj c) \<le> c_current_outbuf_count c
      then c\<lparr>c_outbufs := c_outbufs c @ [new_outbuf c], c_current_outbuf_count := 0\<rparr> else c)"

definition write_data :: "bytes \<Rightarrow> channel \<Rightarrow> (exn + int) \<times> channel" where
  "write_data d c =
     (case append_last d (rotate_outbuf c) of
        (Some e, c1) \<Rightarrow> (Inl e, c1)
      | (None, c1) \<Rightarrow>
          (Inr (int (length d)),
           wrote_soon (int (length d)) (c1\<lparr>c_current_outbuf_count := c_current_outbuf_count c1 + int (length d)\<rparr>)))"

definition write_file :: "rofbuf \<Rightarrow> channel \<Rightarrow> (exn + int) \<times> channel" where
  "write_file f c =
     (if ro_remain f < 0 then (Inl (ValueError ''__len__() should return >= 0''), c)
      else (Inr (ro_remain f),
            wrote_soon (ro_remain f)
              (c\<lparr>c_outbufs := c_outbufs c @ [RO f, new_outbuf c], c_current_outbuf_count := 0\<rparr>)))"

definition write_soon :: "channel \<Rightarrow> outdata \<Rightarrow> (exn + int) \<times> channel" where
  "write_soon c0 data =
     (let c = interleave c0
      in if \<not> c_connected c then (Inl ClientDisconnected, c)
         else if data = Data [] then (Inr 0, c)
         else let c1 = flush_outbufs_below_high_watermark c
              in if \<not> c_connected c1 then (Inl ClientDisconnected, c1)
                 else (case data of Data d \<Rightarrow> write_data d c1 | FileData f \<Rightarrow> write_file f c1))"

subsection \<open>service\<close>

text \<open>The request that stands for one whose task failed.\<close>

definition error_request :: "string \<Rightarrow> parser \<Rightarrow> parser" where
  "error_request body request =
     parser_init\<lparr>p_error := Some (InternalServerError body), p_version := p_version request,
       p_headers := (case dict_get (p_headers request) ''CONNECTION'' of
                       None \<Rightarrow> [] | Some v \<Rightarrow> [(''CONNECTION'', v)])\<rparr>"

definition closing :: "'c task \<Rightarrow> 'c task" where
  "closing t = t\<lparr>t_close_on_finish := True\<rparr>"

definition service_error_task :: "server_info \<Rightarrow> parser \<Rightarrow> channel \<Rightarrow> exn option \<times> channel task" where
  "service_error_task sv request c =
     task_service write_soon (c_adj c) (c_now c)
       (error_task_execute write_soon (adj_ident (c_adj c))) (task_init True c request)"

definition service_wsgi_task :: "server_info \<Rightarrow> parser \<Rightarrow> channel \<Rightarrow> exn option \<times> channel task" where
  "service_wsgi_task sv request c =
     task_service write_soon (c_adj c) (c_now c) (wsgi_task_execute write_soon sv) (task_init False c request)"

text \<open>\<^verbatim>\<open>traceback.format_exc()\<close> is the argument \<open>tb\<close>.\<close>

definition run_request :: "(exn \<Rightarrow> string) \<Rightarrow> server_info \<Rightarrow> parser \<Rightarrow> channel \<Rightarrow> exn option \<times> channel task" where
  "run_request tb sv request c =
     (let (r, t) =
        (if \<not> c_connected c then (None, closing (task_init (p_error request \<noteq> None) c request))
         else if p_error request \<noteq> None then service_error_task sv request c
         else service_wsgi_task sv request c)
      in case r of
           None \<Rightarrow> (None, t)
         | Some e \<Rightarrow>
             if e = ClientDisconnected \<or> t_wrote_header t then (None, closing t)
             else let body = (if adj_expose_tracebacks (c_adj c) then tb e
                              else ''The server encountered an unexpected internal server error'');
                      (r1, t1) = service_error_task sv (error_request body request) (t_channel t)
                  in if r1 = Some ClientDisconnected then (None, closing t1) else (r1, t1))"

text \<open>\<^verbatim>\<open>request.close()\<close> only frees the buffer of a request that is dropped.\<close>

definition end_service :: "bool \<Rightarrow> channel \<Rightarrow> exn option \<times> channel" where
  "end_service close c0 =
     (if close then (None, (interleave c0)\<lparr>c_close_when_flushed := True, c_requests := []\<rparr>)
      else let c1 = (if 1 < length (c_requests c0) then flush_outbufs_below_high_watermark c0 else c0);
               c2 = (if 0 < c_current_outbuf_count c1
                     then c1\<lparr>c_current_outbuf_count := adj_outbuf_high_watermark (c_adj c1)\<rparr> else c1);
               c3 = interleave c2;
               c4 = c3\<lparr>c_requests := tl (c_requests c3)\<rparr>
           in if c_connected c4 \<and> c_requests c4 \<noteq> [] then (None, server_add_task c4)
              else if c_connected c4 \<and> wants_continue c4 then send_continue c4
              else (None, c4))"

definition service :: "(exn \<Rightarrow> string) \<Rightarrow> server_info \<Rightarrow> channel \<Rightarrow> exn option \<times> channel" where
  "service tb sv c =
     (case c_requests c of
        [] \<Rightarrow> (Some (AppError ''IndexError''), c)
      | request # _ \<Rightarrow>
          (case run_request tb sv request c of
             (Some e, t) \<Rightarrow> (Some e, t_channel t)
           | (None, t) \<Rightarrow>
               and_then (end_service (t_close_on_finish t) (t_channel t))
                 (\<lambda>c. let c1 = (if c_connected c then pull_trigger c else c)
                      in (None, c1\<lparr>c_last_activity := c_now c1\<rparr>))))"

definition cancel :: "channel \<Rightarrow> channel" where
  "cancel c = c\<lparr>c_will_close := True, c_connected := False, c_last_activity := c_now c, c_requests := []\<rparr>"

subsection \<open>The stream\<close>

definition pending :: "channel \<Rightarrow> bytes" where
  "pending c = concat (map out_content (c_outbufs c))"

text \<open>What the socket has taken and, while there is a socket, what is still in the buffers.\<close>

definition stream :: "channel \<Rightarrow> bytes" where
  "stream c = c_wire c @ (if c_socket c then pending c else [])"

fun writable_outbuf :: "outbuf \<Rightarrow> bool" where
  "writable_outbuf (OB b) = True"
| "writable_outbuf (RO b) = False"

definition buffers_ok :: "channel \<Rightarrow> bool" where
  "buffers_ok c \<longleftrightarrow> list_all out_wf (c_outbufs c) \<and>
     c_total_outbufs_len c = sum_list (map out_len (c_outbufs c))"

definition channel_inv :: "channel \<Rightarrow> bool" where
  "channel_inv c \<longleftrightarrow> c_outbufs c \<noteq> [] \<and> writable_outbuf (last (c_outbufs c)) \<and> 0 < c_sendbuf_len c
     \<and> (if c_socket c then buffers_ok c else \<not> c_connected c)"

lemma out_len_content: "out_wf b \<Longrightarrow> out_len b = int (length (out_content b))"
  by (rule out_fifo.qlen_content)

lemma total_pending: "buffers_ok c \<Longrightarrow> c_total_outbufs_len c = int (length (pending c))"
proof -
  have "list_all out_wf bs \<Longrightarrow> sum_list (map out_len bs) = int (length (concat (map out_content bs)))" for bs
    by (induction bs) (simp_all add: out_len_content)
  then show "buffers_ok c \<Longrightarrow> c_total_outbufs_len c = int (length (pending c))"
    by (simp add: buffers_ok_def pending_def)
qed

lemma writable_close [simp]: "writable_outbuf (out_close b) = writable_outbuf b"
  by (cases b) simp_all

text \<open>
  A step of the program that puts \<open>s\<close> into the buffers, may move bytes from the buffers to the wire,
  and may close: the requests only grow, the stream is extended by \<open>s\<close>, and cut when the channel is
  closed. Without a socket nothing moves any more. The first request of an empty queue adds a task.
\<close>

definition moves_with :: "bytes \<Rightarrow> channel \<Rightarrow> channel \<Rightarrow> bool" where
  "moves_with s c c' \<longleftrightarrow> channel_inv c' \<and> c_adj c' = c_adj c \<and> prefix (c_requests c) (c_requests c')
     \<and> (c_connected c' \<longrightarrow> c_connected c) \<and> (c_socket c' \<longrightarrow> c_socket c \<and> stream c' = stream c @ s)
     \<and> prefix (stream c') (stream c @ s) \<and> (\<not> c_socket c \<longrightarrow> stream c' = stream c)
     \<and> c_tasks c' = c_tasks c + (if c_requests c = [] \<and> c_requests c' \<noteq> [] then 1 else 0)
     \<and> prefix (c_wire c) (c_wire c')"

abbreviation moves :: "channel \<Rightarrow> channel \<Rightarrow> bool" where
  "moves \<equiv> moves_with []"

lemma moves_with_trans: "moves_with s a b \<Longrightarrow> moves_with u b c \<Longrightarrow> moves_with (s @ u) a c"
  by (cases "c_socket b") (auto simp: moves_with_def intro: prefix_order.trans)

lemma moves_refl: "channel_inv c \<Longrightarrow> moves c c"
  by (simp add: moves_with_def)

lemma moves_trans: "moves a b \<Longrightarrow> moves b c \<Longrightarrow> moves a c"
  using moves_with_trans [of "[]" a b "[]" c] by simp

lemma moves_inv: "moves_with s c c' \<Longrightarrow> channel_inv c'"
  by (simp add: moves_with_def)

text \<open>Fields that do not matter.\<close>

lemma channel_inv_upd [simp]:
  "channel_inv (c\<lparr>c_request := r\<rparr>) = channel_inv c" "channel_inv (c\<lparr>c_requests := rs\<rparr>) = channel_inv c"
  "channel_inv (c\<lparr>c_last_activity := n\<rparr>) = channel_inv c" "channel_inv (c\<lparr>c_will_close := b\<rparr>) = channel_inv c"
  "channel_inv (c\<lparr>c_close_when_flushed := b\<rparr>) = channel_inv c" "channel_inv (c\<lparr>c_sent_continue := b\<rparr>) = channel_inv c"
  "channel_inv (c\<lparr>c_current_outbuf_count := k\<rparr>) = channel_inv c" "channel_inv (c\<lparr>c_sched := s\<rparr>) = channel_inv c"
  "channel_inv (c\<lparr>c_now := n\<rparr>) = channel_inv c" "channel_inv (c\<lparr>c_tasks := n\<rparr>) = channel_inv c"
  "channel_inv (c\<lparr>c_triggers := n\<rparr>) = channel_inv c" "channel_inv (c\<lparr>c_net := w\<rparr>) = channel_inv c"
  by (simp_all add: channel_inv_def buffers_ok_def)

lemma stream_upd [simp]:
  "stream (c\<lparr>c_request := r\<rparr>) = stream c" "stream (c\<lparr>c_requests := rs\<rparr>) = stream c"
  "stream (c\<lparr>c_last_activity := n\<rparr>) = stream c" "stream (c\<lparr>c_will_close := b\<rparr>) = stream c"
  "stream (c\<lparr>c_close_when_flushed := b\<rparr>) = stream c" "stream (c\<lparr>c_sent_continue := b\<rparr>) = stream c"
  "stream (c\<lparr>c_current_outbuf_count := k\<rparr>) = stream c" "stream (c\<lparr>c_sched := s\<rparr>) = stream c"
  "stream (c\<lparr>c_now := n\<rparr>) = stream c" "stream (c\<lparr>c_tasks := n\<rparr>) = stream c"
  "stream (c\<lparr>c_triggers := n\<rparr>) = stream c" "stream (c\<lparr>c_net := w\<rparr>) = stream c"
  by (simp_all add: stream_def pending_def)

lemma moves_upd [simp]:
  "moves_with s c (d\<lparr>c_request := r\<rparr>) = moves_with s c d" 
  "moves_with s c (d\<lparr>c_last_activity := n\<rparr>) = moves_with s c d" "moves_with s c (d\<lparr>c_will_close := b\<rparr>) = moves_with s c d"
  "moves_with s c (d\<lparr>c_close_when_flushed := b\<rparr>) = moves_with s c d" "moves_with s c (d\<lparr>c_sent_continue := b\<rparr>) = moves_with s c d"
  "moves_with s c (d\<lparr>c_current_outbuf_count := k\<rparr>) = moves_with s c d" "moves_with s c (d\<lparr>c_sched := sc\<rparr>) = moves_with s c d"
  "moves_with s c (d\<lparr>c_now := n\<rparr>) = moves_with s c d"
  "moves_with s c (d\<lparr>c_triggers := n\<rparr>) = moves_with s c d"
  by (simp_all add: moves_with_def)

lemma handle_close_moves: "channel_inv c \<Longrightarrow> moves c (handle_close c)"
  by (simp add: moves_with_def handle_close_def channel_inv_def stream_def last_map)

text \<open>The loop that flushes.\<close>

definition flush_rel :: "bool \<Rightarrow> channel \<Rightarrow> exn option \<Rightarrow> channel \<Rightarrow> bool" where
  "flush_rel do_close c e c' \<longleftrightarrow> moves c c' \<and> c_requests c' = c_requests c \<and> c_sched c' = c_sched c
     \<and> c_request c' = c_request c
     \<and> (if c_socket c' then (e = None \<or> e = Some OSError) \<and> c_connected c' = c_connected c
         else do_close \<and> e = None)"

lemma sock_send_cases:
  assumes "c_socket c" and "sock_send do_close data c = (r, c')"
  shows "(\<exists>n rs. r = Inr (min n (length data)) \<and> c' = c\<lparr>c_net := rs, c_wire := c_wire c @ take n data\<rparr>) \<or>
    (\<exists>rs. r = Inr 0 \<and> c' = c\<lparr>c_net := rs\<rparr>) \<or>
    (\<exists>rs. do_close \<and> r = Inr 0 \<and> c' = handle_close (c\<lparr>c_net := rs\<rparr>)) \<or>
    (\<exists>rs. r = Inl OSError \<and> c' = c\<lparr>c_net := rs\<rparr>)"
proof (cases "c_net c")
  case Nil
  then have "r = Inr 0" "c' = c\<lparr>c_net := []\<rparr>" using assms by (simp_all add: sock_send_def)
  then show ?thesis by blast
next
  case (Cons x rs)
  let ?c1 = "c\<lparr>c_net := rs\<rparr>"
  have "(r, c') = (case x of
       Sent n \<Rightarrow> (Inr (min n (length data)), ?c1\<lparr>c_wire := c_wire ?c1 @ take n data\<rparr>)
     | WouldBlock \<Rightarrow> (Inr 0, ?c1)
     | Gone \<Rightarrow> (Inr 0, if do_close then handle_close ?c1 else ?c1)
     | NetError \<Rightarrow> (Inl OSError, ?c1))"
    using assms Cons by (simp add: sock_send_def Let_def)
  note eq = this
  show ?thesis
  proof (cases x)
    case (Sent n)
    with eq have "r = Inr (min n (length data))" "c' = c\<lparr>c_net := rs, c_wire := c_wire c @ take n data\<rparr>" by simp_all
    then show ?thesis by blast
  next
    case WouldBlock
    with eq have "r = Inr 0" "c' = ?c1" by simp_all
    then show ?thesis by blast
  next
    case Gone
    with eq have "r = Inr 0" "c' = (if do_close then handle_close ?c1 else ?c1)" by simp_all
    then show ?thesis by (cases do_close) auto
  next
    case NetError
    with eq have "r = Inl OSError" "c' = ?c1" by simp_all
    then show ?thesis by blast
  qed
qed

text \<open>One round of the inner loop: what was sent moves from the first buffer to the wire.\<close>

lemma send_round_moves:
  assumes "channel_inv c" "c_socket c" and ob: "c_outbufs c = b # bs"
    and g: "out_get (c_sendbuf_len c) b = (chunk, b1)" and "n \<le> length chunk"
    and sk: "out_skip n b1 = (x, b2)"
  shows "x = None \<and> b1 = b \<and> out_len b2 = out_len b - int n \<and>
    moves c (c\<lparr>c_net := rs, c_wire := c_wire c @ take n chunk, c_outbufs := b2 # bs,
               c_total_outbufs_len := c_total_outbufs_len c - int n\<rparr>)"
proof -
  have ok: "out_wf b" "0 < c_sendbuf_len c" "writable_outbuf (last (b # bs))"
    using assms(1,2) ob by (auto simp: channel_inv_def buffers_ok_def)
  obtain b2' where b2: "out_skip n b1 = (None, b2')" "out_wf b2'" "out_content b = take n chunk @ out_content b2'"
    "out_len b2' = out_len b - int n"
    using out_fifo.send_round [OF ok(1,2) g assms(5)] by blast
  have "b1 = b" using out_fifo.peek_prefix [OF ok(1,2) g] by simp
  moreover have "writable_outbuf b2 = writable_outbuf b1"
    using sk by (cases b1) (auto split: prod.splits sum.splits)
  ultimately show ?thesis
    using assms(1,2) ob ok b2 sk
    by (auto simp: moves_with_def channel_inv_def buffers_ok_def stream_def pending_def)
qed

lemma flush_loop_rel:
  assumes "channel_inv c" "c_socket c" "len = out_len (hd (c_outbufs c))"
  shows "flush_loop do_close sent len c = (e, sent', c') \<Longrightarrow> flush_rel do_close c e c'"
  using assms
proof (induction do_close sent len c rule: flush_loop.induct)
  case (1 do_close sent len c)
  obtain b bs where ob: "c_outbufs c = b # bs" using "1.prems" by (cases "c_outbufs c") (auto simp: channel_inv_def)
  have ok: "out_wf b" "list_all out_wf bs" "c_total_outbufs_len c = out_len b + sum_list (map out_len bs)"
    "0 < c_sendbuf_len c" "c_socket c" "writable_outbuf (last (b # bs))" "len = out_len b"
    using "1.prems" ob by (auto simp: channel_inv_def buffers_ok_def)
  note eq = flush_loop.simps [of do_close sent len c, unfolded ob list.case]
  show ?case
  proof (cases "0 < len")
    case False
    then have "out_content b = []" using ok out_len_content [of b] by simp
    show ?thesis
    proof (cases bs)
      case Nil
      then have "e = None" "c' = c" using "1.prems"(1) eq False by simp_all
      then show ?thesis using "1.prems" by (simp add: flush_rel_def moves_refl)
    next
      case (Cons b' bs')
      let ?c1 = "c\<lparr>c_outbufs := bs\<rparr>"
      have l: "flush_loop do_close sent (out_len b') ?c1 = (e, sent', c')"
        using "1.prems"(1) eq False Cons by simp
      have i: "channel_inv ?c1" "c_socket ?c1" "out_len b' = out_len (hd (c_outbufs ?c1))"
        using "1.prems" ok ob Cons False out_len_content [of b]
        by (auto simp: channel_inv_def buffers_ok_def)
      have m: "moves c ?c1"
        using i "1.prems" \<open>out_content b = []\<close> ob by (simp add: moves_with_def stream_def pending_def)
      have "flush_rel do_close ?c1 e c'" using "1.IH"(2) [OF ob False Cons l i] .
      then show ?thesis using moves_trans [OF m] by (auto simp: flush_rel_def)
    qed
  next
    case True
    obtain chunk b1 where g: "out_get (c_sendbuf_len c) b = (chunk, b1)" by fastforce
    have b1: "b1 = b" using out_fifo.peek_prefix [OF ok(1,4) g] by simp
    have cc: "c\<lparr>c_outbufs := b1 # bs\<rparr> = c" using ob b1 by simp
    obtain r c1 where s: "sock_send do_close chunk c = (r, c1)" by fastforce
    have upd: "moves c (c\<lparr>c_net := rs\<rparr>)" for rs using "1.prems"(2) by (simp add: moves_with_def)
    have step: "flush_loop do_close sent len c =
       (case r of Inl e \<Rightarrow> (Some e, sent, c1)
        | Inr n \<Rightarrow> if n = 0 then (None, sent, c1)
            else (case out_skip n b1 of
                    (Some e, b2) \<Rightarrow> (Some e, sent, c1\<lparr>c_outbufs := b2 # bs\<rparr>)
                  | (None, b2) \<Rightarrow> flush_loop do_close (sent + n) (len - int n)
                      (c1\<lparr>c_outbufs := b2 # bs, c_total_outbufs_len := c_total_outbufs_len c1 - int n\<rparr>)))"
      using eq True g s cc by simp
    from sock_send_cases [OF ok(5) s] consider
      n rs where "r = Inr (min n (length chunk))" "c1 = c\<lparr>c_net := rs, c_wire := c_wire c @ take n chunk\<rparr>"
    | rs where "r = Inr 0" "c1 = c\<lparr>c_net := rs\<rparr>"
    | rs where "do_close" "r = Inr 0" "c1 = handle_close (c\<lparr>c_net := rs\<rparr>)"
    | rs where "r = Inl OSError" "c1 = c\<lparr>c_net := rs\<rparr>" by blast
    then show ?thesis
    proof cases
      case (1 n rs)
      let ?k = "min n (length chunk)"
      obtain x b2 where sk: "out_skip ?k b1 = (x, b2)" by fastforce
      have "take ?k chunk = take n chunk" by (simp add: min_def)
      with send_round_moves [OF "1.prems"(2,3) ob g _ sk, of rs]
      have x: "x = None" "out_len b2 = out_len b - int ?k"
        and m: "moves c (c1\<lparr>c_outbufs := b2 # bs, c_total_outbufs_len := c_total_outbufs_len c1 - int ?k\<rparr>)"
        using 1(2) by simp_all
      let ?c2 = "c1\<lparr>c_outbufs := b2 # bs, c_total_outbufs_len := c_total_outbufs_len c1 - int ?k\<rparr>"
      have c2: "c_socket ?c2" "c_requests ?c2 = c_requests c" "c_sched ?c2 = c_sched c" "c_request ?c2 = c_request c"
        "c_connected ?c2 = c_connected c"
        using 1 "1.prems"(3) by simp_all
      show ?thesis
      proof (cases "?k = 0")
        case True
        then have "e = None" "c' = c1" using step "1.prems"(1) 1 by simp_all
        moreover have "take n chunk = []" using True by (auto simp: min_def split: if_splits)
        then have "c1 = c\<lparr>c_net := rs\<rparr>" using 1(2) by simp
        ultimately show ?thesis using upd "1.prems"(3) by (simp add: flush_rel_def)
      next
        case False
        have l: "flush_loop do_close (sent + ?k) (len - int ?k) ?c2 = (e, sent', c')"
          using step "1.prems"(1) 1(1) False sk x by simp
        have gs: "sock_send do_close chunk (c\<lparr>c_outbufs := b1 # bs\<rparr>) = (Inr ?k, c1)" using s cc 1(1) by simp
        have "flush_rel do_close ?c2 e c'"
          using "1.IH"(1) [OF ob True g [symmetric] refl gs [symmetric] refl]
            False sk x l moves_inv [OF m] c2 ok(7) by simp
        then show ?thesis using moves_trans [OF m] c2 by (auto simp: flush_rel_def split: if_splits)
      qed
    next
      case 2
      then show ?thesis using step "1.prems"(1,3) upd by (simp add: flush_rel_def)
    next
      case (3 rs)
      have "channel_inv (c\<lparr>c_net := rs\<rparr>)" using "1.prems"(2) by simp
      then have m: "moves c c1" using moves_trans [OF upd handle_close_moves] 3 by simp
      have "e = None" "c' = c1" using step "1.prems"(1) 3(2) by simp_all
      moreover have "c_requests c1 = c_requests c" "c_sched c1 = c_sched c" "c_request c1 = c_request c" "\<not> c_socket c1"
        by (simp_all add: 3(3) handle_close_def)
      ultimately show ?thesis using m 3(1) by (simp add: flush_rel_def)
    next
      case 4
      then show ?thesis using step "1.prems"(1,3) upd by (simp add: flush_rel_def)
    qed
  qed
qed

lemma flush_some_rel:
  assumes "channel_inv c" "c_socket c" and f: "flush_some do_close c = (r, c')"
  shows "flush_rel do_close c (case r of Inl e \<Rightarrow> Some e | Inr _ \<Rightarrow> None) c'"
proof -
  obtain b bs where ob: "c_outbufs c = b # bs" using assms(1) by (cases "c_outbufs c") (auto simp: channel_inv_def)
  obtain e sent c1 where l: "flush_loop do_close 0 (out_len b) c = (e, sent, c1)" by (metis prod_cases3)
  have "out_len b = out_len (hd (c_outbufs c))" by (simp add: ob)
  note rel = flush_loop_rel [OF assms(1,2) this l]
  show ?thesis using f l ob rel
    by (cases e) (auto simp: flush_some_def flush_rel_def split: if_splits)
qed

lemma flush_exception_moves:
  assumes "channel_inv c" "c_socket c" and f: "flush_exception do_close c = (fl, exc, c')"
  shows "moves c c' \<and> c_requests c' = c_requests c \<and> c_sched c' = c_sched c \<and> c_request c' = c_request c
    \<and> (do_close \<or> (c_socket c' \<and> c_connected c' = c_connected c))"
proof -
  obtain r c1 where l: "flush_some do_close c = (r, c1)" by fastforce
  from flush_some_rel [OF assms(1,2) l] f l show ?thesis
    by (cases r) (auto simp: flush_exception_def flush_rel_def split: if_splits)
qed

lemma handle_write_moves:
  assumes "channel_inv c" "c_socket c"
  shows "moves c (handle_write lk c)"
proof -
  obtain fl exc c1 where f: "flush_exception True c = (fl, exc, c1)" by (metis prod_cases3)
  note m = conjunct1 [OF flush_exception_moves [OF assms f]]
  define flush where "flush = (if c_requests c = [] then True
                   else if adj_send_bytes (c_adj c) \<le> c_total_outbufs_len c then lk else False)"
  define c2 where "c2 = (if flush then c1 else c)"
  have m2: "moves c c2" using m moves_refl [OF assms(1)] by (simp add: c2_def)
  define c3 where "c3 = (if c_close_when_flushed c2 \<and> c_total_outbufs_len c2 = 0
                then c2\<lparr>c_close_when_flushed := False, c_will_close := True\<rparr> else c2)"
  have m3: "moves c c3" using m2 by (simp add: c3_def)
  have "handle_write lk c = (if c_will_close c3 then handle_close c3 else c3)"
    using f by (simp add: handle_write_def Let_def flush_def [symmetric] c2_def c3_def)
  then show ?thesis using m3 moves_trans [OF m3 handle_close_moves [OF moves_inv [OF m3]]] by simp
qed

subsection \<open>Putting bytes into the buffers\<close>

lemma grow_moves:
  assumes "channel_inv c" "c_socket c"
    and "c_adj c' = c_adj c" "c_requests c' = c_requests c" "c_connected c' = c_connected c" "c_socket c'"
    "c_wire c' = c_wire c" "c_sendbuf_len c' = c_sendbuf_len c" "c_tasks c' = c_tasks c"
    and o: "c_outbufs c' \<noteq> []" "writable_outbuf (last (c_outbufs c'))" "list_all out_wf (c_outbufs c')"
    and p: "pending c' = pending c @ d" "c_total_outbufs_len c' = c_total_outbufs_len c + int (length d)"
  shows "moves_with d c c'"
proof -
  have "sum_list (map out_len bs) = int (length (concat (map out_content bs)))" if "list_all out_wf bs" for bs
    using that by (induction bs) (simp_all add: out_len_content)
  from this [OF o(3)] have "sum_list (map out_len (c_outbufs c')) = int (length (pending c'))"
    by (simp add: pending_def)
  moreover have "c_total_outbufs_len c = int (length (pending c))"
    using assms(1,2) total_pending by (simp add: channel_inv_def)
  ultimately show ?thesis
    using assms by (simp add: moves_with_def channel_inv_def buffers_ok_def stream_def)
qed

lemma append_last_ok:
  assumes "channel_inv c"
  obtains bs b where "c_outbufs c = bs @ [OB b]"
    and "append_last d c = (None, c\<lparr>c_outbufs := bs @ [OB (ob_append b d)]\<rparr>)"
proof -
  obtain bs x where o: "c_outbufs c = bs @ [x]"
    using assms by (cases "c_outbufs c" rule: rev_cases) (auto simp: channel_inv_def)
  moreover obtain b where "x = OB b" using assms o by (cases x) (auto simp: channel_inv_def)
  ultimately show thesis using that [of bs b] by (simp add: append_last_def)
qed

lemma appended_moves:
  assumes "channel_inv c" "c_socket c" and o: "c_outbufs c = bs @ [OB b]"
    and "c_adj c' = c_adj c" "c_requests c' = c_requests c" "c_connected c' = c_connected c" "c_socket c'"
    "c_wire c' = c_wire c" "c_sendbuf_len c' = c_sendbuf_len c" "c_tasks c' = c_tasks c"
    and "c_outbufs c' = bs @ [OB (ob_append b d)]" "c_total_outbufs_len c' = c_total_outbufs_len c + int (length d)"
  shows "moves_with d c c'"
proof (rule grow_moves)
  have "ob_wf b" "list_all out_wf bs" using assms(1,2) o by (auto simp: channel_inv_def buffers_ok_def)
  then show "list_all out_wf (c_outbufs c')" "pending c' = pending c @ d"
    using assms(11) o by (auto simp: pending_def ob_append_ok)
qed (use assms in simp_all)

subsection \<open>Receiving keeps the stream\<close>

lemma map_request_upd [simp]:
  "channel_inv (map_request f c) = channel_inv c" "c_socket (map_request f c) = c_socket c"
  "c_outbufs (map_request f c) = c_outbufs c" "c_requests (map_request f c) = c_requests c"
  "c_sched (map_request f c) = c_sched c" "moves_with s c (map_request f d) = moves_with s c d"
  "c_adj (map_request f c) = c_adj c" "c_connected (map_request f c) = c_connected c"
  "c_wire (map_request f c) = c_wire c" "c_sendbuf_len (map_request f c) = c_sendbuf_len c"
  "c_total_outbufs_len (map_request f c) = c_total_outbufs_len c" "c_tasks (map_request f c) = c_tasks c"
  "c_request (map_request f c) = map_option f (c_request c)"
  by (simp_all add: map_request_def)

lemma send_continue_moves:
  assumes "channel_inv c" "c_socket c" and s: "send_continue c = (e, c')"
  shows "moves_with continue_line c c' \<and> c_requests c' = c_requests c \<and> c_sched c' = c_sched c \<and>
    c_request c' = map_option (\<lambda>p. (if e = None then p\<lparr>p_expect_continue := False, p_completed := False\<rparr>
       else p\<lparr>p_expect_continue := False\<rparr>)) (c_request c) \<and>
    (e = None \<or> e = Some OSError)"
proof -
  let ?c1 = "map_request (\<lambda>p. p\<lparr>p_expect_continue := False\<rparr>) c"
  obtain bs b where o: "c_outbufs ?c1 = bs @ [OB b]"
    and a: "append_last continue_line ?c1 = (None, ?c1\<lparr>c_outbufs := bs @ [OB (ob_append b continue_line)]\<rparr>)"
    using append_last_ok [of ?c1] assms(1) by auto
  define c2 where "c2 = ?c1\<lparr>c_outbufs := bs @ [OB (ob_append b continue_line)],
      c_current_outbuf_count := c_current_outbuf_count ?c1 + int (length continue_line),
      c_total_outbufs_len := c_total_outbufs_len ?c1 + int (length continue_line), c_sent_continue := True\<rparr>"
  have m2: "moves_with continue_line c c2"
    by (rule appended_moves [where bs = bs and b = b]) (use assms(1,2) o in \<open>simp_all add: c2_def map_request_def\<close>)
  obtain r c3 where f: "flush_some True c2 = (r, c3)" by fastforce
  have s2: "c_socket c2" using assms(2) by (simp add: c2_def)
  note m3 = flush_some_rel [OF moves_inv [OF m2] s2 f]
  have m: "moves_with continue_line c c3" using m3 moves_with_trans [OF m2, of "[]" c3] by (simp add: flush_rel_def)
  have r: "c_request c2 = map_option (\<lambda>p. p\<lparr>p_expect_continue := False\<rparr>) (c_request c)"
    "c_requests c2 = c_requests c" "c_sched c2 = c_sched c" by (simp_all add: c2_def)
  have eq: "(e, c') = (case r of Inl e \<Rightarrow> (Some e, c3) | Inr _ \<Rightarrow> (None, map_request (\<lambda>p. p\<lparr>p_completed := False\<rparr>) c3))"
    using s a f by (simp add: send_continue_def Let_def and_then_def c2_def)
  show ?thesis
  proof (cases r)
    case (Inl x)
    then have e: "e = Some x" "c' = c3" using eq by simp_all
    then show ?thesis using m m3 Inl r by (auto simp: flush_rel_def split: if_splits)
  next
    case (Inr x)
    then have e: "e = None" "c' = map_request (\<lambda>p. p\<lparr>p_completed := False\<rparr>) c3" using eq by simp_all
    then show ?thesis using m m3 Inr r by (simp add: flush_rel_def option.map_comp comp_def)
  qed
qed

text \<open>Without a socket nothing is sent.\<close>

lemma flush_loop_dead:
  assumes "\<not> c_socket c" "c_outbufs c \<noteq> []" "writable_outbuf (last (c_outbufs c))"
  shows "flush_loop do_close sent len c = (e, sent', c') \<Longrightarrow>
    c_outbufs c' \<noteq> [] \<and> writable_outbuf (last (c_outbufs c')) \<and> c_wire c' = c_wire c \<and> \<not> c_socket c'
    \<and> c_connected c' = c_connected c \<and> c_adj c' = c_adj c \<and> c_requests c' = c_requests c \<and> c_sched c' = c_sched c
    \<and> c_request c' = c_request c \<and> c_sendbuf_len c' = c_sendbuf_len c
    \<and> c_tasks c' = c_tasks c \<and> e \<noteq> Some Diverges"
  using assms
proof (induction do_close sent len c rule: flush_loop.induct)
  case (1 do_close sent len c)
  obtain b bs where ob: "c_outbufs c = b # bs" using "1.prems" by (cases "c_outbufs c") auto
  note eq = flush_loop.simps [of do_close sent len c, unfolded ob list.case]
  show ?case
  proof (cases "0 < len")
    case True
    obtain chunk b1 where g: "out_get (c_sendbuf_len c) b = (chunk, b1)" by fastforce
    have "writable_outbuf b1 = writable_outbuf b" using g by (cases b) (auto split: prod.splits)
    moreover have "e = Some (AppError ''AttributeError'')" "c' = c\<lparr>c_outbufs := b1 # bs\<rparr>"
      using "1.prems"(1,2) eq True g by (simp_all add: sock_send_def)
    ultimately show ?thesis using "1.prems" ob by (auto split: if_splits)
  next
    case False
    show ?thesis
    proof (cases bs)
      case Nil
      then show ?thesis using "1.prems" eq False by auto
    next
      case (Cons b' bs')
      have "flush_loop do_close sent (out_len b') (c\<lparr>c_outbufs := bs\<rparr>) = (e, sent', c')"
        using "1.prems"(1) eq False Cons by simp
      from "1.IH"(2) [OF ob False Cons this] "1.prems" ob Cons show ?thesis by auto
    qed
  qed
qed

lemma send_continue_dead:
  assumes "channel_inv c" "\<not> c_socket c" and s: "send_continue c = (e, c')"
  shows "moves_with continue_line c c' \<and> c_requests c' = c_requests c \<and> c_sched c' = c_sched c \<and> \<not> c_socket c'
    \<and> e \<noteq> Some Diverges \<and> c_request c' = map_option (\<lambda>p. (if e = None then p\<lparr>p_expect_continue := False, p_completed := False\<rparr>
       else p\<lparr>p_expect_continue := False\<rparr>)) (c_request c)"
proof -
  let ?c1 = "map_request (\<lambda>p. p\<lparr>p_expect_continue := False\<rparr>) c"
  obtain bs b where o: "c_outbufs ?c1 = bs @ [OB b]"
    and a: "append_last continue_line ?c1 = (None, ?c1\<lparr>c_outbufs := bs @ [OB (ob_append b continue_line)]\<rparr>)"
    using append_last_ok [of ?c1] assms(1) by auto
  define c2 where "c2 = ?c1\<lparr>c_outbufs := bs @ [OB (ob_append b continue_line)],
      c_current_outbuf_count := c_current_outbuf_count ?c1 + int (length continue_line),
      c_total_outbufs_len := c_total_outbufs_len ?c1 + int (length continue_line), c_sent_continue := True\<rparr>"
  have c2: "\<not> c_socket c2" "c_outbufs c2 \<noteq> []" "writable_outbuf (last (c_outbufs c2))"
    using assms(2) by (simp_all add: c2_def)
  define len where "len = (case c_outbufs c2 of [] \<Rightarrow> 0 | b # bs \<Rightarrow> out_len b)"
  obtain x sent c3 where f: "flush_loop True 0 len c2 = (x, sent, c3)" by (metis prod_cases3)
  have fs: "flush_some True c2 = (case x of Some e \<Rightarrow> (Inl e, c3)
       | None \<Rightarrow> if sent \<noteq> 0 then (Inr True, c3\<lparr>c_last_activity := c_now c3\<rparr>) else (Inr False, c3))"
    using f by (cases x) (simp_all add: flush_some_def len_def [symmetric])
  note d = flush_loop_dead [OF c2 f]
  have eq: "(e, c') = (case flush_some True c2 of (Inl e, c3) \<Rightarrow> (Some e, c3)
      | (Inr _, c3) \<Rightarrow> (None, map_request (\<lambda>p. p\<lparr>p_completed := False\<rparr>) c3))"
    using s a by (simp add: send_continue_def Let_def and_then_def c2_def)
  have "moves_with continue_line c c3 \<and> c_requests c3 = c_requests c \<and> c_sched c3 = c_sched c
    \<and> c_request c3 = map_option (\<lambda>p. p\<lparr>p_expect_continue := False\<rparr>) (c_request c)"
    using d assms(1,2) by (simp add: moves_with_def channel_inv_def stream_def c2_def)
  then show ?thesis using eq fs d by (cases x) (auto simp: option.map_comp comp_def split: if_splits)
qed

lemma progress_ok_init: "progress_ok parser_init" "\<not> p_completed parser_init"
  by (simp_all add: progress_ok_def parser_init_def find_double_newline_def)

lemma progress_ok_upd [simp]:
  "progress_ok (p\<lparr>p_expect_continue := b\<rparr>) = progress_ok p" "progress_ok (p\<lparr>p_completed := b\<rparr>) = progress_ok p"
  by (simp_all add: progress_ok_def cong: option.case_cong)

definition request_ok :: "channel \<Rightarrow> bool" where
  "request_ok c \<longleftrightarrow> (case c_request c of None \<Rightarrow> True | Some p \<Rightarrow> progress_ok p \<and> \<not> p_completed p)"

lemma replicate_concat: "concat (replicate j s) @ concat (replicate k s) = concat (replicate (j + k) s)"
  by (simp add: replicate_add)

lemma queue_request_fields:
  "c_sched (queue_request c) = c_sched c" "c_socket (queue_request c) = c_socket c"
  "channel_inv (queue_request c) = channel_inv c" "c_adj (queue_request c) = c_adj c"
  "c_connected (queue_request c) = c_connected c" "stream (queue_request c) = stream c"
  "prefix (c_requests c) (c_requests (queue_request c))" "c_wire (queue_request c) = c_wire c"
  "c_request (queue_request c) = (case c_request c of None \<Rightarrow> None | Some p \<Rightarrow> if p_completed p then None else Some p)"
  by (auto simp: queue_request_def server_add_task_def Let_def split: option.splits)

lemma queue_request_tasks:
  "c_tasks (queue_request c) = c_tasks c + (if c_requests c = [] \<and> c_requests (queue_request c) \<noteq> [] then 1 else 0)"
  by (auto simp: queue_request_def server_add_task_def Let_def split: option.splits)

lemma queue_request_moves: "channel_inv d \<Longrightarrow> moves d (queue_request d)"
  using queue_request_fields [of d] queue_request_tasks [of d] by (simp add: moves_with_def)

text \<open>The loop of \<^verbatim>\<open>received\<close>: it ends, and it adds interim responses to the stream at most.\<close>

lemma received_loop_moves:
  "channel_inv c \<Longrightarrow> request_ok c \<Longrightarrow> received_loop data c = (e, c') \<Longrightarrow>
   (\<exists>k. moves_with (concat (replicate k continue_line)) c c' \<and> (c_requests c \<noteq> [] \<longrightarrow> k = 0))
   \<and> c_sched c' = c_sched c \<and> e \<noteq> Some Diverges \<and> (e = None \<longrightarrow> request_ok c')"
proof (induction data c arbitrary: e rule: received_loop.induct)
  case (1 data c)
  note eq = received_loop.simps [of data c]
  show ?case
  proof (cases "data = []")
    case True
    then show ?thesis using "1.prems" eq moves_refl by (auto intro!: exI [of _ 0])
  next
    case ne: False
    define p0 where "p0 = (case c_request c of None \<Rightarrow> parser_init | Some p \<Rightarrow> p)"
    have p0: "progress_ok p0" "\<not> p_completed p0"
      using "1.prems"(2) by (auto simp: p0_def request_ok_def progress_ok_init split: option.splits)
    obtain r p where r: "parser_received (c_adj c) p0 data = (r, p)" by fastforce
    show ?thesis
    proof (cases r)
      case (Inl x)
      then have "e = Some x" "c' = c\<lparr>c_request := Some p\<rparr>"
        using "1.prems"(3) eq ne r by (simp_all add: p0_def [symmetric])
      moreover have "x \<noteq> Diverges" using parser_received_exn r Inl by blast
      ultimately show ?thesis using moves_refl [OF "1.prems"(1)] by (auto intro!: exI [of _ 0])
    next
      case (Inr n)
      note pp = parser_received_progress [OF p0(1) r [unfolded Inr] p0(2)]
      let ?c0 = "c\<lparr>c_request := Some p\<rparr>"
      obtain e1 c1 where m: "maybe_continue ?c0 = (e1, c1)" by fastforce
      have i0: "channel_inv ?c0" using "1.prems"(1) by simp
      have m1: "(\<exists>k. moves_with (concat (replicate k continue_line)) c c1 \<and> (c_requests c \<noteq> [] \<longrightarrow> k = 0))
        \<and> c_sched c1 = c_sched c \<and> e1 \<noteq> Some Diverges
        \<and> (e1 = None \<longrightarrow> (\<exists>q. c_request c1 = Some q \<and> (q = p \<or> (q = p\<lparr>p_expect_continue := False, p_completed := False\<rparr> \<and> p_expect_continue p))))"
      proof (cases "wants_continue ?c0 \<and> c_requests ?c0 = []")
        case False
        then show ?thesis using m moves_refl [OF "1.prems"(1)] by (auto simp: maybe_continue_def intro!: exI [of _ 0])
      next
        case True
        then have s: "send_continue ?c0 = (e1, c1)" and rq: "c_requests c = []" using m by (simp_all add: maybe_continue_def)
        have "moves_with continue_line ?c0 c1 \<and> c_sched c1 = c_sched ?c0 \<and> e1 \<noteq> Some Diverges \<and>
          c_request c1 = map_option (\<lambda>p. (if e1 = None then p\<lparr>p_expect_continue := False, p_completed := False\<rparr>
            else p\<lparr>p_expect_continue := False\<rparr>)) (c_request ?c0)"
          using send_continue_moves [OF i0 _ s] send_continue_dead [OF i0 _ s] by (cases "c_socket ?c0") auto
        moreover have "moves_with continue_line c c1" if "moves_with continue_line ?c0 c1"
          using that by (simp add: moves_with_def)
        moreover have "p_expect_continue p" using True by (simp add: wants_continue_def)
        ultimately show ?thesis using rq by (auto intro!: exI [of _ 1])
      qed
      then obtain k where k: "moves_with (concat (replicate k continue_line)) c c1" "c_requests c \<noteq> [] \<longrightarrow> k = 0" by blast
      show ?thesis
      proof (cases e1)
        case (Some x)
        then have "e = Some x" "c' = c1" using "1.prems"(3) eq ne r Inr m by (simp_all add: p0_def [symmetric])
        with k m1 Some show ?thesis by auto
      next
        case None
        then obtain q where q: "c_request c1 = Some q"
          "q = p \<or> (q = p\<lparr>p_expect_continue := False, p_completed := False\<rparr> \<and> p_expect_continue p)"
          using m1 by blast
        define c2 where "c2 = queue_request c1"
        have k2: "moves_with (concat (replicate k continue_line)) c c2" using moves_with_trans [OF k(1) queue_request_moves [OF moves_inv [OF k(1)]]] by (simp add: c2_def)
        have pq: "progress_ok q" using pp q(2) by auto
        have r2: "c_request c2 = (if p_completed q then None else Some q)" using queue_request_fields(9) [of c1] q(1) by (simp add: c2_def)
        then have ok2: "request_ok c2" using pq by (simp add: request_ok_def)
        have s2: "c_sched c2 = c_sched c" using m1 queue_request_fields(1) [of c1] by (simp add: c2_def)
        have step: "received_loop data c = (if int (length data) \<le> n then (None, c2)
           else if 0 < n \<or> (n = 0 \<and> request_rank c2 < request_rank c) then received_loop (drop (nat n) data) c2
           else (Some Diverges, c2))"
          using eq ne r Inr m None by (simp add: p0_def [symmetric] c2_def Let_def)
        note step = "1.prems"(3) [unfolded step]
        show ?thesis
        proof (cases "int (length data) \<le> n")
          case True
          with step k2 k(2) s2 ok2 show ?thesis by auto
        next
          case lt: False
          have g: "0 < n \<or> (n = 0 \<and> request_rank c2 < request_rank c)"
          proof (cases "0 < n")
            case False
            with pp ne have n: "n = 0" "p_completed p" "p_body_rcv p0 \<noteq> None" "p_expect_continue p = p_expect_continue p0"
              by auto
            have "p_body_rcv parser_init = None" by (simp add: parser_init_def)
            then have "c_request c = Some p0" using n(3) by (auto simp: p0_def split: option.splits)
            then have "request_rank c2 < request_rank c" using q(2) n r2 by (auto simp: request_rank_def)
            with n show ?thesis by simp
          qed simp
          then have "received_loop (drop (nat n) data) c2 = (e, c')" using step lt by simp
          note ih = "1.IH" [OF ne r [unfolded p0_def, symmetric] Inr m [symmetric] None c2_def lt g moves_inv [OF k2] ok2 this]
          then obtain j where j: "moves_with (concat (replicate j continue_line)) c2 c'" "c_requests c2 \<noteq> [] \<longrightarrow> j = 0"
            by blast
          have "moves_with (concat (replicate (k + j) continue_line)) c c'"
            using moves_with_trans [OF k2 j(1)] by (simp add: replicate_concat)
          moreover have "c_requests c \<noteq> [] \<longrightarrow> k + j = 0"
            using k k2 j(2) by (auto simp: moves_with_def prefix_def)
          ultimately show ?thesis using ih s2 by metis
        qed
      qed
    qed
  qed
qed

end
