(* ===== verification/Delivery.thy ===== *)
theory Delivery
  imports Channel
begin

text \<open>
  What a channel promises to the tasks that write to it: the contract \<open>channel_writer\<close> of
  \<open>Response\<close>, proved for \<^const>\<open>write_soon\<close> whatever the main thread and the socket do in between, and
  what follows for whole responses.
\<close>

subsection \<open>The main thread between two steps of the worker\<close>

definition channel_ok :: "channel \<Rightarrow> bool" where
  "channel_ok c \<longleftrightarrow> channel_inv c \<and> (c_socket c \<longrightarrow> request_ok c)"

definition interim :: "nat \<Rightarrow> bytes" where
  "interim k = concat (replicate k continue_line)"

lemma interim_simps [simp]: "interim 0 = []" "interim j @ interim k = interim (j + k)"
  by (simp_all add: interim_def replicate_concat)

text \<open>Bytes and requests move as in \<^const>\<open>moves_with\<close>; interim responses only while no request waits.\<close>

definition advances :: "channel \<Rightarrow> channel \<Rightarrow> bool" where
  "advances c c' \<longleftrightarrow> channel_ok c' \<and> (\<exists>k. moves_with (interim k) c c' \<and> (c_requests c \<noteq> [] \<longrightarrow> k = 0))"

lemma advances_refl: "channel_ok c \<Longrightarrow> advances c c"
  using moves_refl by (auto simp: advances_def channel_ok_def intro!: exI [of _ 0])

lemma advances_trans:
  assumes "advances a b" "advances b c"
  shows "advances a c"
proof -
  obtain j k where j: "moves_with (interim j) a b" "c_requests a \<noteq> [] \<longrightarrow> j = 0"
    and k: "moves_with (interim k) b c" "c_requests b \<noteq> [] \<longrightarrow> k = 0"
    using assms unfolding advances_def by blast
  have "c_requests a \<noteq> [] \<longrightarrow> c_requests b \<noteq> []" using j(1) by (auto simp: moves_with_def)
  with j(2) k(2) have "c_requests a \<noteq> [] \<longrightarrow> j + k = 0" by simp
  moreover have "moves_with (interim (j + k)) a c" using moves_with_trans [OF j(1) k(1)] by simp
  ultimately show ?thesis using assms(2) unfolding advances_def by blast
qed

lemma advances_moves: "advances c c' \<Longrightarrow> c_requests c \<noteq> [] \<Longrightarrow> moves c c'"
  by (auto simp: advances_def)

lemma moves_advances: "moves c c' \<Longrightarrow> (c_socket c' \<longrightarrow> request_ok c') \<Longrightarrow> advances c c'"
  by (auto simp: advances_def channel_ok_def dest: moves_inv intro!: exI [of _ 0])

lemma request_ok_upd [simp]:
  "request_ok (c\<lparr>c_last_activity := n\<rparr>) = request_ok c" "request_ok (c\<lparr>c_will_close := b\<rparr>) = request_ok c"
  "request_ok (c\<lparr>c_sched := s\<rparr>) = request_ok c" "request_ok (c\<lparr>c_now := n\<rparr>) = request_ok c"
  "request_ok (c\<lparr>c_triggers := n\<rparr>) = request_ok c" "request_ok (c\<lparr>c_requests := rs\<rparr>) = request_ok c"
  "request_ok (c\<lparr>c_close_when_flushed := b\<rparr>) = request_ok c" "request_ok (c\<lparr>c_tasks := n\<rparr>) = request_ok c"
  "request_ok (c\<lparr>c_current_outbuf_count := k\<rparr>) = request_ok c"
  by (simp_all add: request_ok_def)

lemma request_ok_same: "c_request c = c_request d \<Longrightarrow> request_ok c = request_ok d"
  by (simp add: request_ok_def)

lemma channel_ok_upd [simp]:
  "channel_ok (c\<lparr>c_last_activity := n\<rparr>) = channel_ok c" "channel_ok (c\<lparr>c_will_close := b\<rparr>) = channel_ok c"
  "channel_ok (c\<lparr>c_sched := s\<rparr>) = channel_ok c" "channel_ok (c\<lparr>c_now := n\<rparr>) = channel_ok c"
  "channel_ok (c\<lparr>c_triggers := n\<rparr>) = channel_ok c" "channel_ok (c\<lparr>c_requests := rs\<rparr>) = channel_ok c"
  "channel_ok (c\<lparr>c_close_when_flushed := b\<rparr>) = channel_ok c" "channel_ok (c\<lparr>c_tasks := n\<rparr>) = channel_ok c"
  "channel_ok (c\<lparr>c_current_outbuf_count := k\<rparr>) = channel_ok c"
  by (simp_all add: channel_ok_def)

lemma moves_from_upd [simp]:
  "moves_with s (c\<lparr>c_last_activity := n\<rparr>) d = moves_with s c d" "moves_with s (c\<lparr>c_will_close := b\<rparr>) d = moves_with s c d"
  "moves_with s (c\<lparr>c_sched := sc\<rparr>) d = moves_with s c d" "moves_with s (c\<lparr>c_triggers := m\<rparr>) d = moves_with s c d"
  "moves_with s (c\<lparr>c_now := n\<rparr>) d = moves_with s c d"
  "moves_with s (c\<lparr>c_current_outbuf_count := i\<rparr>) d = moves_with s c d"
  by (simp_all add: moves_with_def)

lemma advances_upd [simp]:
  "advances (c\<lparr>c_sched := sc\<rparr>) d = advances c d" "advances (c\<lparr>c_triggers := m\<rparr>) d = advances c d"
  "advances (c\<lparr>c_current_outbuf_count := i\<rparr>) d = advances c d"
  "advances c (d\<lparr>c_sched := sc\<rparr>) = advances c d" "advances c (d\<lparr>c_triggers := m\<rparr>) = advances c d"
  "advances c (d\<lparr>c_will_close := b\<rparr>) = advances c d" "advances c (d\<lparr>c_current_outbuf_count := i\<rparr>) = advances c d"
  "advances c (d\<lparr>c_last_activity := n\<rparr>) = advances c d" "advances c (d\<lparr>c_now := n\<rparr>) = advances c d"
  by (simp_all add: advances_def)

lemma close_advances: "channel_ok c \<Longrightarrow> advances c (handle_close c)"
  by (rule moves_advances [OF handle_close_moves]) (simp_all add: channel_ok_def handle_close_def)

lemma received_advances:
  assumes "channel_ok c" "c_socket c" and r: "received data c = (e, c')"
  shows "advances c (case e of None \<Rightarrow> c' | Some x \<Rightarrow> handle_close c') \<and> e \<noteq> Some Diverges \<and> c_sched c' = c_sched c"
proof (cases "data = [] \<or> c_will_close c \<or> c_close_when_flushed c")
  case True
  then have "e = None" "c' = c" using r by (auto simp: received_def split: if_splits)
  then show ?thesis using advances_refl [OF assms(1)] by simp
next
  case False
  then have "received_loop data c = (e, c')" using r by (simp add: received_def)
  note l = received_loop_moves [OF _ _ this]
  have i: "channel_inv c" "request_ok c" using assms by (simp_all add: channel_ok_def)
  from l [OF i] obtain k where k: "moves_with (interim k) c c'" "c_requests c \<noteq> [] \<longrightarrow> k = 0"
    by (auto simp: interim_def)
  show ?thesis
  proof (cases e)
    case None
    then show ?thesis using k l [OF i] moves_inv [OF k(1)] by (auto simp: advances_def channel_ok_def)
  next
    case (Some x)
    have "moves_with (interim k) c (handle_close c')"
      using moves_with_trans [OF k(1) handle_close_moves [OF moves_inv [OF k(1)]]] by simp
    moreover have "channel_ok (handle_close c')"
      using handle_close_moves [OF moves_inv [OF k(1)]] by (simp add: channel_ok_def moves_with_def handle_close_def)
    ultimately show ?thesis using Some k(2) l [OF i] by (auto simp: advances_def)
  qed
qed

lemma handle_read_advances:
  assumes "channel_ok c" "c_socket c" and r: "handle_read rv c = (e, c')"
  shows "advances c (case e of None \<Rightarrow> c' | Some x \<Rightarrow> handle_close c') \<and> e \<noteq> Some Diverges \<and> c_sched c' = c_sched c"
proof -
  have hc: "(handle_close c)\<lparr>c_connected := False\<rparr> = handle_close c" "c_sched (handle_close c) = c_sched c"
    by (simp_all add: handle_close_def)
  note closed = close_advances [OF assms(1)]
  show ?thesis
  proof (cases rv)
    case (Recv d)
    let ?data = "take (nat (adj_recv_bytes (c_adj c))) d"
    show ?thesis
    proof (cases "?data = []")
      case True
      then show ?thesis using r Recv hc closed by (auto simp: handle_read_def)
    next
      case False
      then have "received ?data (c\<lparr>c_last_activity := c_now c\<rparr>) = (e, c')"
        using r Recv by (simp add: handle_read_def Let_def)
      from received_advances [OF _ _ this] assms show ?thesis by (simp add: advances_def)
    qed
  qed (use r hc closed in \<open>auto simp: handle_read_def\<close>)
qed

lemma flush_exception_dead:
  assumes "channel_inv c" "\<not> c_socket c" and f: "flush_exception do_close c = (fl, exc, c')"
  shows "moves c c' \<and> \<not> c_socket c' \<and> c_connected c' = c_connected c \<and> c_sched c' = c_sched c"
proof -
  obtain x sent c1 where l: "flush_loop do_close 0 (case c_outbufs c of [] \<Rightarrow> 0 | b # bs \<Rightarrow> out_len b) c = (x, sent, c1)"
    by (metis prod_cases3)
  have "c_outbufs c \<noteq> []" "writable_outbuf (last (c_outbufs c))" using assms(1) by (simp_all add: channel_inv_def)
  note d = flush_loop_dead [OF assms(2) this l]
  have "moves c c1" using d assms(1,2) by (simp add: moves_with_def channel_inv_def stream_def)
  moreover have "c' = c1 \<or> c' = c1\<lparr>c_last_activity := c_now c1\<rparr> \<or> c' = c1\<lparr>c_will_close := True\<rparr>"
    using f l by (cases x) (auto simp: flush_exception_def flush_some_def split: if_splits)
  ultimately show ?thesis using d by auto
qed

lemma handle_write_dead:
  assumes "channel_inv c" "\<not> c_socket c"
  shows "moves c (handle_write lk c) \<and> \<not> c_socket (handle_write lk c)"
proof -
  obtain fl exc c1 where f: "flush_exception True c = (fl, exc, c1)" by (metis prod_cases3)
  note d = flush_exception_dead [OF assms f]
  define flush where "flush = (if c_requests c = [] then True
                   else if adj_send_bytes (c_adj c) \<le> c_total_outbufs_len c then lk else False)"
  define c2 where "c2 = (if flush then c1 else c)"
  define c3 where "c3 = (if c_close_when_flushed c2 \<and> c_total_outbufs_len c2 = 0
                then c2\<lparr>c_close_when_flushed := False, c_will_close := True\<rparr> else c2)"
  have m3: "moves c c3" "\<not> c_socket c3" using d moves_refl [OF assms(1)] assms(2) by (simp_all add: c2_def c3_def)
  have "handle_write lk c = (if c_will_close c3 then handle_close c3 else c3)"
    using f by (simp add: handle_write_def Let_def flush_def [symmetric] c2_def c3_def)
  then show ?thesis using m3 moves_trans [OF m3(1) handle_close_moves [OF moves_inv [OF m3(1)]]]
    by (simp add: handle_close_def)
qed

lemma main_step_advances:
  assumes "channel_ok c"
  shows "advances c (main_step ev c)"
proof (cases ev)
  case (PollRead r)
  obtain e c1 where h: "handle_read r c = (e, c1)" by fastforce
  show ?thesis
    using PollRead h advances_refl [OF assms] handle_read_advances [OF assms _ h] by (cases e) auto
next
  case (PollWrite lk)
  show ?thesis
  proof (cases "c_socket c")
    case True
    then have m: "moves c (handle_write lk c)" using handle_write_moves assms by (simp add: channel_ok_def)
    obtain fl exc c1 where f: "flush_exception True c = (fl, exc, c1)" by (metis prod_cases3)
    have "c_request (handle_write lk c) = c_request c"
      using flush_exception_moves [OF _ _ f] True assms f
      by (simp add: handle_write_def Let_def channel_ok_def handle_close_def)
    moreover have "c_socket (handle_write lk c) \<longrightarrow> c_socket c" using m by (simp add: moves_with_def)
    ultimately have "c_socket (handle_write lk c) \<longrightarrow> request_ok (handle_write lk c)"
      using assms request_ok_same by (metis channel_ok_def)
    then show ?thesis using moves_advances [OF m] PollWrite True by simp
  qed (use PollWrite advances_refl [OF assms] in auto)
next
  case (LateWrite lk)
  have "channel_inv c" using assms by (simp add: channel_ok_def)
  from handle_write_dead [OF this, of lk] LateWrite show ?thesis
    using advances_refl [OF assms] moves_advances by simp
qed (use advances_refl [OF assms] close_advances [OF assms] in simp_all)

lemma main_steps_advances: "channel_ok c \<Longrightarrow> advances c (main_steps evs c)"
proof (induction evs arbitrary: c)
  case (Cons ev evs)
  have a: "advances c (main_step ev c)" using main_step_advances [OF Cons.prems] .
  then have "channel_ok (main_step ev c)" by (simp add: advances_def)
  from advances_trans [OF a Cons.IH [OF this]] show ?case by (simp add: main_steps_def)
qed (simp add: main_steps_def advances_refl)

lemma interleave_advances: "channel_ok c \<Longrightarrow> advances c (interleave c)"
  using main_steps_advances [of "c\<lparr>c_sched := s\<rparr>" for s]
  by (auto simp: interleave_def advances_refl split: list.split)

lemma wait_outbuf_advances: "channel_ok c \<Longrightarrow> advances c (wait_outbuf c)"
  using main_steps_advances [of "c\<lparr>c_sched := s\<rparr>" for s] main_step_advances [of c PollError]
  by (auto simp: wait_outbuf_def split: list.split)

lemma wait_below_advances: "channel_ok c \<Longrightarrow> advances c (wait_below s c)"
proof (induction s arbitrary: c)
  case Nil
  then show ?case
    using main_step_advances [of "pull_trigger (c\<lparr>c_sched := []\<rparr>)" PollError] advances_refl [OF Nil]
    by (simp add: pull_trigger_def del: main_step.simps)
next
  case (Cons evs s)
  let ?d = "main_steps evs (pull_trigger c)"
  have "channel_ok (pull_trigger c)" using Cons.prems by (simp add: pull_trigger_def)
  from main_steps_advances [OF this, of evs] have a: "advances c ?d" by (simp add: pull_trigger_def)
  then have "advances ?d (wait_below s ?d)" using Cons.IH by (simp add: advances_def)
  with a have "advances c (wait_below s ?d)" by (rule advances_trans)
  then show ?case using advances_refl [OF Cons.prems] by simp
qed

lemma flush_exception_advances:
  assumes "channel_ok c" and f: "flush_exception False c = (fl, exc, c')"
  shows "advances c c' \<and> moves c c' \<and> c_socket c' = c_socket c \<and> c_connected c' = c_connected c"
proof (cases "c_socket c")
  case True
  then have i: "channel_inv c" "request_ok c" using assms by (simp_all add: channel_ok_def)
  note m = flush_exception_moves [OF i(1) True f]
  then have "request_ok c'" using i(2) request_ok_same by metis
  with m True show ?thesis using moves_advances by auto
next
  case False
  have "channel_inv c" using assms(1) by (simp add: channel_ok_def)
  from flush_exception_dead [OF this False f] False show ?thesis using moves_advances by auto
qed

lemma flush_below_advances:
  assumes "channel_ok c"
  shows "advances c (flush_outbufs_below_high_watermark c)"
proof (cases "above_watermark c")
  case True
  obtain fl exc c1 where f: "flush_exception False c = (fl, exc, c1)" by (metis prod_cases3)
  note a = conjunct1 [OF flush_exception_advances [OF assms f]]
  then have "channel_ok c1" by (simp add: advances_def)
  then have "advances c1 (wait_outbuf (pull_trigger c1))" "advances c1 (wait_below (c_sched c1) c1)"
    using wait_outbuf_advances [of "pull_trigger c1"] wait_below_advances by (simp_all add: pull_trigger_def)
  then show ?thesis using True f advances_trans [OF a]
    by (simp add: flush_outbufs_below_high_watermark_def)
qed (simp add: flush_outbufs_below_high_watermark_def advances_refl [OF assms(1)])

subsection \<open>write_soon\<close>

lemma wrote_soon_eq:
  "wrote_soon n c = (let c1 = c\<lparr>c_total_outbufs_len := c_total_outbufs_len c + n\<rparr> in
     if adj_send_bytes (c_adj c) \<le> c_total_outbufs_len c + n
     then case flush_exception False c1 of (fl, exc, c2) \<Rightarrow>
            c2\<lparr>c_triggers := c_triggers c2 + (if exc \<or> \<not> fl \<or> adj_send_bytes (c_adj c2) \<le> c_total_outbufs_len c2 then 1 else 0)\<rparr>
     else c1)"
  by (simp add: wrote_soon_def Let_def pull_trigger_def split: prod.split)

lemma wrote_soon_moves:
  assumes "channel_ok c" "c_socket c"
    and m: "moves_with d c (c'\<lparr>c_total_outbufs_len := c_total_outbufs_len c' + n\<rparr>)"
    and "c_socket c'" "c_connected c' = c_connected c" "c_request c' = c_request c"
  shows "channel_ok (wrote_soon n c') \<and> moves_with d c (wrote_soon n c') \<and> c_socket (wrote_soon n c')
    \<and> c_connected (wrote_soon n c') = c_connected c"
proof -
  let ?c1 = "c'\<lparr>c_total_outbufs_len := c_total_outbufs_len c' + n\<rparr>"
  have ok: "channel_ok ?c1" "c_socket ?c1"
    using assms moves_inv [OF m] request_ok_same [of c ?c1] by (simp_all add: channel_ok_def)
  obtain fl exc c2 where f: "flush_exception False ?c1 = (fl, exc, c2)" by (metis prod_cases3)
  note a = flush_exception_advances [OF ok(1) f]
  have "moves_with d c c2" using moves_with_trans [OF m, of "[]" c2] a by simp
  then show ?thesis using f a m ok assms(4,5) by (auto simp: wrote_soon_eq Let_def advances_def)
qed

lemma rotated:
  assumes "channel_ok c" "c_socket c"
  obtains bs b where "c_outbufs (rotate_outbuf c) = bs @ [OB b]" "channel_ok (rotate_outbuf c)"
    and "moves c (rotate_outbuf c)" "c_socket (rotate_outbuf c)" "c_connected (rotate_outbuf c) = c_connected c"
    and "c_request (rotate_outbuf c) = c_request c"
proof -
  let ?r = "rotate_outbuf c"
  have i: "channel_inv c" "request_ok c" using assms by (simp_all add: channel_ok_def)
  have f: "c_socket ?r" "c_connected ?r = c_connected c" "c_request ?r = c_request c"
    using assms(2) by (simp_all add: rotate_outbuf_def)
  have m: "moves c ?r"
  proof (cases "adj_outbuf_high_watermark (c_adj c) \<le> c_current_outbuf_count c")
    case True
    have "list_all out_wf (c_outbufs c)" using i(1) assms(2) by (simp add: channel_inv_def buffers_ok_def)
    moreover have "out_wf (new_outbuf c)" "out_content (new_outbuf c) = []"
      by (simp_all add: new_outbuf_def)
    ultimately show ?thesis using True assms(2)
      by (intro grow_moves [OF i(1)]) (simp_all add: rotate_outbuf_def pending_def new_outbuf_def)
  next
    case False
    then show ?thesis using moves_refl [OF i(1)] by (simp add: rotate_outbuf_def)
  qed
  have "channel_ok ?r" using moves_inv [OF m] i(2) f request_ok_same [of c ?r] by (simp add: channel_ok_def)
  moreover from append_last_ok [OF moves_inv [OF m]] obtain bs b where "c_outbufs ?r = bs @ [OB b]" by metis
  ultimately show thesis using that m f by blast
qed

lemma write_data_moves:
  assumes "channel_ok c" "c_socket c" and w: "write_data d c = (r, c')"
  shows "r = Inr (int (length d)) \<and> channel_ok c' \<and> moves_with d c c' \<and> c_socket c' \<and> c_connected c' = c_connected c"
proof -
  obtain bs b where o: "c_outbufs (rotate_outbuf c) = bs @ [OB b]" and ok: "channel_ok (rotate_outbuf c)"
    and m: "moves c (rotate_outbuf c)" "c_socket (rotate_outbuf c)" "c_connected (rotate_outbuf c) = c_connected c"
    using rotated [OF assms(1,2)] by metis
  let ?r = "rotate_outbuf c"
  have i: "channel_inv ?r" using ok by (simp add: channel_ok_def)
  have a: "append_last d ?r = (None, ?r\<lparr>c_outbufs := bs @ [OB (ob_append b d)]\<rparr>)"
    by (simp add: append_last_def o)
  define c2 where "c2 = ?r\<lparr>c_outbufs := bs @ [OB (ob_append b d)],
    c_current_outbuf_count := c_current_outbuf_count ?r + int (length d)\<rparr>"
  have w2: "r = Inr (int (length d))" "c' = wrote_soon (int (length d)) c2"
    using w by (simp_all add: write_data_def a c2_def)
  have m2: "moves_with d ?r (c2\<lparr>c_total_outbufs_len := c_total_outbufs_len c2 + int (length d)\<rparr>)"
    by (rule appended_moves [OF i m(2) o]) (use m(2) in \<open>simp_all add: c2_def\<close>)
  have "c_socket c2" "c_connected c2 = c_connected ?r" "c_request c2 = c_request ?r"
    using m(2) by (simp_all add: c2_def)
  note x = wrote_soon_moves [OF ok m(2) m2 this]
  then show ?thesis using w2 m moves_with_trans [OF m(1), of d c'] by simp
qed

lemma write_file_moves:
  assumes "channel_ok c" "c_socket c" and f: "out_wf (RO f)" and w: "write_file f c = (r, c')"
  shows "r = Inr (ro_remain f) \<and> channel_ok c' \<and> moves_with (out_content (RO f)) c c' \<and> c_socket c'
    \<and> c_connected c' = c_connected c"
proof -
  have i: "channel_inv c" using assms(1) by (simp add: channel_ok_def)
  define c2 where "c2 = c\<lparr>c_outbufs := c_outbufs c @ [RO f, new_outbuf c], c_current_outbuf_count := 0\<rparr>"
  have len: "out_len (RO f) = int (length (out_content (RO f)))" using out_len_content [OF f] .
  have w2: "r = Inr (ro_remain f)" "c' = wrote_soon (ro_remain f) c2"
    using w len by (simp_all add: write_file_def c2_def)
  have bs: "list_all out_wf (c_outbufs c)" using i assms(2) by (simp add: channel_inv_def buffers_ok_def)
  have new: "out_wf (new_outbuf c)" "out_content (new_outbuf c) = []"
    by (simp_all add: new_outbuf_def)
  have m2: "moves_with (out_content (RO f)) c (c2\<lparr>c_total_outbufs_len := c_total_outbufs_len c2 + ro_remain f\<rparr>)"
    by (rule grow_moves [OF i assms(2)])
      (use assms(2) bs new f len in \<open>simp_all add: c2_def pending_def new_outbuf_def\<close>)
  have "c_socket c2" "c_connected c2 = c_connected c" "c_request c2 = c_request c"
    using assms(2) by (simp_all add: c2_def)
  from wrote_soon_moves [OF assms(1,2) m2 this] show ?thesis using w2 by simp
qed

text \<open>The states of the channel while a worker runs the task that it began in the state \<open>c0\<close>.\<close>

definition serving :: "channel \<Rightarrow> channel \<Rightarrow> bool" where
  "serving c0 c \<longleftrightarrow> channel_ok c \<and> c_requests c0 \<noteq> [] \<and> prefix (c_requests c0) (c_requests c) \<and>
     c_adj c = c_adj c0 \<and> c_tasks c = c_tasks c0 \<and> (c_connected c \<longrightarrow> c_connected c0)"

lemma serving_start: "channel_ok c \<Longrightarrow> c_requests c \<noteq> [] \<Longrightarrow> serving c c"
  by (simp add: serving_def)

lemma serving_ok: "serving c0 c \<Longrightarrow> channel_ok c" "serving c0 c \<Longrightarrow> c_requests c \<noteq> []"
  by (auto simp: serving_def)

lemma moves_serving:
  assumes "channel_ok c'" "moves_with s c c'" "serving c0 c"
  shows "serving c0 c'"
  using assms serving_ok(2) [OF assms(3)] by (auto simp: serving_def moves_with_def intro: prefix_order.trans)

lemma advances_serving: "advances c c' \<Longrightarrow> serving c0 c \<Longrightarrow> serving c0 c' \<and> moves c c'"
  using advances_moves moves_serving serving_ok(2) by (metis advances_def)

text \<open>What \<^const>\<open>write_soon\<close> does before it writes: the channel is lost, or it may write.\<close>

definition write_ready :: "outdata \<Rightarrow> channel \<Rightarrow> channel" where
  "write_ready d c0 =
     (let c = interleave c0 in if \<not> c_connected c \<or> d = Data [] then c else flush_outbufs_below_high_watermark c)"

lemma write_soon_eq:
  "write_soon c d =
     (let c1 = write_ready d c
      in if \<not> c_connected c1 then (Inl ClientDisconnected, c1)
         else case d of Data b \<Rightarrow> if b = [] then (Inr 0, c1) else write_data b c1 | FileData f \<Rightarrow> write_file f c1)"
  by (cases d) (simp_all add: write_soon_def write_ready_def Let_def)

lemma connected_socket: "channel_ok c \<Longrightarrow> c_connected c \<Longrightarrow> c_socket c"
  by (auto simp: channel_ok_def channel_inv_def split: if_splits)

lemma write_ready_moves:
  assumes "serving c0 c"
  shows "serving c0 (write_ready d c) \<and> moves c (write_ready d c)"
proof -
  have ok: "channel_ok c" using assms by (simp add: serving_ok)
  have a: "advances c (interleave c)" using interleave_advances [OF ok] .
  have "advances c (write_ready d c)"
  proof (cases "c_connected (interleave c) \<and> d \<noteq> Data []")
    case True
    then have "advances (interleave c) (flush_outbufs_below_high_watermark (interleave c))"
      using flush_below_advances a by (metis advances_def)
    then show ?thesis using True advances_trans [OF a] by (simp add: write_ready_def)
  qed (use a in \<open>auto simp: write_ready_def\<close>)
  then show ?thesis using advances_serving assms by blast
qed

lemma moves_lost: "moves_with s c c' \<Longrightarrow> \<not> c_connected c \<Longrightarrow> \<not> c_connected c'"
  by (auto simp: moves_with_def)

lemma write_soon_cases:
  assumes "serving c0 c" "out_ready d" and w: "write_soon c d = (r, c')"
  shows "serving c0 c' \<and>
    ((\<exists>n. r = Inr n \<and> c_connected c \<and> c_connected c' \<and> moves_with (out_bytes d) c c')
     \<or> (r = Inl ClientDisconnected \<and> \<not> c_connected c' \<and> moves c c'))"
proof -
  let ?c1 = "write_ready d c"
  have 1: "serving c0 ?c1" "moves c ?c1" using write_ready_moves [OF assms(1)] by simp_all
  show ?thesis
  proof (cases "c_connected ?c1")
    case False
    then have "r = Inl ClientDisconnected" "c' = ?c1" using w by (simp_all add: write_soon_eq)
    then show ?thesis using 1 False by simp
  next
    case True
    have ok: "channel_ok ?c1" "c_socket ?c1" using 1(1) connected_socket True by (simp_all add: serving_ok)
    have conn: "c_connected c" using moves_lost [OF 1(2)] True by blast
    have "\<exists>n. r = Inr n \<and> channel_ok c' \<and> moves_with (out_bytes d) ?c1 c' \<and> c_connected c' = c_connected ?c1"
    proof (cases d)
      case (Data b)
      then have "write_data b ?c1 = (r, c')" using w True assms(2) by (simp add: write_soon_eq)
      from write_data_moves [OF ok this] show ?thesis by (simp add: Data)
    next
      case (FileData f)
      then have "write_file f ?c1 = (r, c')" using w True by (simp add: write_soon_eq)
      from write_file_moves [OF ok _ this] show ?thesis using assms(2) by (simp add: FileData)
    qed
    then obtain n where n: "r = Inr n" "channel_ok c'" "moves_with (out_bytes d) ?c1 c'" "c_connected c'"
      using True by auto
    have "moves_with (out_bytes d) c c'" using moves_with_trans [OF 1(2) n(3)] by simp
    with n conn show ?thesis using moves_serving [OF n(2) _ assms(1)] by blast
  qed
qed

lemma write_soon_rejects:
  assumes "serving c0 c" "ro_remain f < 0" and w: "write_soon c (FileData f) = (r, c')"
  shows "(\<exists>e. r = Inl e) \<and> serving c0 c' \<and> moves c c'"
  using write_ready_moves [OF assms(1), of "FileData f"] w assms(2)
  by (auto simp: write_soon_eq write_file_def Let_def split: if_splits)

lemma moves_stream:
  assumes "moves_with s c c'" "channel_ok c'"
  shows "prefix (stream c') (stream c @ s)" "c_connected c' \<Longrightarrow> c_connected c \<and> stream c' = stream c @ s"
  using assms connected_socket [OF assms(2)] by (auto simp: moves_with_def)

text \<open>The contract that the tasks rely on, kept by the channel.\<close>

interpretation writer: channel_writer write_soon stream c_connected "serving c0" for c0
proof (unfold_locales, goal_cases)
  case (1 c f r c')
  from write_soon_rejects [OF 1] moves_stream [of "[]" c c'] show ?case by (auto simp: serving_def)
next
  case (2 c d n c')
  from write_soon_cases [OF 2] moves_stream [of "out_bytes d" c c'] show ?case by (auto simp: serving_def)
next
  case (3 c d e c')
  from write_soon_cases [OF 3] moves_stream [of "[]" c c'] show ?case by (auto simp: serving_def)
qed

end
