(* ===== verification/Service.thy ===== *)
theory Service
  imports Delivery
begin

text \<open>
  \<^verbatim>\<open>HTTPChannel.service\<close> as a whole: what one request adds to the stream of its connection, and the
  states that a connection can reach.
\<close>

subsection \<open>Error tasks do not fail\<close>

context channel_writer begin

lemma write_header_raises:
  assumes "response_inv s0 t" "t_complete t" "t_wrote_header t \<or> startable t \<and> \<not> t_chunked_response t"
    and id: "ident_clean ident" and w: "write_header ws ident t = (Some e, t')"
  shows "e = ClientDisconnected \<and> \<not> alive (t_channel t')"
proof -
  from w have h: "\<not> t_wrote_header t" by (auto simp: write_header_def)
  obtain q t1 where b: "build_response_header ident t = (q, t1)" by fastforce
  have q: "q = Inr (head_of t1)"
    using build_response_header_ok [OF _ _ id b] assms(3) h by (auto simp: startable_def)
  obtain r2 t2 where s: "send ws (Data (head_of t1)) t1 = (r2, t2)" by fastforce
  have g: "given s0 [] (t_channel t1)" using assms(1) h build_fields [OF b] by (simp add: response_inv_def)
  have wh: "(Some e, t') = (case r2 of None \<Rightarrow> (None, t2\<lparr>t_wrote_header := True\<rparr>) | Some x \<Rightarrow> (Some x, t2))"
    using w h b q s by (simp add: write_header_def and_then_def split: option.split)
  obtain c' where "t2 = t1\<lparr>t_channel := c'\<rparr>" "r2 = None \<or> (r2 = Some ClientDisconnected \<and> \<not> alive c')"
    using send_given [OF g _ s] by (metis head_of_nonempty out_ready.simps(1))
  with wh show ?thesis by (cases r2) simp_all
qed

lemma write_body_raises:
  assumes "given s0 s (t_channel t)" and w: "write_body ws data t = (Some e, t')"
  shows "e = ClientDisconnected \<and> \<not> alive (t_channel t')"
proof -
  obtain tw t1 where f: "frame_data data t = (tw, t1)" by fastforce
  have c: "t_channel t1 = t_channel t"
    using f by (auto simp: frame_data_def Let_def split: if_splits option.splits)
  have "data \<noteq> []" "has_body t" using w by (simp_all add: write_body_def split: if_splits)
  with w f have "tw \<noteq> []" "send ws (Data tw) t1 = (Some e, t')"
    by (simp_all add: write_body_def split: if_splits)
  moreover have "given s0 s (t_channel t1)" using assms(1) c by simp
  ultimately obtain c' where "t' = t1\<lparr>t_channel := c'\<rparr>" "e = ClientDisconnected" "\<not> alive c'"
    using send_given [of s0 s t1 "Data tw" "Some e" t'] by (metis option.distinct(1) option.inject out_ready.simps(1))
  then show ?thesis by simp
qed

text \<open>An error task ends with its response sent and the connection to be closed, or the client is gone.\<close>

lemma error_service_exact:
  assumes "given s0 [] c" and id: "ident_clean (adj_ident adj)" and e: "p_error req = Some err"
    and resp: "to_response (adj_ident adj) err = (status, hs, body)"
    and w: "task_service ws adj now (error_task_execute ws (adj_ident adj)) (task_init True c req) = (r, t')"
  shows "(r = None \<and> t_close_on_finish t' \<and> framed t' \<and> t_content_length t' = Some (int (length body)) \<and>
           last_value ''Content-Length'' (t_response_headers t') \<noteq> None \<and>
           given s0 (head_of t' @ body) (t_channel t')) \<or>
         (r = Some ClientDisconnected \<and> \<not> alive (t_channel t') \<and>
           (\<exists>s. one_head s \<and> given s0 s (t_channel t')))"
proof -
  obtain r1 t1 where x: "error_task_execute ws (adj_ident adj) ((task_init True c req)\<lparr>t_start_time := now\<rparr>) = (r1, t1)"
    by fastforce
  note ex = error_execute_exact [OF assms(1) id e resp x]
  have r1: "r1 = None \<or> r1 = Some ClientDisconnected \<and> \<not> alive (t_channel t1)"
  proof (cases r1)
    case (Some y)
    note ok = to_response_ok [OF resp]
    define t0 where "t0 = add_response_headers hs ((task_init True c req)\<lparr>t_start_time := now, t_status := status\<rparr>)"
    define t2 where "t2 = (set_close_on_finish t0)\<lparr>t_content_length := Some (int (length body))\<rparr>"
    have "capitalize_header ''Content-Type'' = ''Content-Type''" by code_simp
    then have "startable t0" using ok(1,5)
      by (simp add: t0_def startable_def head_ready_def task_clean_def task_init_def cap_headers_def has_newline_def
          headers_clean_def last_value_Cons)
    moreover have "t_content_length t0 = None" by (simp add: t0_def task_init_def)
    ultimately have st: "startable t2" using startable_length [OF startable_close] by (simp add: t2_def)
    have nf: "t_complete t2" "\<not> t_wrote_header t2" "\<not> t_chunked_response t2"
      by (simp_all add: t2_def t0_def task_init_def)
    have i2: "response_inv s0 t2"
      using assms(1) st nf by (simp add: response_inv_def t2_def t0_def task_init_def)
    have tw: "task_write ws (adj_ident adj) body t2 = (Some y, t1)"
      using x e resp Some by (simp add: error_task_execute_def Let_def t2_def t0_def task_init_def)
    obtain r3 t3 where h: "write_header ws (adj_ident adj) t2 = (r3, t3)" by fastforce
    have "y = ClientDisconnected \<and> \<not> alive (t_channel t1)"
    proof (cases r3)
      case None
      from write_header_exact [OF i2 nf(1,2) id h [unfolded None]]
      have g: "given s0 (head_of t3) (t_channel t3)" by simp
      have "write_body ws body t3 = (Some y, t1)" using tw nf h None by (simp add: task_write_def and_then_def)
      from write_body_raises [OF g this] show ?thesis .
    next
      case (Some z)
      from write_header_raises [OF i2 nf(1) _ id h [unfolded Some]] st nf
      have "z = ClientDisconnected" "\<not> alive (t_channel t3)" by simp_all
      moreover have "y = z" "t1 = t3" using tw nf h Some by (simp_all add: task_write_def and_then_def)
      ultimately show ?thesis by simp
    qed
    with Some show ?thesis by simp
  qed simp
  then show ?thesis
  proof
    assume n: "r1 = None"
    with ex have y: "t_wrote_header t1" "t_close_on_finish t1" "\<not> t_chunked_response t1"
      "t_content_length t1 = Some (int (length body))" "last_value ''Content-Length'' (t_response_headers t1) \<noteq> None"
      "given s0 (head_of t1 @ body) (t_channel t1)" "framed t1"
      by (auto simp: response_inv_def)
    then have "r = None" "t' = t1" using w x n by (simp_all add: task_service_def and_then_def task_finish_def)
    with y show ?thesis by auto
  next
    assume d: "r1 = Some ClientDisconnected \<and> \<not> alive (t_channel t1)"
    then have "r = Some ClientDisconnected" "t' = t1" using w x by (simp_all add: task_service_def and_then_def)
    moreover have "\<exists>s. one_head s \<and> given s0 s (t_channel t1)"
    proof (cases "t_wrote_header t1")
      case True
      with ex show ?thesis using framed_safe by (auto simp: response_inv_def)
    next
      case False
      with ex show ?thesis by (auto simp: response_inv_def one_head_def)
    qed
    ultimately show ?thesis using d by blast
  qed
qed

text \<open>A task that raises before its header was sent has left the stream as it was.\<close>

lemma no_header_no_bytes:
  "sent_inv s0 t \<Longrightarrow> \<not> t_wrote_header t \<Longrightarrow> given s0 [] (t_channel t)"
  by (auto simp: sent_inv_def response_inv_def)

lemma wsgi_service_silent:
  assumes "cwf c" and id: "ident_clean (adj_ident (sv_adj sv))" and files: "\<And>env. files_ok (sv_application sv env)"
    and s: "task_service ws adj now (wsgi_task_execute ws sv) (task_init False c req) = (r, t')"
    and adj: "adj_ident adj = adj_ident (sv_adj sv)" and "\<not> t_wrote_header t'"
  shows "given (stream c) [] (t_channel t')"
proof -
  define t1 where "t1 = (task_init False c req)\<lparr>t_start_time := now\<rparr>"
  have i1: "response_inv (stream c) t1" using passive_inv(1) [OF task_init_inv [OF assms(1)]] by (simp add: t1_def)
  obtain r2 t2 where e: "wsgi_task_execute ws sv t1 = (r2, t2)" by fastforce
  obtain r3 t3 where w: "and_then (r2, t2) (task_finish ws (adj_ident adj)) = (r3, t3)" by fastforce
  have x: "sent_inv (stream c) t2" using wsgi_execute_inv [OF i1 id files e] by simp
  have ser: "(r, t') = (case (r3, t3) of (Some OSError, t1) \<Rightarrow>
      (if adj_log_socket_errors adj then Some OSError else None, t1\<lparr>t_close_on_finish := True\<rparr>) | r \<Rightarrow> r)"
    using s e w by (simp add: task_service_def t1_def [symmetric])
  have same: "t_wrote_header t' = t_wrote_header t3" "t_channel t' = t_channel t3"
    using ser by (simp_all split: option.splits exn.splits)
  show ?thesis
  proof (cases r2)
    case (Some y)
    then have "t3 = t2" using w by (simp add: and_then_def)
    then show ?thesis using no_header_no_bytes [OF x] same assms(6) by simp
  next
    case None
    then have f: "task_finish ws (adj_ident adj) t2 = (r3, t3)" using w by (simp add: and_then_def)
    obtain r4 t4 where b: "(if t_wrote_header t2 then (None, t2) else task_write ws (adj_ident adj) [] t2) = (r4, t4)"
      by fastforce
    note b' = finish_body [OF x _ b]
    have f4: "(r3, t3) = and_then (r4, t4) (\<lambda>t. if t_chunked_response t then send ws (Data (''0'' @ CRLF2)) t else (None, t))"
      using f b by (simp add: task_finish_def)
    have "t_wrote_header t3 = t_wrote_header t4"
      using f4 by (simp add: and_then_def send_def split: option.splits if_splits prod.splits sum.splits)
    then have "\<not> t_wrote_header t4" using same assms(6) by simp
    moreover from this have "r4 \<noteq> None" using b' id adj by auto
    then have "t3 = t4" using f4 by (auto simp: and_then_def)
    ultimately show ?thesis using no_header_no_bytes [of "stream c" t4] b' id adj same by simp
  qed
qed

end

subsection \<open>One request\<close>

text \<open>The channel \<open>c'\<close> has the stream of \<open>c\<close> and \<open>s\<close>, all of it while it is connected.\<close>

definition extends :: "bytes \<Rightarrow> channel \<Rightarrow> channel \<Rightarrow> bool" where
  "extends s c c' \<longleftrightarrow> prefix (stream c') (stream c @ s) \<and> (c_connected c' \<longrightarrow> stream c' = stream c @ s)"

lemma given_extends: "writer.given c0 (stream c) s c' \<longleftrightarrow> serving c0 c' \<and> extends s c c'"
  by (auto simp: writer.given_def extends_def)

lemma extends_quiet: "extends s c c1 \<Longrightarrow> moves c1 c2 \<Longrightarrow> channel_ok c2 \<Longrightarrow> extends s c c2"
  using moves_stream [of "[]" c1 c2] by (auto simp: extends_def intro: prefix_order.trans)

lemma extends_more:
  "extends s c c1 \<Longrightarrow> c_connected c1 \<Longrightarrow> moves_with u c1 c2 \<Longrightarrow> channel_ok c2 \<Longrightarrow> extends (s @ u) c c2"
  using moves_stream [of u c1 c2] by (simp add: extends_def)

lemma closing_fields [simp]:
  "t_channel (closing t) = t_channel t" "t_close_on_finish (closing t)"
  by (simp_all add: closing_def)

text \<open>A task for a request, whatever it raises, gives the stream one response at most.\<close>

lemma error_request_fields [simp]: "p_error (error_request body req) = Some (InternalServerError body)"
  by (simp add: error_request_def)

lemma error_task_spec:
  assumes "serving c0 c1" "extends [] c0 c1" and id: "ident_clean (adj_ident (c_adj c0))" and e: "p_error req = Some err"
    and s: "service_error_task sv req c1 = (r, t')"
  shows "(r = None \<or> r = Some ClientDisconnected) \<and> (r = None \<longrightarrow> t_close_on_finish t') \<and>
    (\<exists>s. one_head s \<and> serving c0 (t_channel t') \<and> extends s c0 (t_channel t'))"
proof -
  have adj: "c_adj c1 = c_adj c0" using assms(1) by (simp add: serving_def)
  have g: "writer.given c0 (stream c0) [] c1" using assms(1,2) by (simp add: given_extends)
  obtain status hs body where resp: "to_response (adj_ident (c_adj c0)) err = (status, hs, body)" by (metis prod_cases3)
  have x: "task_service write_soon (c_adj c0) (c_now c1) (error_task_execute write_soon (adj_ident (c_adj c0)))
      (task_init True c1 req) = (r, t')"
    using s adj by (simp add: service_error_task_def)
  from writer.error_service_exact [OF g id e resp x] consider
      (sent) "r = None" "t_close_on_finish t'" "framed t'" "writer.given c0 (stream c0) (head_of t' @ body) (t_channel t')"
    | (lost) "r = Some ClientDisconnected" "\<exists>s. one_head s \<and> writer.given c0 (stream c0) s (t_channel t')"
    by blast
  then show ?thesis
  proof cases
    case sent
    have "one_head (head_of t' @ body)" using writer.framed_safe [OF sent(3)] .
    then show ?thesis using sent by (auto simp: given_extends)
  next
    case lost
    then show ?thesis by (simp add: given_extends)
  qed
qed

definition app_ok :: "server_info \<Rightarrow> bool" where
  "app_ok sv \<longleftrightarrow> ident_clean (adj_ident (sv_adj sv)) \<and> (\<forall>env. files_ok (sv_application sv env))"

lemma run_request_spec:
  assumes "serving c c" and ok: "app_ok sv" "c_adj c = sv_adj sv" and r: "run_request tb sv req c = (r, t')"
  shows "r = None \<and> (\<exists>s. one_head s \<and> serving c (t_channel t') \<and> extends s c (t_channel t'))"
proof -
  have id: "ident_clean (adj_ident (c_adj c))" "ident_clean (adj_ident (sv_adj sv))"
    and files: "\<And>env. files_ok (sv_application sv env)" using ok by (simp_all add: app_ok_def)
  have e0: "extends [] c c" by (simp add: extends_def)
  have nil: "one_head []" by (simp add: one_head_def)
  define first where "first = (if \<not> c_connected c then (None, closing (task_init (p_error req \<noteq> None) c req))
         else if p_error req \<noteq> None then service_error_task sv req c else service_wsgi_task sv req c)"
  obtain r1 t1 where f: "first = (r1, t1)" by fastforce
  have 1: "(\<exists>s. one_head s \<and> serving c (t_channel t1) \<and> extends s c (t_channel t1)) \<and>
    (r1 \<noteq> None \<and> r1 \<noteq> Some ClientDisconnected \<and> \<not> t_wrote_header t1 \<longrightarrow> serving c (t_channel t1) \<and> extends [] c (t_channel t1))"
  proof (cases "c_connected c \<and> p_error req = None")
    case True
    then have w: "task_service write_soon (c_adj c) (c_now c) (wsgi_task_execute write_soon sv) (task_init False c req) = (r1, t1)"
      using f by (simp add: first_def service_wsgi_task_def)
    have adj: "adj_ident (c_adj c) = adj_ident (sv_adj sv)" using ok(2) by simp
    show ?thesis
      using writer.wsgi_service_inv(1) [OF assms(1) id(2) files w adj] writer.wsgi_service_silent [OF assms(1) id(2) files w adj]
      by (auto simp: given_extends)
  next
    case False
    show ?thesis
    proof (cases "c_connected c")
      case True
      with False obtain err where err: "p_error req = Some err" by auto
      then have "service_error_task sv req c = (r1, t1)" using f True by (simp add: first_def)
      from error_task_spec [OF assms(1) e0 id(1) err this] show ?thesis by auto
    next
      case False
      then have "t1 = closing (task_init (p_error req \<noteq> None) c req)" "r1 = None" using f by (simp_all add: first_def)
      then have "t_channel t1 = c" "r1 = None" by (simp_all add: task_init_def)
      then show ?thesis using assms(1) e0 nil by auto
    qed
  qed
  have eq: "(r, t') = (case r1 of None \<Rightarrow> (None, t1) | Some e \<Rightarrow>
      if e = ClientDisconnected \<or> t_wrote_header t1 then (None, closing t1)
      else let body = (if adj_expose_tracebacks (c_adj c) then tb e
                       else ''The server encountered an unexpected internal server error'');
               (r2, t2) = service_error_task sv (error_request body req) (t_channel t1)
           in if r2 = Some ClientDisconnected then (None, closing t2) else (r2, t2))"
    using r f by (simp add: run_request_def first_def [symmetric])
  show ?thesis
  proof (cases r1)
    case None
    then show ?thesis using eq 1 by simp
  next
    case (Some e)
    show ?thesis
    proof (cases "e = ClientDisconnected \<or> t_wrote_header t1")
      case True
      then show ?thesis using eq 1 Some by auto
    next
      case False
      define body where "body = (if adj_expose_tracebacks (c_adj c) then tb e
                       else ''The server encountered an unexpected internal server error'')"
      obtain r2 t2 where s2: "service_error_task sv (error_request body req) (t_channel t1) = (r2, t2)" by fastforce
      have eq2: "(r, t') = (if r2 = Some ClientDisconnected then (None, closing t2) else (r2, t2))"
        using eq Some False s2 by (simp add: body_def [symmetric] Let_def)
      have "serving c (t_channel t1)" "extends [] c (t_channel t1)" using 1 Some False by simp_all
      note e2 = error_task_spec [OF this id(1) error_request_fields s2]
      then show ?thesis using eq2 by (cases "r2 = Some ClientDisconnected") auto
    qed
  qed
qed

text \<open>What the end of \<^verbatim>\<open>service\<close> does to the queue and the stream.\<close>

lemma end_service_spec:
  assumes "serving c0 c1" "extends s c0 c1" and x: "end_service close c1 = (e, c')"
  shows "channel_ok c' \<and> (e = None \<or> e = Some OSError) \<and> (c_connected c' \<longrightarrow> c_connected c0) \<and> c_adj c' = c_adj c0 \<and>
    (\<exists>k\<le>1. extends (s @ interim k) c0 c' \<and> (close \<longrightarrow> k = 0)) \<and>
    (if close then c_requests c' = [] \<and> c_tasks c' = c_tasks c0 \<and> c_close_when_flushed c'
     else prefix (tl (c_requests c0)) (c_requests c') \<and>
       c_tasks c' = c_tasks c0 + (if c_connected c' \<and> c_requests c' \<noteq> [] then 1 else 0))"
proof (cases close)
  case True
  have a: "advances c1 (interleave c1)" using interleave_advances serving_ok(1) [OF assms(1)] .
  note sv = advances_serving [OF a assms(1)]
  then have ok: "channel_ok (interleave c1)" using serving_ok(1) by blast
  have "extends s c0 (interleave c1)" using extends_quiet [OF assms(2)] sv ok by simp
  moreover have c': "e = None" "c' = (interleave c1)\<lparr>c_close_when_flushed := True, c_requests := []\<rparr>"
    using x True by (auto simp: end_service_def)
  ultimately have "extends s c0 c'" by (simp add: extends_def)
  then have "extends (s @ interim 0) c0 c'" by simp
  moreover have "channel_ok c'" "c_connected c' \<longrightarrow> c_connected c0" "c_adj c' = c_adj c0" "c_requests c' = []"
    "c_tasks c' = c_tasks c0" "c_close_when_flushed c'"
    using sv ok by (simp_all add: serving_def c'(2))
  ultimately show ?thesis using c'(1) True by auto
next
  case False
  have ok1: "channel_ok c1" using serving_ok(1) [OF assms(1)] .
  define c2 where "c2 = (if 1 < length (c_requests c1) then flush_outbufs_below_high_watermark c1 else c1)"
  have a2: "advances c1 c2" using flush_below_advances [OF ok1] advances_refl [OF ok1] by (simp add: c2_def)
  define c3 where "c3 = (if 0 < c_current_outbuf_count c2
                     then c2\<lparr>c_current_outbuf_count := adj_outbuf_high_watermark (c_adj c2)\<rparr> else c2)"
  have a3: "advances c1 c3" using a2 by (simp add: c3_def)
  then have "channel_ok c3" by (simp add: advances_def)
  then have a4: "advances c1 (interleave c3)" using advances_trans [OF a3] interleave_advances by blast
  note sv = advances_serving [OF a4 assms(1)]
  then have ok4: "channel_ok (interleave c3)" using serving_ok(1) by blast
  define c4 where "c4 = (interleave c3)\<lparr>c_requests := tl (c_requests (interleave c3))\<rparr>"
  have x4: "extends s c0 c4" using extends_quiet [OF assms(2)] sv ok4 by (simp add: c4_def extends_def)
  have f4: "channel_ok c4" "c_connected c4 \<longrightarrow> c_connected c0" "c_adj c4 = c_adj c0" "c_tasks c4 = c_tasks c0"
    using sv ok4 by (simp_all add: c4_def serving_def)
  have p4: "prefix (tl (c_requests c0)) (c_requests c4)"
    using sv by (cases "c_requests c0") (auto simp: c4_def serving_def prefix_def)
  have eq: "(e, c') = (if c_connected c4 \<and> c_requests c4 \<noteq> [] then (None, server_add_task c4)
              else if c_connected c4 \<and> wants_continue c4 then send_continue c4 else (None, c4))"
    by (simp only: x [symmetric] end_service_def Let_def False if_False c4_def c3_def c2_def)
  consider (add) "c_connected c4" "c_requests c4 \<noteq> []" | (cont) "c_connected c4" "c_requests c4 = []" "wants_continue c4"
    | (rest) "\<not> c_connected c4 \<or> c_requests c4 = []" "\<not> (c_connected c4 \<and> wants_continue c4)"
    by blast
  then show ?thesis
  proof cases
    case add
    then have "e = None" "c' = c4\<lparr>c_tasks := Suc (c_tasks c4)\<rparr>" using eq by (simp_all add: server_add_task_def)
    moreover have "extends s c0 (c4\<lparr>c_tasks := Suc (c_tasks c4)\<rparr>)" using x4 by (simp add: extends_def)
    ultimately show ?thesis using f4 p4 add False by (auto intro!: exI [of _ 0])
  next
    case cont
    then have s: "send_continue c4 = (e, c')" using eq by simp
    have i: "channel_inv c4" "c_socket c4" "request_ok c4" using f4(1) connected_socket [OF f4(1)] cont
      by (simp_all add: channel_ok_def)
    note m = send_continue_moves [OF i(1,2) s]
    then have m1: "moves_with (interim 1) c4 c'" by (simp add: interim_def)
    have "request_ok c'" using i(3) m by (cases "c_request c4") (simp_all add: request_ok_def)
    then have ok': "channel_ok c'" using moves_inv [OF m1] by (simp add: channel_ok_def)
    have "extends (s @ interim 1) c0 c'" using extends_more [OF x4 cont(1) m1 ok'] .
    then show ?thesis using m m1 f4 p4 ok' cont False by (auto simp: moves_with_def)
  next
    case rest
    then have "e = None" "c' = c4" using eq by (auto split: if_splits)
    then show ?thesis using f4 p4 x4 rest False by (auto intro!: exI [of _ 0])
  qed
qed

lemma service_spec:
  assumes "channel_ok c" "c_requests c \<noteq> []" and ok: "app_ok sv" "c_adj c = sv_adj sv"
    and s: "service tb sv c = (e, c')"
  shows "channel_ok c' \<and> (e = None \<or> e = Some OSError) \<and> (c_connected c' \<longrightarrow> c_connected c) \<and> c_adj c' = c_adj c \<and>
    (\<exists>s k. one_head s \<and> k \<le> 1 \<and> extends (s @ interim k) c c') \<and>
    ((c_requests c' = [] \<and> c_tasks c' = c_tasks c \<and> c_close_when_flushed c') \<or>
     (prefix (tl (c_requests c)) (c_requests c') \<and>
       c_tasks c' = c_tasks c + (if c_connected c' \<and> c_requests c' \<noteq> [] then 1 else 0)))"
proof -
  obtain req rest where rq: "c_requests c = req # rest" using assms(2) by (cases "c_requests c") auto
  obtain r t where r: "run_request tb sv req c = (r, t)" by fastforce
  from run_request_spec [OF serving_start [OF assms(1,2)] ok r] obtain s where
    s1: "r = None" "one_head s" "serving c (t_channel t)" "extends s c (t_channel t)" by blast
  obtain e1 c1 where x: "end_service (t_close_on_finish t) (t_channel t) = (e1, c1)" by fastforce
  note n = end_service_spec [OF s1(3,4) x]
  define c2 where "c2 = (if c_connected c1 then pull_trigger c1 else c1)"
  have eq: "(e, c') = (case e1 of None \<Rightarrow> (None, c2\<lparr>c_last_activity := c_now c2\<rparr>) | Some y \<Rightarrow> (Some y, c1))"
    using s [symmetric] rq r s1(1) x by (cases e1) (simp_all add: service_def and_then_def Let_def c2_def)
  define same where "same = (\<lambda>d. channel_ok d = channel_ok c1 \<and> stream d = stream c1 \<and> c_connected d = c_connected c1 \<and>
     c_adj d = c_adj c1 \<and> c_requests d = c_requests c1 \<and> c_tasks d = c_tasks c1 \<and>
     c_close_when_flushed d = c_close_when_flushed c1)"
  have "same (c2\<lparr>c_last_activity := c_now c2\<rparr>)" "same c1" by (simp_all add: same_def c2_def pull_trigger_def)
  then have c': "same c'" "e = e1" using eq by (cases e1; simp)+
  from n obtain k where k: "k \<le> 1" "extends (s @ interim k) c c1" by blast
  then have "extends (s @ interim k) c c'" using c'(1) by (simp add: extends_def same_def)
  then have "\<exists>s k. one_head s \<and> k \<le> 1 \<and> extends (s @ interim k) c c'" using k s1(2) by blast
  then show ?thesis using n c' by (cases "t_close_on_finish t") (simp_all add: same_def)
qed

subsection \<open>The states of a connection\<close>

text \<open>
  Two threads use a connection: the main thread polls it; a worker of the dispatcher takes a task of
  it out of the queue and runs \<^const>\<open>service\<close>, or the dispatcher is shut down and cancels the task.
\<close>

inductive reachable :: "(exn \<Rightarrow> string) \<Rightarrow> server_info \<Rightarrow> channel \<Rightarrow> bool" for tb sv where
  init: "0 < sendbuf \<Longrightarrow> reachable tb sv (channel_init (sv_adj sv) sendbuf net sched now)"
| main: "reachable tb sv c \<Longrightarrow> reachable tb sv (main_step ev c)"
| serve: "reachable tb sv c \<Longrightarrow> c_tasks c = Suc n \<Longrightarrow>
    reachable tb sv (snd (service tb sv (c\<lparr>c_tasks := n\<rparr>)))"
| cancel: "reachable tb sv c \<Longrightarrow> c_tasks c = Suc n \<Longrightarrow> reachable tb sv (cancel (c\<lparr>c_tasks := n\<rparr>))"

text \<open>At most one task of a connection, and there is one as long as a request waits.\<close>

definition tasks_ok :: "channel \<Rightarrow> bool" where
  "tasks_ok c \<longleftrightarrow> c_tasks c \<le> (if c_requests c = [] then 0 else 1) \<and>
     (c_connected c \<and> c_requests c \<noteq> [] \<longrightarrow> c_tasks c = 1)"

lemma advances_tasks: "advances c c' \<Longrightarrow> tasks_ok c \<Longrightarrow> tasks_ok c'"
  by (auto simp: advances_def moves_with_def tasks_ok_def split: if_splits)

lemma advances_adj: "advances c c' \<Longrightarrow> c_adj c' = c_adj c"
  by (auto simp: advances_def moves_with_def)

lemma channel_init_ok:
  "0 < sendbuf \<Longrightarrow> channel_ok (channel_init adj sendbuf net sched now)"
  using out_len_content [of "OB (ob_init (adj_outbuf_overflow adj))"]
  by (simp add: channel_ok_def channel_inv_def buffers_ok_def request_ok_def channel_init_def)

lemma reachable_ok:
  assumes "reachable tb sv c" and ok: "app_ok sv"
  shows "channel_ok c \<and> tasks_ok c \<and> c_adj c = sv_adj sv"
  using assms(1)
proof induction
  case (init sendbuf net sched now)
  then show ?case using channel_init_ok by (simp add: tasks_ok_def channel_init_def)
next
  case (main c ev)
  from main_step_advances [of c ev] main.IH show ?case
    using advances_tasks advances_adj by (metis advances_def)
next
  case (serve c n)
  let ?c = "c\<lparr>c_tasks := n\<rparr>"
  have n: "c_requests ?c \<noteq> []" "n = 0" using serve by (auto simp: tasks_ok_def split: if_splits)
  obtain e c' where s: "service tb sv ?c = (e, c')" by fastforce
  have "channel_ok ?c" "c_adj ?c = sv_adj sv" using serve.IH by simp_all
  from service_spec [OF this(1) n(1) ok this(2) s] show ?case using s n serve.IH by (auto simp: tasks_ok_def)
next
  case (cancel c n)
  then have "n = 0" by (auto simp: tasks_ok_def split: if_splits)
  with cancel.IH show ?case
    by (auto simp: cancel_def channel_ok_def channel_inv_def buffers_ok_def tasks_ok_def request_ok_def)
qed

text \<open>A server with an application that answers nothing, for the examples below.\<close>

definition sample_server :: server_info where
  "sample_server = \<lparr>sv_adj = default_adjustments, sv_effective_port = ''8080'', sv_server_name = ''localhost'',
     sv_addr_host = ''127.0.0.1'', sv_addr_port = Some 1,
     sv_application = (\<lambda>env. AStart (WStr ''204 No Content'') [] None (\<lambda>r. AReturn (AIter (Some 0) None GStop)))\<rparr>"

definition sample_channel :: channel where
  "sample_channel = channel_init default_adjustments 65536 [] [] 0"

lemma sample_ok: "app_ok sample_server"
  by (simp add: app_ok_def sample_server_def default_adjustments_def ident_clean_def has_newline_def)

lemma sample_reachable: "reachable tb sample_server sample_channel"
  using reachable.init [of 65536 tb sample_server "[]" "[]" 0] by (simp add: sample_channel_def sample_server_def)

text \<open>A connection on which a request without headers and body was received.\<close>

definition sample_busy :: channel where
  "sample_busy = main_step (PollRead (Recv (''GET / HTTP/1.0'' @ CRLF2))) sample_channel"

lemma sample_busy_reachable: "reachable tb sample_server sample_busy"
  unfolding sample_busy_def by (rule reachable.main [OF sample_reachable])


text \<open>
  C9: the books of a connection. In every state that a connection reaches, whatever the socket and
  the application do, the count of the bytes to be sent is the number of bytes in its buffers, the
  buffers are in order, the last one can be written to, and a connection without socket is not
  connected.
\<close>

theorem connection_invariant:
  assumes "reachable tb sv c" and "app_ok sv"
  shows "(c_socket c \<longrightarrow> c_total_outbufs_len c = int (length (pending c)) \<and> list_all out_wf (c_outbufs c)) \<and>
    c_outbufs c \<noteq> [] \<and> writable_outbuf (last (c_outbufs c)) \<and> (\<not> c_socket c \<longrightarrow> \<not> c_connected c)"
  using reachable_ok [OF assms] total_pending by (auto simp: channel_ok_def channel_inv_def buffers_ok_def)

theorem connection_invariant_witness:
  "c_total_outbufs_len sample_busy = int (length (pending sample_busy))"
proof -
  have "c_socket sample_busy" by code_simp
  with connection_invariant [OF sample_busy_reachable sample_ok] show ?thesis by simp
qed





text \<open>
  C14: \<^verbatim>\<open>received\<close> returns. In every state that a connection reaches, the loop over the data of a
  \<^verbatim>\<open>recv\<close> makes progress in each round: it does not go on for ever with the same data.
\<close>

theorem received_returns:
  assumes "reachable tb sv c" and "app_ok sv" and "c_socket c"
  shows "fst (received data c) \<noteq> Some Diverges"
proof -
  obtain e c' where r: "received data c = (e, c')" by fastforce
  from received_advances [OF _ assms(3) r] reachable_ok [OF assms(1,2)] show ?thesis by (simp add: r)
qed

theorem received_returns_witness:
  "fst (received (''GET / HTTP/1.0'' @ CRLF2) sample_busy) \<noteq> Some Diverges"
proof -
  have "c_socket sample_busy" by code_simp
  from received_returns [OF sample_busy_reachable sample_ok this] show ?thesis .
qed

text \<open>
  C6: \<^verbatim>\<open>write_soon\<close>. While a worker serves a request, data that is accepted is put at the end of the
  stream of the connection, all of it, and nothing else is; data is refused only with
  \<^verbatim>\<open>ClientDisconnected\<close>, when the connection is lost, and then nothing of it is sent.
\<close>

theorem write_soon_spec:
  assumes "serving c0 c" and "out_ready d"
  shows "case write_soon c d of
      (Inr n, c') \<Rightarrow> stream c' = stream c @ out_bytes d \<and> c_connected c'
    | (Inl e, c') \<Rightarrow> e = ClientDisconnected \<and> \<not> c_connected c' \<and> prefix (stream c') (stream c)"
proof -
  obtain r c' where w: "write_soon c d = (r, c')" by fastforce
  note s = write_soon_cases [OF assms w]
  then have "channel_ok c'" using serving_ok(1) by blast
  with s moves_stream [of "out_bytes d" c c'] moves_stream [of "[]" c c'] show ?thesis by (auto simp: w)
qed

theorem write_soon_spec_witness:
  "case write_soon (sample_busy\<lparr>c_tasks := 0\<rparr>) (Data ''abc'') of
     (Inr n, c') \<Rightarrow> stream c' = ''abc'' | (Inl e, c') \<Rightarrow> e = ClientDisconnected"
proof -
  let ?c = "sample_busy\<lparr>c_tasks := 0\<rparr>"
  have "c_requests ?c \<noteq> []" "stream ?c = []" by code_simp+
  moreover have "channel_ok ?c" using reachable_ok [OF sample_busy_reachable sample_ok] by simp
  ultimately show ?thesis using write_soon_spec [OF serving_start, of ?c "Data ''abc''"]
    by (auto split: prod.splits sum.splits)
qed


end
