(* ===== verification/Answers.thy ===== *)
theory Answers
  imports Service
begin
















end
