(* ===== verification/Environ.thy ===== *)
theory Environ
  imports Task
begin

text \<open>
  The environment of a request (\<^verbatim>\<open>WSGITask.get_environment\<close>): which entries it has, and that no
  header of the client can take the place of an entry that the server sets.
\<close>

lemma add_environ_headers_lookup:
  "map_of (add_environ_headers hs env) k =
     (case map_of env k of
        Some v \<Rightarrow> Some v
      | None \<Rightarrow> map_option (\<lambda>p. EStr (snd p)) (find (\<lambda>(h, v). environ_key h = k) hs))"
proof (induction hs arbitrary: env)
  case (Cons p hs)
  obtain h v where p: "p = (h, v)" by fastforce
  show ?case
    by (simp add: p Cons.IH update_conv' split: option.splits)
qed (simp split: option.splits)

lemma environ_key_inj: "environ_key h = environ_key h' \<longleftrightarrow> h = h'"
  by (auto simp: environ_key_def rename_headers_def split: if_splits)

lemma environ_key_find:
  "map_option (\<lambda>p. EStr (snd p)) (find (\<lambda>(h, v). environ_key h = environ_key k) hs) = map_option EStr (dict_get hs k)"
  by (induction hs) (auto simp: environ_key_inj)

text \<open>The names that the server sets.\<close>

definition server_keys :: "string set" where
  "server_keys = {''REMOTE_ADDR'', ''REMOTE_HOST'', ''REMOTE_PORT'', ''REQUEST_METHOD'', ''SERVER_PORT'',
     ''SERVER_NAME'', ''SERVER_SOFTWARE'', ''SERVER_PROTOCOL'', ''SCRIPT_NAME'', ''PATH_INFO'', ''REQUEST_URI'',
     ''QUERY_STRING'', ''wsgi.url_scheme'', ''wsgi.version'', ''wsgi.errors'', ''wsgi.multithread'',
     ''wsgi.multiprocess'', ''wsgi.run_once'', ''wsgi.input'', ''wsgi.file_wrapper'', ''wsgi.input_terminated''}"

lemma base_environ_keys: "map_of (base_environ sv req ver stream) k \<noteq> None \<longleftrightarrow> k \<in> server_keys"
  by (auto simp: base_environ_def server_keys_def)

lemma environ_key_not_server: "environ_key h \<notin> server_keys \<and> environ_key h \<noteq> ''waitress.client_disconnected''"
  by (auto simp: environ_key_def rename_headers_def server_keys_def)

text \<open>
  C32: what the application is told of a request. Each name that the server sets has the server's
  value whatever the client sent, a header of the client is found under its own name only
  (\<^verbatim>\<open>HTTP_\<close> in front, but for the type and the length of the content), and there is nothing else.
\<close>

theorem environ_not_overridden:
  "let (env, t') = get_environment sv t;
       base = base_environ sv (t_request t') (t_version t) (fst (get_body_stream (t_request t)))
   in (if k \<in> server_keys then map_of env k = map_of base k
       else if k = ''waitress.client_disconnected'' then map_of env k = Some EClientDisconnected
       else if map_of env k = None then True else k \<in> range environ_key) \<and>
      map_of env (environ_key h) = map_option EStr (dict_get (p_headers (t_request t)) h)"
proof -
  obtain stream q where b: "get_body_stream (t_request t) = (stream, q)" by fastforce
  let ?base = "base_environ sv q (t_version t) stream"
  have hd: "p_headers q = p_headers (t_request t)"
    using b by (auto simp: get_body_stream_def split: option.splits prod.splits)
  have f: "find (\<lambda>(h, v). environ_key h = k) hs = Some p \<Longrightarrow> k \<in> range environ_key" for hs :: dict and p
    by (induction hs) (auto split: if_splits)
  have nb: "map_of ?base (environ_key h) = None"
    using base_environ_keys environ_key_not_server by blast
  have wc: "''waitress.client_disconnected'' \<notin> server_keys" by (simp add: server_keys_def)
  show ?thesis
    using b hd f [of "p_headers q"] nb wc base_environ_keys [of sv q "t_version t" stream k] environ_key_not_server [of h]
    by (auto simp: get_environment_def Let_def update_conv' add_environ_headers_lookup environ_key_find
      split: option.splits)
qed

text \<open>
  The path that the application sees. With the prefix of the configuration (empty, or one that
  starts with a slash and does not end with one), \<^verbatim>\<open>SCRIPT_NAME\<close> and \<^verbatim>\<open>PATH_INFO\<close> put together are
  the path of the request with its leading slashes made one, when the path lies under the prefix;
  else \<^verbatim>\<open>PATH_INFO\<close> is that path. Without a prefix it never starts with two slashes.
\<close>

theorem path_info_spec:
  "let path = (if prefix ''/'' path0 then ''/'' @ lstrip (\<lambda>c. c = CHR ''/'') path0 else path0);
       under = (path = pre \<or> prefix (pre @ ''/'') path)
   in (if pre = [] then path_info pre path0 = path \<and> \<not> prefix ''//'' (path_info pre path0)
       else if under then pre @ path_info pre path0 = path \<and>
              (path_info pre path0 = [] \<or> hd (path_info pre path0) = CHR ''/'')
       else path_info pre path0 = path)"
proof -
  have n: "\<not> prefix ''//'' (''/'' @ lstrip (\<lambda>c. c = CHR ''/'') path0)"
    using lstrip_hd [of "\<lambda>c. c = CHR ''/''" path0]
    by (cases "lstrip (\<lambda>c. c = CHR ''/'') path0") auto
  have "\<not> prefix ''//'' path0" if "\<not> prefix ''/'' path0" using that by (cases path0) auto
  with n show ?thesis by (auto simp: path_info_def Let_def prefix_def)
qed

end
