(* ===== verification/Proxy_Headers.thy ===== *)
theory Proxy_Headers
  imports Environ
begin

text \<open>
  \<^verbatim>\<open>proxy_headers.py\<close>: the middleware that takes the client's address, the host and the scheme from
  the headers of a trusted proxy, and removes such headers when they cannot be trusted. The
  environment is that of \<^const>\<open>get_environment\<close>; \<^verbatim>\<open>logger\<close> calls have no counterpart. Sets of names
  are lists without order.
\<close>

definition PROXY_HEADERS :: "string list" where
  "PROXY_HEADERS = [''X_FORWARDED_FOR'', ''X_FORWARDED_HOST'', ''X_FORWARDED_PROTO'', ''X_FORWARDED_PORT'',
     ''X_FORWARDED_BY'', ''FORWARDED'']"

record forwarded =
  fw_by :: string
  fw_for :: string
  fw_host :: string
  fw_proto :: string

text \<open>\<^verbatim>\<open>MalformedProxyHeader(header, reason, value)\<close>, or another exception, which is not caught.\<close>

datatype proxy_error = Malformed string exn string | Escapes exn

definition index_error :: exn where
  "index_error = AppError ''list index out of range''"

subsection \<open>The environment\<close>

text \<open>\<^verbatim>\<open>environ.get(k)\<close> of an entry that is a string.\<close>

definition env_str :: "environ \<Rightarrow> string \<Rightarrow> string option" where
  "env_str env k = (case map_of env k of Some (EStr s) \<Rightarrow> Some s | _ \<Rightarrow> None)"

definition env_str_or :: "environ \<Rightarrow> string \<Rightarrow> string \<Rightarrow> string" where
  "env_str_or env k d = (case env_str env k of None \<Rightarrow> d | Some s \<Rightarrow> s)"

definition env_set :: "string \<Rightarrow> string \<Rightarrow> environ \<Rightarrow> environ" where
  "env_set k s env = AList.update k (EStr s) env"

lemma env_set_lookup [simp]: "map_of (env_set k s env) k' = (if k' = k then Some (EStr s) else map_of env k')"
  by (simp add: env_set_def update_conv')

subsection \<open>parse_proxy_headers\<close>

text \<open>The local variables of the function.\<close>

record px_state =
  px_env :: environ
  px_client :: "string option"    \<comment> \<open>\<^verbatim>\<open>client_addr\<close>\<close>
  px_host :: string
  px_proto :: string
  px_port :: string
  px_untrusted :: "string list"

definition px_init :: "environ \<Rightarrow> px_state" where
  "px_init env = \<lparr>px_env = env, px_client = None, px_host = [], px_proto = [], px_port = [],
     px_untrusted = PROXY_HEADERS\<rparr>"

fun map_res :: "('a \<Rightarrow> exn + 'b) \<Rightarrow> 'a list \<Rightarrow> exn + 'b list" where
  "map_res f [] = Inr []"
| "map_res f (x # xs) =
     (case f x of Inl e \<Rightarrow> Inl e
      | Inr y \<Rightarrow> (case map_res f xs of Inl e \<Rightarrow> Inl e | Inr ys \<Rightarrow> Inr (y # ys)))"

text \<open>One hop of \<^verbatim>\<open>X-Forwarded-For\<close>; an IPv6 address gets brackets.\<close>

definition forward_hop :: "string \<Rightarrow> exn + string" where
  "forward_hop hop =
     (case undquote (strip str_ws hop) of
        Inl e \<Rightarrow> Inl e
      | Inr h \<Rightarrow>
          Inr (if CHR ''.'' \<notin> set h \<and> CHR '':'' \<in> set h \<and> last h \<noteq> CHR '']'' then ''['' @ h @ '']'' else h))"

definition remaining_value :: "int \<Rightarrow> string list \<Rightarrow> string" where
  "remaining_value count raw = strip str_ws (bjoin '','' (py_last count raw))"

definition px_forwarded_for :: "int \<Rightarrow> string list \<Rightarrow> px_state \<Rightarrow> proxy_error + px_state" where
  "px_forwarded_for count trusted st =
     (if ''x-forwarded-for'' \<notin> set trusted then Inr st
      else case env_str (px_env st) ''HTTP_X_FORWARDED_FOR'' of
             None \<Rightarrow> Inr st
           | Some v \<Rightarrow>
               let raw = bsplit '','' v
               in (case map_res forward_hop raw of
                     Inl e \<Rightarrow> Inl (Malformed ''X-Forwarded-For'' e v)
                   | Inr hops \<Rightarrow>
                       (case py_last count hops of
                          [] \<Rightarrow> Inl (Malformed ''X-Forwarded-For'' index_error v)
                        | h # _ \<Rightarrow>
                            Inr (st\<lparr>px_client := Some h,
                                    px_untrusted := removeAll ''X_FORWARDED_FOR'' (px_untrusted st),
                                    px_env := env_set ''HTTP_X_FORWARDED_FOR'' (remaining_value count raw) (px_env st)\<rparr>))))"

definition px_forwarded_host :: "int \<Rightarrow> string list \<Rightarrow> px_state \<Rightarrow> proxy_error + px_state" where
  "px_forwarded_host count trusted st =
     (if ''x-forwarded-host'' \<notin> set trusted then Inr st
      else case env_str (px_env st) ''HTTP_X_FORWARDED_HOST'' of
             None \<Rightarrow> Inr st
           | Some v \<Rightarrow>
               let raw = bsplit '','' v
               in (case map_res (\<lambda>h. undquote (strip str_ws h)) raw of
                     Inl e \<Rightarrow> Inl (Malformed ''X-Forwarded-Host'' e v)
                   | Inr hosts \<Rightarrow>
                       (case py_last count hosts of
                          [] \<Rightarrow> Inl (Malformed ''X-Forwarded-Host'' index_error v)
                        | h # _ \<Rightarrow>
                            Inr (st\<lparr>px_host := h,
                                    px_untrusted := removeAll ''X_FORWARDED_HOST'' (px_untrusted st),
                                    px_env := env_set ''HTTP_X_FORWARDED_HOST'' (remaining_value count raw) (px_env st)\<rparr>))))"

text \<open>A header that must have one value: \<^verbatim>\<open>X-Forwarded-Proto\<close>, \<^verbatim>\<open>X-Forwarded-Port\<close>.\<close>

definition single_value :: "string \<Rightarrow> string \<Rightarrow> environ \<Rightarrow> proxy_error + string" where
  "single_value header key env =
     (let v = env_str_or env key []
      in case undquote v of
           Inl e \<Rightarrow> Inl (Malformed header e v)
         | Inr s \<Rightarrow>
             if CHR '','' \<in> set s
             then Inl (Malformed header (ValueError ''Unspecified behavior for multiple values found in header'') v)
             else Inr s)"

definition px_forwarded_proto :: "string list \<Rightarrow> px_state \<Rightarrow> proxy_error + px_state" where
  "px_forwarded_proto trusted st =
     (if ''x-forwarded-proto'' \<notin> set trusted then Inr st
      else case single_value ''X-Forwarded-Proto'' ''HTTP_X_FORWARDED_PROTO'' (px_env st) of
             Inl e \<Rightarrow> Inl e
           | Inr s \<Rightarrow> Inr (st\<lparr>px_proto := s, px_untrusted := removeAll ''X_FORWARDED_PROTO'' (px_untrusted st)\<rparr>))"

definition px_forwarded_port :: "string list \<Rightarrow> px_state \<Rightarrow> proxy_error + px_state" where
  "px_forwarded_port trusted st =
     (if ''x-forwarded-port'' \<notin> set trusted then Inr st
      else case single_value ''X-Forwarded-Port'' ''HTTP_X_FORWARDED_PORT'' (px_env st) of
             Inl e \<Rightarrow> Inl e
           | Inr s \<Rightarrow> Inr (st\<lparr>px_port := s, px_untrusted := removeAll ''X_FORWARDED_PORT'' (px_untrusted st)\<rparr>))"

definition px_forwarded_by :: "string list \<Rightarrow> px_state \<Rightarrow> px_state" where
  "px_forwarded_by trusted st =
     (if ''x-forwarded-by'' \<in> set trusted
      then st\<lparr>px_untrusted := removeAll ''X_FORWARDED_BY'' (px_untrusted st)\<rparr> else st)"

subsection \<open>Forwarded\<close>

text \<open>\<^verbatim>\<open>s.partition("=")\<close>, with whether the separator was found.\<close>

definition partition_eq :: "string \<Rightarrow> string \<times> bool \<times> string" where
  "partition_eq s =
     (case bfind ''='' s of None \<Rightarrow> (s, False, []) | Some i \<Rightarrow> (take i s, True, drop (i + 1) s))"

definition empty_forwarded :: forwarded where
  "empty_forwarded = \<lparr>fw_by = [], fw_for = [], fw_host = [], fw_proto = []\<rparr>"

definition set_pair :: "string \<Rightarrow> string \<Rightarrow> forwarded \<Rightarrow> exn + forwarded" where
  "set_pair token value f =
     (if token \<in> {''by'', ''for'', ''host'', ''proto''}
      then (case undquote value of
              Inl e \<Rightarrow> Inl e
            | Inr v \<Rightarrow>
                Inr (if token = ''by'' then f\<lparr>fw_by := v\<rparr> else if token = ''for'' then f\<lparr>fw_for := v\<rparr>
                     else if token = ''host'' then f\<lparr>fw_host := v\<rparr> else f\<lparr>fw_proto := v\<rparr>))
      else Inr f)"

definition forwarded_pair :: "string \<Rightarrow> forwarded \<Rightarrow> exn + forwarded" where
  "forwarded_pair pair0 f =
     (let pair = str_lower pair0
      in if pair = [] then Inr f
         else let (token, equals, value) = partition_eq pair
              in if \<not> equals then Inl (ValueError ''Invalid forwarded-pair missing \"=\"'')
                 else if strip str_ws token \<noteq> token then Inl (ValueError ''Token may not be surrounded by whitespace'')
                 else if strip str_ws value \<noteq> value then Inl (ValueError ''Value may not be surrounded by whitespace'')
                 else set_pair token value f)"

fun forwarded_pairs :: "string list \<Rightarrow> forwarded \<Rightarrow> exn + forwarded" where
  "forwarded_pairs [] f = Inr f"
| "forwarded_pairs (pair # ps) f =
     (case forwarded_pair pair f of Inl e \<Rightarrow> Inl e | Inr f' \<Rightarrow> forwarded_pairs ps f')"

definition forwarded_element :: "string \<Rightarrow> exn + forwarded" where
  "forwarded_element elem = forwarded_pairs (bsplit '';'' (strip str_ws elem)) empty_forwarded"

definition or_else :: "string \<Rightarrow> string \<Rightarrow> string" where
  "or_else a b = (if a \<noteq> [] then a else b)"

text \<open>The loop over the proxies from the last to the first: the oldest value wins.\<close>

definition px_proxy :: "forwarded \<Rightarrow> px_state \<Rightarrow> px_state" where
  "px_proxy f st =
     st\<lparr>px_client := (if fw_for f \<noteq> [] then Some (fw_for f) else px_client st),
        px_host := or_else (fw_host f) (px_host st), px_proto := or_else (fw_proto f) (px_proto st)\<rparr>"

definition px_forwarded :: "int \<Rightarrow> string \<Rightarrow> px_state \<Rightarrow> proxy_error + px_state" where
  "px_forwarded count v st =
     (let raw = bsplit '','' v
      in case map_res forwarded_element raw of
           Inl e \<Rightarrow> Inl (Malformed ''Forwarded'' e v)
         | Inr proxies \<Rightarrow>
             let st1 = st\<lparr>px_host := fw_host (last proxies), px_proto := fw_proto (last proxies), px_port := [],
                          px_env := env_set ''HTTP_FORWARDED'' (remaining_value count raw) (px_env st)\<rparr>
             in Inr (foldr px_proxy (py_last count proxies) st1))"

subsection \<open>The results\<close>

definition px_set_proto :: "bool \<Rightarrow> px_state \<Rightarrow> proxy_error + px_state" where
  "px_set_proto is_forwarded st =
     (if px_proto st = [] then Inr st
      else let proto = str_lower (px_proto st)
           in if proto \<notin> {''http'', ''https''}
              then Inl (Malformed (if is_forwarded then ''Forwarded Proto='' else ''X-Forwarded-Proto'')
                     (ValueError ''unsupported proto value'') proto)
              else Inr (st\<lparr>px_proto := proto, px_env := env_set ''wsgi.url_scheme'' proto (px_env st),
                           px_port := (if px_port st = [] then (if proto = ''http'' then ''80'' else ''443'')
                                       else px_port st)\<rparr>))"

definition host_with_port :: "string \<Rightarrow> string \<Rightarrow> environ \<Rightarrow> string" where
  "host_with_port host port env =
     (if port \<noteq> [] \<and>
         (port \<notin> {''443'', ''80''} \<or>
          (port = ''80'' \<and> env_str env ''wsgi.url_scheme'' \<noteq> Some ''http'') \<or>
          (port = ''443'' \<and> env_str env ''wsgi.url_scheme'' \<noteq> Some ''https''))
      then host @ '':'' @ port else host)"

definition has_port :: "string \<Rightarrow> bool" where
  "has_port s \<longleftrightarrow> CHR '':'' \<in> set s \<and> last s \<noteq> CHR '']''"

definition px_set_host :: "px_state \<Rightarrow> px_state" where
  "px_set_host st =
     (let fh = px_host st
      in if fh = [] then st
         else if has_port fh
         then let (host, port) = rsplit1 (CHR '':'') fh
              in st\<lparr>px_port := port,
                    px_env := env_set ''HTTP_HOST'' fh (env_set ''SERVER_NAME'' (strip str_ws host) (px_env st))\<rparr>
         else st\<lparr>px_env := env_set ''HTTP_HOST'' (host_with_port fh (px_port st) (px_env st))
                             (env_set ''SERVER_NAME'' fh (px_env st))\<rparr>)"

definition px_set_port :: "px_state \<Rightarrow> px_state" where
  "px_set_port st =
     (if px_port st \<noteq> [] then st\<lparr>px_env := env_set ''SERVER_PORT'' (px_port st) (px_env st)\<rparr> else st)"

definition strip_brackets :: "string \<Rightarrow> exn + string" where
  "strip_brackets addr =
     (if addr = [] then Inl index_error
      else Inr (if hd addr = CHR ''['' \<and> last addr = CHR '']'' then butlast (tl addr) else addr))"

definition px_set_client :: "px_state \<Rightarrow> proxy_error + px_state" where
  "px_set_client st =
     (case px_client st of
        None \<Rightarrow> Inr st
      | Some [] \<Rightarrow> Inr st
      | Some a \<Rightarrow>
          let (addr, port) = (if has_port a then let (x, y) = rsplit1 (CHR '':'') a in (x, Some (strip str_ws y))
                              else (a, None))
          in (case strip_brackets (strip str_ws addr) of
                Inl e \<Rightarrow> Inl (Escapes e)
              | Inr r \<Rightarrow>
                  let env1 = env_set ''REMOTE_ADDR'' r (px_env st);
                      env2 = (case port of None \<Rightarrow> env1 | Some p \<Rightarrow> env_set ''REMOTE_PORT'' p env1)
                  in Inr (st\<lparr>px_env := env_set ''REMOTE_HOST'' r env2\<rparr>)))"

definition and_res :: "'e + 'a \<Rightarrow> ('a \<Rightarrow> 'e + 'b) \<Rightarrow> 'e + 'b" where
  "and_res r f = (case r of Inl e \<Rightarrow> Inl e | Inr x \<Rightarrow> f x)"

text \<open>The part that reads the headers, and the part that sets the results.\<close>

definition px_read :: "int \<Rightarrow> string list \<Rightarrow> environ \<Rightarrow> proxy_error + px_state" where
  "px_read count trusted env =
     and_res (px_forwarded_for count trusted (px_init env)) (\<lambda>st.
     and_res (px_forwarded_host count trusted st) (\<lambda>st.
     and_res (px_forwarded_proto trusted st) (\<lambda>st.
     and_res (px_forwarded_port trusted st) (\<lambda>st.
       let st1 = px_forwarded_by trusted st;
           st2 = (if ''forwarded'' \<in> set trusted
                  then st1\<lparr>px_untrusted := removeAll ''FORWARDED'' PROXY_HEADERS\<rparr> else st1)
       in Inr st2))))"

definition forwarded_value :: "string list \<Rightarrow> environ \<Rightarrow> string" where
  "forwarded_value trusted env = (if ''forwarded'' \<in> set trusted then env_str_or env ''HTTP_FORWARDED'' [] else [])"

definition parse_proxy_headers :: "int \<Rightarrow> string list \<Rightarrow> environ \<Rightarrow> proxy_error + (environ \<times> string list)" where
  "parse_proxy_headers count trusted env =
     and_res (px_read count trusted env) (\<lambda>st.
     let v = forwarded_value trusted (px_env st)
     in and_res (if v \<noteq> [] then px_forwarded count v st else Inr st) (\<lambda>st.
        and_res (px_set_proto (v \<noteq> []) st) (\<lambda>st.
        and_res (px_set_client (px_set_port (px_set_host st))) (\<lambda>st.
          Inr (px_env st, px_untrusted st)))))"

subsection \<open>The middleware\<close>

definition clear_untrusted_headers :: "string list \<Rightarrow> environ \<Rightarrow> environ" where
  "clear_untrusted_headers untrusted env = foldl (\<lambda>env h. AList.delete (''HTTP_'' @ h) env) env untrusted"

text \<open>\<^verbatim>\<open>Error.wsgi_response\<close>: a generator, so \<^verbatim>\<open>start_response\<close> is called by the first iteration.\<close>

definition wsgi_response :: "http_error \<Rightarrow> app" where
  "wsgi_response err =
     (let (status, headers, body) = to_response None err
      in AReturn (AIter None (Some None)
           (GStart (WStr status) (map (\<lambda>(k, v). (WStr k, WStr v)) headers) None
             (\<lambda>r. case r of None \<Rightarrow> GYield body GStop | Some e \<Rightarrow> GRaise e))))"

definition from_trusted :: "string option \<Rightarrow> environ \<Rightarrow> bool" where
  "from_trusted trusted_proxy env \<longleftrightarrow>
     trusted_proxy \<noteq> None \<and> (trusted_proxy = Some ''*'' \<or> env_str env ''REMOTE_ADDR'' = trusted_proxy)"

definition proxy_headers_middleware ::
  "(environ \<Rightarrow> app) \<Rightarrow> string option \<Rightarrow> int \<Rightarrow> string list \<Rightarrow> bool \<Rightarrow> environ \<Rightarrow> app" where
  "proxy_headers_middleware app trusted_proxy count trusted clear env =
     (let r = (if from_trusted trusted_proxy env then parse_proxy_headers count trusted env
               else Inr (env, PROXY_HEADERS))
      in case r of
           Inl (Malformed header reason value) \<Rightarrow>
             wsgi_response (BadRequest (''Header \"'' @ header @ ''\" malformed.''))
         | Inl (Escapes e) \<Rightarrow> ARaise e
         | Inr (env1, untrusted) \<Rightarrow> app (if clear then clear_untrusted_headers untrusted env1 else env1))"

subsection \<open>What changes in the environment\<close>

text \<open>The names of the headers in the configuration, the names in \<^verbatim>\<open>KNOWN_PROXY_HEADERS\<close>.\<close>

definition proxy_header_name :: "string \<Rightarrow> string" where
  "proxy_header_name h = map (\<lambda>c. if c = CHR ''_'' then CHR ''-'' else c) (str_lower h)"

definition proxy_results :: "string set" where
  "proxy_results = {''REMOTE_ADDR'', ''REMOTE_HOST'', ''REMOTE_PORT'', ''SERVER_NAME'', ''SERVER_PORT'',
     ''HTTP_HOST'', ''wsgi.url_scheme'', ''HTTP_X_FORWARDED_FOR'', ''HTTP_X_FORWARDED_HOST'', ''HTTP_FORWARDED''}"

definition scheme_ok :: "environ \<Rightarrow> environ \<Rightarrow> bool" where
  "scheme_ok env env' \<longleftrightarrow>
     map_of env' ''wsgi.url_scheme'' \<in> {map_of env ''wsgi.url_scheme'', Some (EStr ''http''), Some (EStr ''https'')}"

definition px_step :: "px_state \<Rightarrow> px_state \<Rightarrow> bool" where
  "px_step st st' \<longleftrightarrow> (\<forall>k. k \<notin> proxy_results \<longrightarrow> map_of (px_env st') k = map_of (px_env st) k)
     \<and> scheme_ok (px_env st) (px_env st')"

lemma px_step_trans: "px_step a b \<Longrightarrow> px_step b c \<Longrightarrow> px_step a c"
  by (auto simp: px_step_def scheme_ok_def)

lemma px_step_same: "px_env st' = px_env st \<Longrightarrow> px_step st st'"
  by (simp add: px_step_def scheme_ok_def)

lemma px_step_set:
  "k \<in> proxy_results \<Longrightarrow> k \<noteq> ''wsgi.url_scheme'' \<Longrightarrow> px_env st' = env_set k v (px_env st) \<Longrightarrow> px_step st st'"
  by (auto simp: px_step_def scheme_ok_def)

lemma proxy_results_members [simp]:
  "''REMOTE_ADDR'' \<in> proxy_results" "''REMOTE_HOST'' \<in> proxy_results" "''REMOTE_PORT'' \<in> proxy_results"
  "''SERVER_NAME'' \<in> proxy_results" "''SERVER_PORT'' \<in> proxy_results" "''HTTP_HOST'' \<in> proxy_results"
  "''wsgi.url_scheme'' \<in> proxy_results" "''HTTP_X_FORWARDED_FOR'' \<in> proxy_results"
  "''HTTP_X_FORWARDED_HOST'' \<in> proxy_results" "''HTTP_FORWARDED'' \<in> proxy_results"
  by (simp_all add: proxy_results_def)

text \<open>Which names stay untrusted.\<close>

definition still_untrusted :: "string list \<Rightarrow> px_state \<Rightarrow> bool" where
  "still_untrusted trusted st \<longleftrightarrow>
     set (px_untrusted st) \<subseteq> set PROXY_HEADERS \<and>
     (\<forall>h \<in> set PROXY_HEADERS. proxy_header_name h \<notin> set trusted \<longrightarrow> h \<in> set (px_untrusted st))"

lemma header_names [simp]:
  "proxy_header_name ''X_FORWARDED_FOR'' = ''x-forwarded-for''" "proxy_header_name ''X_FORWARDED_HOST'' = ''x-forwarded-host''"
  "proxy_header_name ''X_FORWARDED_PROTO'' = ''x-forwarded-proto''" "proxy_header_name ''X_FORWARDED_PORT'' = ''x-forwarded-port''"
  "proxy_header_name ''X_FORWARDED_BY'' = ''x-forwarded-by''" "proxy_header_name ''FORWARDED'' = ''forwarded''"
  by code_simp+

lemma still_untrusted_remove:
  assumes "still_untrusted trusted st" "proxy_header_name h \<in> set trusted" "px_untrusted st' = removeAll h (px_untrusted st)"
  shows "still_untrusted trusted st'"
  using assms by (auto simp: still_untrusted_def)

definition px_good :: "string list \<Rightarrow> px_state \<Rightarrow> px_state \<Rightarrow> bool" where
  "px_good trusted st st' \<longleftrightarrow> px_step st st' \<and> (still_untrusted trusted st \<longrightarrow> still_untrusted trusted st')"

lemma px_good_trans: "px_good tr a b \<Longrightarrow> px_good tr b c \<Longrightarrow> px_good tr a c"
  by (auto simp: px_good_def intro: px_step_trans)

lemma px_good_same:
  "px_env st' = px_env st \<Longrightarrow> px_untrusted st' = px_untrusted st \<Longrightarrow> px_good tr st st'"
  by (simp add: px_good_def px_step_same still_untrusted_def)

lemma px_good_header:
  assumes "k \<in> proxy_results" "k \<noteq> ''wsgi.url_scheme''" "proxy_header_name h \<in> set tr"
    and "px_env st' = env_set k v (px_env st)" "px_untrusted st' = removeAll h (px_untrusted st)"
  shows "px_good tr st st'"
  using px_step_set [OF assms(1,2,4)] still_untrusted_remove [OF _ assms(3,5)] by (simp add: px_good_def)

lemma px_forwarded_for_cases:
  assumes "px_forwarded_for n tr st = Inr st'"
  shows "st' = st \<or> (''x-forwarded-for'' \<in> set tr \<and>
    (\<exists>h v. st' = st\<lparr>px_client := Some h, px_untrusted := removeAll ''X_FORWARDED_FOR'' (px_untrusted st),
       px_env := env_set ''HTTP_X_FORWARDED_FOR'' v (px_env st)\<rparr>))"
  using assms by (auto simp: px_forwarded_for_def Let_def split: if_splits option.splits sum.splits list.splits)

lemma px_forwarded_for_good: "px_forwarded_for n tr st = Inr st' \<Longrightarrow> px_good tr st st'"
  using px_forwarded_for_cases [of n tr st st'] px_good_header [of "''HTTP_X_FORWARDED_FOR''" "''X_FORWARDED_FOR''" tr]
    px_good_same [of st st tr] by fastforce

lemma px_forwarded_host_cases:
  assumes "px_forwarded_host n tr st = Inr st'"
  shows "st' = st \<or> (''x-forwarded-host'' \<in> set tr \<and>
    (\<exists>h v. st' = st\<lparr>px_host := h, px_untrusted := removeAll ''X_FORWARDED_HOST'' (px_untrusted st),
       px_env := env_set ''HTTP_X_FORWARDED_HOST'' v (px_env st)\<rparr>))"
  using assms by (auto simp: px_forwarded_host_def Let_def split: if_splits option.splits sum.splits list.splits)

lemma px_forwarded_host_good: "px_forwarded_host n tr st = Inr st' \<Longrightarrow> px_good tr st st'"
  using px_forwarded_host_cases [of n tr st st'] px_good_header [of "''HTTP_X_FORWARDED_HOST''" "''X_FORWARDED_HOST''" tr]
    px_good_same [of st st tr] by fastforce

lemma px_forwarded_proto_good: "px_forwarded_proto tr st = Inr st' \<Longrightarrow> px_good tr st st'"
  using still_untrusted_remove [of tr st "''X_FORWARDED_PROTO''" st'] px_step_same [of st' st] px_good_same [of st' st tr]
  by (auto simp: px_forwarded_proto_def px_good_def split: if_splits sum.splits)

lemma px_forwarded_port_good: "px_forwarded_port tr st = Inr st' \<Longrightarrow> px_good tr st st'"
  using still_untrusted_remove [of tr st "''X_FORWARDED_PORT''" st'] px_step_same [of st' st] px_good_same [of st' st tr]
  by (auto simp: px_forwarded_port_def px_good_def split: if_splits sum.splits)

lemma px_forwarded_by_good: "px_good tr st (px_forwarded_by tr st)"
  using still_untrusted_remove [of tr st "''X_FORWARDED_BY''" "px_forwarded_by tr st"]
    px_step_same [of "px_forwarded_by tr st" st]
  by (auto simp: px_forwarded_by_def px_good_def)

lemma px_read_good:
  assumes "px_read n tr env = Inr st"
  shows "px_good tr (px_init env) st"
proof -
  from assms obtain a b c d where 1: "px_forwarded_for n tr (px_init env) = Inr a" "px_forwarded_host n tr a = Inr b"
    "px_forwarded_proto tr b = Inr c" "px_forwarded_port tr c = Inr d"
    and st: "st = (if ''forwarded'' \<in> set tr
                  then (px_forwarded_by tr d)\<lparr>px_untrusted := removeAll ''FORWARDED'' PROXY_HEADERS\<rparr> else px_forwarded_by tr d)"
    by (auto simp: px_read_def and_res_def Let_def split: sum.splits)
  have "px_good tr (px_init env) (px_forwarded_by tr d)"
    using px_forwarded_for_good [OF 1(1)] px_forwarded_host_good [OF 1(2)] px_forwarded_proto_good [OF 1(3)]
      px_forwarded_port_good [OF 1(4)] px_forwarded_by_good [of tr d] px_good_trans by meson
  then show ?thesis
    using px_step_trans px_step_same [of st "px_forwarded_by tr d"]
    by (auto simp: st px_good_def still_untrusted_def px_step_same)
qed

lemma foldr_px_proxy: "px_env (foldr px_proxy fs st) = px_env st" "px_untrusted (foldr px_proxy fs st) = px_untrusted st"
  by (induction fs) (simp_all add: px_proxy_def)

lemma px_forwarded_good: "px_forwarded n v st = Inr st' \<Longrightarrow> px_good tr st st'"
  using px_step_set [of "''HTTP_FORWARDED''" st' "remaining_value n (bsplit '','' v)" st]
  by (auto simp: px_forwarded_def px_good_def still_untrusted_def Let_def foldr_px_proxy split: sum.splits)

lemma px_set_proto_good: "px_set_proto b st = Inr st' \<Longrightarrow> px_good tr st st'"
  by (auto simp: px_set_proto_def px_good_def px_step_def scheme_ok_def still_untrusted_def Let_def split: if_splits)

lemma px_set_host_good: "px_good tr st (px_set_host st)"
  by (auto simp: px_set_host_def px_good_def px_step_def scheme_ok_def still_untrusted_def Let_def split: prod.split)

lemma px_set_port_good: "px_good tr st (px_set_port st)"
  by (auto simp: px_set_port_def px_good_def px_step_def scheme_ok_def still_untrusted_def)

lemma px_set_client_good: "px_set_client st = Inr st' \<Longrightarrow> px_good tr st st'"
  by (auto simp: px_set_client_def px_good_def px_step_def scheme_ok_def still_untrusted_def Let_def
      split: option.splits list.splits sum.splits if_splits prod.splits)

lemma and_res_Inr: "and_res r f = Inr y \<longleftrightarrow> (\<exists>x. r = Inr x \<and> f x = Inr y)"
  by (cases r) (simp_all add: and_res_def)

lemma parse_proxy_headers_good:
  assumes "parse_proxy_headers n tr env = Inr (env', us)"
  obtains st where "px_good tr (px_init env) st" "env' = px_env st" "us = px_untrusted st"
proof -
  obtain a b c d where a: "px_read n tr env = Inr a"
    and b: "(if forwarded_value tr (px_env a) \<noteq> [] then px_forwarded n (forwarded_value tr (px_env a)) a else Inr a) = Inr b"
    and c: "px_set_proto (forwarded_value tr (px_env a) \<noteq> []) b = Inr c"
    and d: "px_set_client (px_set_port (px_set_host c)) = Inr d" "env' = px_env d" "us = px_untrusted d"
    using assms unfolding parse_proxy_headers_def Let_def and_res_Inr by blast
  have "px_good tr a b"
    using b px_forwarded_good [of n "forwarded_value tr (px_env a)" a b tr] px_good_same [of a a tr]
    by (cases "forwarded_value tr (px_env a) \<noteq> []") auto
  then have "px_good tr (px_init env) d"
    using px_read_good [OF a] px_set_proto_good [OF c] px_set_host_good [of tr c] px_set_port_good [of tr "px_set_host c"]
      px_set_client_good [OF d(1)] px_good_trans by meson
  then show thesis using that d by blast
qed

lemma clear_untrusted_lookup:
  "map_of (clear_untrusted_headers us env) k = (if \<exists>h \<in> set us. k = ''HTTP_'' @ h then None else map_of env k)"
proof (induction us arbitrary: env)
  case (Cons h us)
  then show ?case by (auto simp: clear_untrusted_headers_def delete_conv')
qed (simp add: clear_untrusted_headers_def)

lemma proxy_header_not_result:
  "h \<in> set PROXY_HEADERS \<Longrightarrow> h \<notin> {''X_FORWARDED_FOR'', ''X_FORWARDED_HOST'', ''FORWARDED''} \<Longrightarrow> ''HTTP_'' @ h \<notin> proxy_results"
  by (auto simp: PROXY_HEADERS_def proxy_results_def)

text \<open>
  C10: whom the server believes. The middleware calls the application, unless a trusted peer sent a
  header that is malformed. When it clears untrusted headers, the application sees no proxy header
  at all of a peer that is not trusted, whose environment is not changed otherwise, and of a
  trusted peer no proxy header that is not configured as trusted; besides the proxy headers, only
  the address, the name and the port of the client and the server, the host and the scheme can
  differ from what the server set, and the scheme is then \<^verbatim>\<open>http\<close> or \<^verbatim>\<open>https\<close>.
\<close>

theorem proxy_headers_trust:
  "(\<exists>env'. proxy_headers_middleware app trusted_proxy n trusted True env = app env' \<and>
      (\<forall>k. k \<notin> proxy_results \<and> k \<notin> (@) ''HTTP_'' ` set PROXY_HEADERS \<longrightarrow> map_of env' k = map_of env k) \<and>
      scheme_ok env env' \<and>
      (\<forall>h \<in> set PROXY_HEADERS. \<not> from_trusted trusted_proxy env \<or> proxy_header_name h \<notin> set trusted \<longrightarrow>
         map_of env' (''HTTP_'' @ h) = None) \<and>
      (\<not> from_trusted trusted_proxy env \<longrightarrow>
         (\<forall>k. k \<notin> (@) ''HTTP_'' ` set PROXY_HEADERS \<longrightarrow> map_of env' k = map_of env k))) \<or>
   (from_trusted trusted_proxy env \<and>
     (case parse_proxy_headers n trusted env of
        Inl (Malformed header reason v) \<Rightarrow>
          proxy_headers_middleware app trusted_proxy n trusted True env =
            wsgi_response (BadRequest (''Header \"'' @ header @ ''\" malformed.''))
      | Inl (Escapes e) \<Rightarrow> proxy_headers_middleware app trusted_proxy n trusted True env = ARaise e
      | Inr _ \<Rightarrow> False))"
proof (cases "from_trusted trusted_proxy env")
  case False
  let ?env' = "clear_untrusted_headers PROXY_HEADERS env"
  have "\<not> (\<exists>h \<in> set PROXY_HEADERS. ''wsgi.url_scheme'' = ''HTTP_'' @ h)" by simp
  then have "scheme_ok env ?env'" by (simp add: scheme_ok_def clear_untrusted_lookup)
  moreover have "proxy_headers_middleware app trusted_proxy n trusted True env = app ?env'"
    using False by (simp add: proxy_headers_middleware_def)
  ultimately show ?thesis
    by (intro disjI1 exI [of _ ?env']) (auto simp: clear_untrusted_lookup)
next
  case True
  show ?thesis
  proof (cases "parse_proxy_headers n trusted env")
    case (Inl e)
    then show ?thesis using True by (cases e) (simp_all add: proxy_headers_middleware_def)
  next
    case (Inr p)
    obtain env1 us where p: "p = (env1, us)" by fastforce
    let ?env' = "clear_untrusted_headers us env1"
    obtain st where st: "px_good trusted (px_init env) st" "env1 = px_env st" "us = px_untrusted st"
      using parse_proxy_headers_good Inr p by metis
    have u: "still_untrusted trusted st" using st(1) by (simp add: px_good_def still_untrusted_def px_init_def)
    have k: "map_of env1 k = map_of env k" if "k \<notin> proxy_results" for k
      using st that by (simp add: px_good_def px_step_def px_init_def)
    have us: "set us \<subseteq> set PROXY_HEADERS" using u st(3) by (simp add: still_untrusted_def)
    have "scheme_ok env env1" using st by (simp add: px_good_def px_step_def px_init_def)
    then have "scheme_ok env ?env'" by (simp add: scheme_ok_def clear_untrusted_lookup)
    moreover have "proxy_headers_middleware app trusted_proxy n trusted True env = app ?env'"
      using True Inr p by (simp add: proxy_headers_middleware_def)
    ultimately show ?thesis using True u us k st(3)
      by (intro disjI1 exI [of _ ?env']) (auto simp: clear_untrusted_lookup still_untrusted_def)
  qed
qed

definition telling_app :: "environ \<Rightarrow> app" where
  "telling_app env = ARaise (AppError (if map_of env ''HTTP_FORWARDED'' = None then ''removed'' else ''kept''))"

theorem proxy_headers_trust_witness:
  "proxy_headers_middleware telling_app None 1 [] True [(''HTTP_FORWARDED'', EStr ''for=x'')] = ARaise (AppError ''removed'')"
proof -
  let ?env = "[(''HTTP_FORWARDED'', EStr ''for=x'')]"
  have n: "\<not> from_trusted None ?env" by (simp add: from_trusted_def)
  from proxy_headers_trust [of telling_app None 1 "[]" ?env] n obtain env' where
    e: "proxy_headers_middleware telling_app None 1 [] True ?env = telling_app env'"
    "\<forall>h \<in> set PROXY_HEADERS. \<not> from_trusted None ?env \<or> proxy_header_name h \<notin> set [] \<longrightarrow> map_of env' (''HTTP_'' @ h) = None"
    by (elim disjE exE conjE) blast+
  have "''FORWARDED'' \<in> set PROXY_HEADERS" by (simp add: PROXY_HEADERS_def)
  with e(2) n have "map_of env' (''HTTP_'' @ ''FORWARDED'') = None" by blast
  with e(1) show ?thesis by (simp add: telling_app_def)
qed

subsection \<open>Which hop is believed\<close>

lemma bsplit_char_none: "c \<notin> set a \<Longrightarrow> bsplit [c] a = [a]"
proof -
  assume "c \<notin> set a"
  then have "bfind [c] a = None" by simp
  then show ?thesis by (simp only: bsplit.simps [of "[c]" a] option.case)
qed

lemma bsplit_char_append: "bsplit [c] (a @ [c] @ b) = bsplit [c] a @ bsplit [c] b"
proof (induction "length a" arbitrary: a rule: less_induct)
  case less
  show ?case
  proof (cases "bfind [c] a")
    case None
    then have c: "c \<notin> set a" by simp
    then have "bfind [c] (a @ c # b) = Some (length a)" by (rule bfind_single)
    then have "bsplit [c] (a @ [c] @ b) = a # bsplit [c] b" by (subst bsplit.simps) simp
    then show ?thesis using bsplit_char_none [OF c] by simp
  next
    case (Some i)
    then have l: "i < length a" using bfind_le by fastforce
    have "bfind [c] (a @ [c] @ b) = Some i" using bfind_append_Some [OF Some] .
    then have "bsplit [c] (a @ [c] @ b) = take i a # bsplit [c] (drop (Suc i) a @ [c] @ b)"
      using l by (subst bsplit.simps) simp
    also have "\<dots> = take i a # bsplit [c] (drop (Suc i) a) @ bsplit [c] b"
      using less [of "drop (Suc i) a"] l by simp
    finally show ?thesis using Some by (subst (2) bsplit.simps) simp
  qed
qed

lemma map_res_append:
  "map_res f (xs @ ys) = (case map_res f xs of Inl e \<Rightarrow> Inl e
     | Inr us \<Rightarrow> (case map_res f ys of Inl e \<Rightarrow> Inl e | Inr vs \<Rightarrow> Inr (us @ vs)))"
  by (induction xs) (simp_all split: sum.split)

lemma map_res_length: "map_res f xs = Inr ys \<Longrightarrow> length ys = length xs"
  by (induction xs arbitrary: ys) (auto split: sum.splits)

lemma py_last_append: "0 < length ys \<Longrightarrow> py_last (int (length ys)) (xs @ ys) = ys"
  by (simp add: py_last_def)

lemma env_set_again: "env_set k v (env_set k w env) = env_set k v env"
  by (simp add: env_set_def)

text \<open>
  C23: a client cannot choose its address. When \<^verbatim>\<open>X-Forwarded-For\<close> is trusted and the proxies have
  appended their entries, as many as configured, whatever the client put in front of them makes no
  difference to anything: either one of its entries is malformed and the request is refused, or
  the result is that without them, to the last entry of the environment.
\<close>

theorem forwarded_for_spoofing:
  assumes "''x-forwarded-for'' \<in> set trusted" and "int (length (bsplit '','' appended)) = count"
    and "map_res forward_hop (bsplit '','' appended) = Inr hops"
  shows "parse_proxy_headers count trusted (env_set ''HTTP_X_FORWARDED_FOR'' (claimed @ '','' @ appended) env) =
    (case map_res forward_hop (bsplit '','' claimed) of
       Inl e \<Rightarrow> Inl (Malformed ''X-Forwarded-For'' e (claimed @ '','' @ appended))
     | Inr _ \<Rightarrow> parse_proxy_headers count trusted (env_set ''HTTP_X_FORWARDED_FOR'' appended env))"
proof -
  let ?k = "''HTTP_X_FORWARDED_FOR''" and ?v = "claimed @ '','' @ appended"
  have split: "bsplit '','' ?v = bsplit '','' claimed @ bsplit '','' appended" by (rule bsplit_char_append)
  have len: "0 < length (bsplit '','' appended)" "length hops = length (bsplit '','' appended)"
    using map_res_length [OF assms(3)] by simp_all
  have env: "env_str (env_set ?k w env) ?k = Some w" for w by (simp add: env_str_def)
  have last: "py_last count hops = hops" "py_last count (xs @ hops) = hops"
    "py_last count (bsplit '','' appended) = bsplit '','' appended"
    "py_last count (ys @ bsplit '','' appended) = bsplit '','' appended" for xs ys
    using len assms(2) py_last_append [of hops "[]"] py_last_append [of hops xs]
      py_last_append [of "bsplit '','' appended" "[]"] py_last_append [of "bsplit '','' appended" ys] by auto
  obtain h hs where hops: "hops = h # hs" using len by (cases hops) auto
  have for_appended: "px_forwarded_for count trusted (px_init (env_set ?k appended env)) =
    Inr ((px_init env)\<lparr>px_client := Some h, px_untrusted := removeAll ''X_FORWARDED_FOR'' PROXY_HEADERS,
       px_env := env_set ?k (remaining_value count (bsplit '','' appended)) env\<rparr>)"
    using assms(1,3) env last hops
    by (simp add: px_forwarded_for_def px_init_def Let_def env_set_again)
  show ?thesis
  proof (cases "map_res forward_hop (bsplit '','' claimed)")
    case (Inl e)
    then have "px_forwarded_for count trusted (px_init (env_set ?k ?v env)) = Inl (Malformed ''X-Forwarded-For'' e ?v)"
      using assms(1) env [of ?v] split by (simp add: px_forwarded_for_def px_init_def map_res_append)
    then show ?thesis using Inl by (simp add: parse_proxy_headers_def px_read_def and_res_def)
  next
    case (Inr hs')
    then have "map_res forward_hop (bsplit '','' ?v) = Inr (hs' @ hops)" using assms(3) split by (simp add: map_res_append)
    moreover have "remaining_value count (bsplit '','' ?v) = remaining_value count (bsplit '','' appended)"
      using split last by (simp add: remaining_value_def)
    ultimately have "px_forwarded_for count trusted (px_init (env_set ?k ?v env)) =
        px_forwarded_for count trusted (px_init (env_set ?k appended env))"
      unfolding for_appended using assms(1) env [of ?v] last(2) [of hs'] hops
      by (simp add: px_forwarded_for_def px_init_def Let_def env_set_again)
    then show ?thesis using Inr by (simp add: parse_proxy_headers_def px_read_def)
  qed
qed

theorem forwarded_for_spoofing_witness:
  "parse_proxy_headers 1 [''x-forwarded-for''] (env_set ''HTTP_X_FORWARDED_FOR'' (''6.6.6.6'' @ '','' @ ''1.2.3.4'') []) =
   parse_proxy_headers 1 [''x-forwarded-for''] (env_set ''HTTP_X_FORWARDED_FOR'' ''1.2.3.4'' [])"
proof -
  have 1: "map_res forward_hop (bsplit '','' ''1.2.3.4'') = Inr [''1.2.3.4'']" by code_simp
  have 2: "map_res forward_hop (bsplit '','' ''6.6.6.6'') = Inr [''6.6.6.6'']" by code_simp
  have 3: "int (length (bsplit '','' ''1.2.3.4'')) = 1" by code_simp
  from forwarded_for_spoofing [OF _ 3 1, of "[''x-forwarded-for'']" "''6.6.6.6''" "[]"] 2 show ?thesis by simp
qed

text \<open>A hop that is an address without a port, or a name.\<close>

definition plain_hop :: "string \<Rightarrow> bool" where
  "plain_hop h \<longleftrightarrow> h \<noteq> [] \<and> list_all (\<lambda>c. \<not> str_ws c \<and> c \<notin> {CHR '','', CHR '':'', CHR ''['', DQUOTE}) h"

lemma plain_hop_id:
  assumes "plain_hop h"
  shows "forward_hop h = Inr h" "strip str_ws h = h" "\<not> has_port h" "hd h \<noteq> CHR ''[''"
proof -
  from assms have h: "h \<noteq> []" "\<And>c. c \<in> set h \<Longrightarrow> \<not> str_ws c \<and> c \<notin> {CHR '','', CHR '':'', CHR ''['', DQUOTE}"
    by (auto simp: plain_hop_def list_all_iff)
  have "hd h \<in> set h" "last h \<in> set h" using h(1) by simp_all
  with h(2) have e: "\<not> str_ws (hd h)" "\<not> str_ws (last h)" "hd h \<noteq> DQUOTE" "last h \<noteq> DQUOTE" "hd h \<noteq> CHR ''[''" by auto
  show s: "strip str_ws h = h" using e by (simp add: strip_def lstrip_id rstrip_id)
  show "forward_hop h = Inr h" using s e h by (auto simp: forward_hop_def undquote_def)
  show "\<not> has_port h" using h by (auto simp: has_port_def)
  show "hd h \<noteq> CHR ''[''" by fact
qed

lemma map_res_plain: "list_all plain_hop hs \<Longrightarrow> map_res forward_hop hs = Inr hs"
  by (induction hs) (simp_all add: plain_hop_id)

lemma bsplit_bjoin_char: "hs \<noteq> [] \<Longrightarrow> list_all (\<lambda>h. c \<notin> set h) hs \<Longrightarrow> bsplit [c] (bjoin [c] hs) = hs"
proof (induction hs)
  case (Cons h hs)
  have h: "bsplit [c] h = [h]" using Cons.prems by (simp add: bsplit_char_none)
  show ?case
  proof (cases "hs = []")
    case False
    then show ?thesis using Cons h bsplit_char_append [of c h "bjoin [c] hs"] by (simp add: bjoin_Cons)
  qed (simp add: h)
qed simp

text \<open>
  The address that the application sees. With only \<^verbatim>\<open>X-Forwarded-For\<close> trusted and a list of
  plain hops that is long enough, the address and the host of the client are the hop that the
  first of the trusted proxies has appended, counted from the end; the port stays that of the
  peer.
\<close>

theorem forwarded_for_client:
  assumes "list_all plain_hop hops" and "0 < n" and "n \<le> length hops"
  shows "case parse_proxy_headers (int n) [''x-forwarded-for'']
        (env_set ''HTTP_X_FORWARDED_FOR'' (bjoin '','' hops) env) of
      Inl _ \<Rightarrow> False
    | Inr (env', untrusted) \<Rightarrow>
        map_of env' ''REMOTE_ADDR'' = Some (EStr (hops ! (length hops - n))) \<and>
        map_of env' ''REMOTE_HOST'' = Some (EStr (hops ! (length hops - n))) \<and>
        map_of env' ''REMOTE_PORT'' = map_of env ''REMOTE_PORT''"
proof -
  let ?k = "''HTTP_X_FORWARDED_FOR''" and ?v = "bjoin '','' hops" and ?h = "hops ! (length hops - n)"
  have "list_all (\<lambda>h. CHR '','' \<notin> set h) hops" using assms(1) by (auto simp: list_all_iff plain_hop_def)
  moreover have "hops \<noteq> []" using assms(2,3) by auto
  ultimately have split: "bsplit '','' ?v = hops" using bsplit_bjoin_char by blast
  have last: "py_last (int n) hops = ?h # drop (Suc (length hops - n)) hops"
    using assms(2,3) by (simp add: py_last_def Cons_nth_drop_Suc)
  have env: "env_str (env_set ?k ?v env) ?k = Some ?v" by (simp add: env_str_def)
  have p: "plain_hop ?h" using assms by (auto simp: list_all_length)
  then have ne: "?h \<noteq> []" by (simp add: plain_hop_def)
  have 1: "px_forwarded_for (int n) [''x-forwarded-for''] (px_init (env_set ?k ?v env)) =
      Inr ((px_init env)\<lparr>px_client := Some ?h, px_untrusted := removeAll ''X_FORWARDED_FOR'' PROXY_HEADERS,
       px_env := env_set ?k (remaining_value (int n) hops) env\<rparr>)"
    using split last env map_res_plain [OF assms(1)]
    by (simp add: px_forwarded_for_def px_init_def Let_def env_set_again)
  note 2 = plain_hop_id [OF p]
  obtain a as where h: "?h = a # as" using ne by (cases ?h) auto
  have "strip_brackets ?h = Inr ?h" using 2(4) ne by (simp add: strip_brackets_def)
  then have 3: "px_set_client (st\<lparr>px_client := Some ?h\<rparr>) =
      Inr (st\<lparr>px_client := Some ?h, px_env := env_set ''REMOTE_HOST'' ?h (env_set ''REMOTE_ADDR'' ?h (px_env st))\<rparr>)" for st
    using 2 h by (simp add: px_set_client_def Let_def)
  define st where "st = (px_init env)\<lparr>px_untrusted := removeAll ''X_FORWARDED_FOR'' PROXY_HEADERS,
       px_env := env_set ?k (remaining_value (int n) hops) env\<rparr>"
  have st: "(px_init env)\<lparr>px_client := Some ?h, px_untrusted := removeAll ''X_FORWARDED_FOR'' PROXY_HEADERS,
       px_env := env_set ?k (remaining_value (int n) hops) env\<rparr> = st\<lparr>px_client := Some ?h\<rparr>" by (simp add: st_def)
  have f: "px_host st = []" "px_proto st = []" "px_port st = []" by (simp_all add: st_def px_init_def)
  have "parse_proxy_headers (int n) [''x-forwarded-for''] (env_set ?k ?v env) =
      Inr (env_set ''REMOTE_HOST'' ?h (env_set ''REMOTE_ADDR'' ?h (px_env st)), px_untrusted st)"
    unfolding parse_proxy_headers_def px_read_def 1 st
    by (simp add: and_res_def px_forwarded_host_def px_forwarded_proto_def px_forwarded_port_def px_forwarded_by_def
      forwarded_value_def px_set_proto_def px_set_host_def px_set_port_def f 3)
  then show ?thesis by (simp add: st_def)
qed

theorem forwarded_for_client_witness:
  "case parse_proxy_headers 2 [''x-forwarded-for'']
      (env_set ''HTTP_X_FORWARDED_FOR'' (bjoin '','' [''6.6.6.6'', ''client'', ''1.2.3.4'']) []) of
    Inl _ \<Rightarrow> False | Inr (env', untrusted) \<Rightarrow> map_of env' ''REMOTE_ADDR'' = Some (EStr ''client'')"
proof -
  have 1: "list_all plain_hop [''6.6.6.6'', ''client'', ''1.2.3.4'']" by code_simp
  from forwarded_for_client [OF 1, of 2 "[]"] show ?thesis by (auto split: sum.splits prod.splits)
qed

text \<open>
  An exception instead of a refusal. A \<^verbatim>\<open>Forwarded\<close> header of a trusted proxy whose address is
  only a port makes \<^verbatim>\<open>parse_proxy_headers\<close> raise an \<^verbatim>\<open>IndexError\<close> that nothing catches, where other
  malformed values are answered with 400.
\<close>

theorem forwarded_port_only_escapes:
  "parse_proxy_headers 1 [''forwarded''] (env_set ''HTTP_FORWARDED'' ''for=:80'' []) = Inl (Escapes index_error) \<and>
   (case parse_proxy_headers 1 [''forwarded''] (env_set ''HTTP_FORWARDED'' ''for'' []) of
      Inl (Malformed h _ _) \<Rightarrow> h = ''Forwarded'' | _ \<Rightarrow> False)"
  by code_simp

end
