(* ===== verification/Config.thy ===== *)
theory Config
  imports Proxy_Headers
begin

text \<open>
  \<^verbatim>\<open>adjustments.py\<close>: the conversion of the settings, the constructor of \<^verbatim>\<open>Adjustments\<close> with its checks,
  the sockets to listen on, and the command line (\<^verbatim>\<open>parse_args\<close> and \<^verbatim>\<open>runner.run\<close>). What the
  platform does is an argument: \<^verbatim>\<open>socket.getaddrinfo\<close>, the kind of system, the text of a list. Warnings
  have no counterpart.
\<close>

section \<open>Settings and their conversion\<close>

datatype family = AF_UNSPEC | AF_INET | AF_INET6 | AF_UNIX | Other_Family int

record sock =
  sk_family :: family
  sk_stream :: bool     \<comment> \<open>\<^verbatim>\<open>type == SOCK_STREAM\<close>\<close>
  sk_fileno :: nat

text \<open>A value given for a setting; an element of a list of sockets may be something else.\<close>

datatype setting =
    SStr string
  | SInt int
  | SBool bool
  | SNone
  | SList "string list"
  | SSockets "sock option list"

text \<open>One answer of \<^verbatim>\<open>getaddrinfo\<close>; the address of IPv6 has two more entries.\<close>

record addrinfo =
  ai_family :: family
  ai_type :: int
  ai_proto :: int
  ai_host :: string
  ai_port :: int
  ai_rest :: "int list"

record platform =
  pl_getaddrinfo :: "string option \<Rightarrow> string + int \<Rightarrow> family \<Rightarrow> exn + addrinfo list"
  pl_has_ipv6 :: bool
  pl_win :: bool
  pl_str :: "setting \<Rightarrow> string"    \<comment> \<open>\<^verbatim>\<open>str\<close> of a list\<close>

definition type_error :: exn where "type_error = AppError ''TypeError''"
definition attribute_error :: exn where "attribute_error = AppError ''AttributeError''"
definition key_error :: exn where "key_error = AppError ''KeyError''"

definition as_str :: "platform \<Rightarrow> setting \<Rightarrow> string" where
  "as_str pl v =
     (case v of SStr s \<Rightarrow> s
      | SInt n \<Rightarrow> str_of_int n
      | SBool b \<Rightarrow> (if b then ''True'' else ''False'')
      | SNone \<Rightarrow> ''None''
      | _ \<Rightarrow> pl_str pl v)"

definition as_int :: "setting \<Rightarrow> exn + int" where
  "as_int v =
     (case v of SStr s \<Rightarrow> py_int s
      | SInt n \<Rightarrow> Inr n
      | SBool b \<Rightarrow> Inr (if b then 1 else 0)
      | _ \<Rightarrow> Inl type_error)"

definition truthy :: "string list" where
  "truthy = [''t'', ''true'', ''y'', ''yes'', ''on'', ''1'']"

definition asbool :: "platform \<Rightarrow> setting \<Rightarrow> bool" where
  "asbool pl v =
     (case v of SNone \<Rightarrow> False
      | SBool b \<Rightarrow> b
      | _ \<Rightarrow> str_lower (strip str_ws (as_str pl v)) \<in> set truthy)"

text \<open>\<^verbatim>\<open>int(s, 8)\<close>: white space, a sign, the prefix \<^verbatim>\<open>0o\<close> and single underscores are allowed.\<close>

definition is_octal :: "char \<Rightarrow> bool" where
  "is_octal c \<longleftrightarrow> in_range 48 55 c"

definition int8_digits :: "string \<Rightarrow> exn + int" where
  "int8_digits d =
     (let parts = bsplit ''_'' d
      in if list_all (\<lambda>p. p \<noteq> [] \<and> list_all is_octal p) parts then Inr (int (from_base 8 (concat parts)))
         else Inl (ValueError ''invalid literal for int() with base 8''))"

definition octal_prefix :: "string \<Rightarrow> string" where
  "octal_prefix d =
     (if prefix ''0o'' d \<or> prefix ''0O'' d
      then let r = drop 2 d in if prefix ''_'' r then tl r else r
      else d)"

definition asoctal :: "setting \<Rightarrow> exn + int" where
  "asoctal v =
     (case v of
        SStr s0 \<Rightarrow>
          (let s = strip str_ws s0
           in case s of [] \<Rightarrow> Inl (ValueError ''invalid literal for int() with base 8'')
              | c # r \<Rightarrow> if c = CHR ''-'' then map_sum id uminus (int8_digits (octal_prefix r))
                         else int8_digits (octal_prefix (if c = CHR ''+'' then r else s)))
      | _ \<Rightarrow> Inl type_error)"

text \<open>\<^verbatim>\<open>str.splitlines()\<close> and \<^verbatim>\<open>str.split()\<close>; \<open>cur\<close> is the current piece, backwards.\<close>

definition line_end :: "char \<Rightarrow> bool" where
  "line_end c \<longleftrightarrow> in_range 10 13 c \<or> in_range 28 30 c \<or> (of_char c :: nat) = 133"

fun splitlines :: "string \<Rightarrow> string \<Rightarrow> string list" where
  "splitlines cur [] = (if cur = [] then [] else [rev cur])"
| "splitlines cur (c # s) =
     (if c = CR then rev cur # splitlines [] (if s \<noteq> [] \<and> hd s = LF then tl s else s)
      else if line_end c then rev cur # splitlines [] s
      else splitlines (c # cur) s)"

fun str_split :: "string \<Rightarrow> string \<Rightarrow> string list" where
  "str_split cur [] = (if cur = [] then [] else [rev cur])"
| "str_split cur (c # s) =
     (if str_ws c then (if cur = [] then [] else [rev cur]) @ str_split [] s
      else str_split (c # cur) s)"

definition aslist_cronly :: "setting \<Rightarrow> exn + string list" where
  "aslist_cronly v =
     (case v of
        SStr s \<Rightarrow> Inr (filter (\<lambda>x. x \<noteq> []) (map (strip str_ws) (splitlines [] s)))
      | SList xs \<Rightarrow> Inr xs
      | SSockets ss \<Rightarrow> (if ss = [] then Inr [] else Inl attribute_error)
      | _ \<Rightarrow> Inl type_error)"

definition aslist :: "setting \<Rightarrow> exn + string list" where
  "aslist v = map_sum id (\<lambda>values. concat (map (str_split []) values)) (aslist_cronly v)"

definition asset :: "setting \<Rightarrow> exn + string list" where
  "asset v = map_sum id remdups (aslist v)"

definition is_slash :: "char \<Rightarrow> bool" where
  "is_slash c \<longleftrightarrow> c = CHR ''/''"

definition slash_fixed :: "string \<Rightarrow> string" where
  "slash_fixed s0 =
     (let s = strip str_ws s0
      in if s \<noteq> [] then CHR ''/'' # rstrip is_slash (lstrip is_slash s) else s)"

definition slash_fixed_str :: "setting \<Rightarrow> exn + string" where
  "slash_fixed_str v = (case v of SStr s \<Rightarrow> Inr (slash_fixed s) | _ \<Rightarrow> Inl attribute_error)"

definition setting_true :: "setting \<Rightarrow> bool" where
  "setting_true v =
     (case v of SStr s \<Rightarrow> s \<noteq> [] | SInt n \<Rightarrow> n \<noteq> 0 | SBool b \<Rightarrow> b | SNone \<Rightarrow> False
      | SList xs \<Rightarrow> xs \<noteq> [] | SSockets ss \<Rightarrow> ss \<noteq> [])"

definition str_iftruthy :: "platform \<Rightarrow> setting \<Rightarrow> string option" where
  "str_iftruthy pl v = (if setting_true v then Some (as_str pl v) else None)"

text \<open>The elements of a string or of a list of strings are no sockets.\<close>

definition as_socket_list :: "setting \<Rightarrow> exn + sock list" where
  "as_socket_list v =
     (case v of SSockets ss \<Rightarrow> Inr (map the (filter (\<lambda>x. x \<noteq> None) ss))
      | SStr s \<Rightarrow> Inr [] | SList xs \<Rightarrow> Inr []
      | _ \<Rightarrow> Inl type_error)"

section \<open>The constructor\<close>

record config = adjustments +
  cf_host :: string
  cf_host_marked :: bool      \<comment> \<open>the default, a \<^verbatim>\<open>_str_marker\<close>\<close>
  cf_port :: int
  cf_port_marked :: bool      \<comment> \<open>the default, an \<^verbatim>\<open>_int_marker\<close>\<close>
  cf_ipv4 :: bool
  cf_ipv6 :: bool
  cf_listen :: "string list"
  cf_backlog :: int
  cf_asyncore_loop_timeout :: int
  cf_asyncore_use_poll :: bool
  cf_unix_socket :: "string option"
  cf_unix_socket_perms :: int
  cf_sockets :: "sock list"
  cf_wanted :: "addrinfo list"    \<comment> \<open>\<^verbatim>\<open>listen\<close> at the end of the constructor\<close>

definition default_config :: config where
  "default_config = adjustments.extend default_adjustments
     \<lparr>cf_host = ''0.0.0.0'', cf_host_marked = True, cf_port = 8080, cf_port_marked = True,
      cf_ipv4 = True, cf_ipv6 = True, cf_listen = [''0.0.0.0:8080''], cf_backlog = 1024,
      cf_asyncore_loop_timeout = 1, cf_asyncore_use_poll = False, cf_unix_socket = None,
      cf_unix_socket_perms = 384, cf_sockets = [], cf_wanted = []\<rparr>"

datatype cast = As_Str | As_Int | As_Bool | As_List | As_Set | As_Str_Iftruthy | As_Slash | As_Octal | As_Sockets

definition params :: "(string \<times> cast) list" where
  "params =
     [(''host'', As_Str), (''port'', As_Int), (''ipv4'', As_Bool), (''ipv6'', As_Bool), (''listen'', As_List),
      (''threads'', As_Int), (''trusted_proxy'', As_Str_Iftruthy), (''trusted_proxy_count'', As_Int),
      (''trusted_proxy_headers'', As_Set), (''log_untrusted_proxy_headers'', As_Bool),
      (''clear_untrusted_proxy_headers'', As_Bool), (''url_scheme'', As_Str), (''url_prefix'', As_Slash),
      (''backlog'', As_Int), (''recv_bytes'', As_Int), (''send_bytes'', As_Int), (''outbuf_overflow'', As_Int),
      (''outbuf_high_watermark'', As_Int), (''inbuf_overflow'', As_Int), (''connection_limit'', As_Int),
      (''cleanup_interval'', As_Int), (''channel_timeout'', As_Int), (''log_socket_errors'', As_Bool),
      (''max_request_header_size'', As_Int), (''max_request_body_size'', As_Int), (''expose_tracebacks'', As_Bool),
      (''ident'', As_Str_Iftruthy), (''asyncore_loop_timeout'', As_Int), (''asyncore_use_poll'', As_Bool),
      (''unix_socket'', As_Str), (''unix_socket_perms'', As_Octal), (''sockets'', As_Sockets),
      (''channel_request_lookahead'', As_Int), (''server_name'', As_Str)]"

datatype casted = CStr string | CInt int | CBool bool | CList "string list" | COpt "string option" | CSocks "sock list"

fun cast_value :: "platform \<Rightarrow> cast \<Rightarrow> setting \<Rightarrow> exn + casted" where
  "cast_value pl As_Str v = Inr (CStr (as_str pl v))"
| "cast_value pl As_Int v = map_sum id CInt (as_int v)"
| "cast_value pl As_Bool v = Inr (CBool (asbool pl v))"
| "cast_value pl As_List v = map_sum id CList (aslist v)"
| "cast_value pl As_Set v = map_sum id CList (asset v)"
| "cast_value pl As_Str_Iftruthy v = Inr (COpt (str_iftruthy pl v))"
| "cast_value pl As_Slash v = map_sum id CStr (slash_fixed_str v)"
| "cast_value pl As_Octal v = map_sum id CInt (asoctal v)"
| "cast_value pl As_Sockets v = map_sum id CSocks (as_socket_list v)"

text \<open>\<^verbatim>\<open>setattr(self, k, v)\<close>.\<close>

definition set_str :: "string \<Rightarrow> string \<Rightarrow> config \<Rightarrow> config" where
  "set_str k s c =
     (if k = ''host'' then c\<lparr>cf_host := s, cf_host_marked := False\<rparr>
      else if k = ''url_scheme'' then c\<lparr>adj_url_scheme := s\<rparr>
      else if k = ''url_prefix'' then c\<lparr>adj_url_prefix := s\<rparr>
      else if k = ''unix_socket'' then c\<lparr>cf_unix_socket := Some s\<rparr>
      else c\<lparr>adj_server_name := s\<rparr>)"

definition set_int :: "string \<Rightarrow> int \<Rightarrow> config \<Rightarrow> config" where
  "set_int k n c =
     (if k = ''port'' then c\<lparr>cf_port := n, cf_port_marked := False\<rparr>
      else if k = ''threads'' then c\<lparr>adj_threads := n\<rparr>
      else if k = ''trusted_proxy_count'' then c\<lparr>adj_trusted_proxy_count := Some n\<rparr>
      else if k = ''backlog'' then c\<lparr>cf_backlog := n\<rparr>
      else if k = ''recv_bytes'' then c\<lparr>adj_recv_bytes := n\<rparr>
      else if k = ''send_bytes'' then c\<lparr>adj_send_bytes := n\<rparr>
      else if k = ''outbuf_overflow'' then c\<lparr>adj_outbuf_overflow := n\<rparr>
      else if k = ''outbuf_high_watermark'' then c\<lparr>adj_outbuf_high_watermark := n\<rparr>
      else if k = ''inbuf_overflow'' then c\<lparr>adj_inbuf_overflow := n\<rparr>
      else if k = ''connection_limit'' then c\<lparr>adj_connection_limit := n\<rparr>
      else if k = ''cleanup_interval'' then c\<lparr>adj_cleanup_interval := n\<rparr>
      else if k = ''channel_timeout'' then c\<lparr>adj_channel_timeout := n\<rparr>
      else if k = ''max_request_header_size'' then c\<lparr>adj_max_request_header_size := n\<rparr>
      else if k = ''max_request_body_size'' then c\<lparr>adj_max_request_body_size := n\<rparr>
      else if k = ''asyncore_loop_timeout'' then c\<lparr>cf_asyncore_loop_timeout := n\<rparr>
      else if k = ''unix_socket_perms'' then c\<lparr>cf_unix_socket_perms := n\<rparr>
      else c\<lparr>adj_channel_request_lookahead := n\<rparr>)"

definition set_bool :: "string \<Rightarrow> bool \<Rightarrow> config \<Rightarrow> config" where
  "set_bool k b c =
     (if k = ''ipv4'' then c\<lparr>cf_ipv4 := b\<rparr>
      else if k = ''ipv6'' then c\<lparr>cf_ipv6 := b\<rparr>
      else if k = ''log_untrusted_proxy_headers'' then c\<lparr>adj_log_untrusted_proxy_headers := b\<rparr>
      else if k = ''clear_untrusted_proxy_headers'' then c\<lparr>adj_clear_untrusted_proxy_headers := b\<rparr>
      else if k = ''log_socket_errors'' then c\<lparr>adj_log_socket_errors := b\<rparr>
      else if k = ''expose_tracebacks'' then c\<lparr>adj_expose_tracebacks := b\<rparr>
      else c\<lparr>cf_asyncore_use_poll := b\<rparr>)"

fun set_attr :: "string \<Rightarrow> casted \<Rightarrow> config \<Rightarrow> config" where
  "set_attr k (CStr s) c = set_str k s c"
| "set_attr k (CInt n) c = set_int k n c"
| "set_attr k (CBool b) c = set_bool k b c"
| "set_attr k (CList xs) c =
     (if k = ''listen'' then c\<lparr>cf_listen := xs\<rparr> else c\<lparr>adj_trusted_proxy_headers := xs\<rparr>)"
| "set_attr k (COpt x) c =
     (if k = ''trusted_proxy'' then c\<lparr>adj_trusted_proxy := x\<rparr> else c\<lparr>adj_ident := x\<rparr>)"
| "set_attr k (CSocks ss) c = c\<lparr>cf_sockets := ss\<rparr>"

type_synonym kwargs = "(string \<times> setting) list"

definition given :: "string \<Rightarrow> kwargs \<Rightarrow> bool" where
  "given k kw \<longleftrightarrow> map_of kw k \<noteq> None"

definition check_kwargs :: "kwargs \<Rightarrow> exn option" where
  "check_kwargs kw =
     (let hp = given ''host'' kw \<or> given ''port'' kw
      in if given ''listen'' kw \<and> hp
         then Some (ValueError ''host or port may not be set if listen is set.'')
         else if given ''listen'' kw \<and> given ''sockets'' kw
         then Some (ValueError ''socket may not be set if listen is set.'')
         else if given ''sockets'' kw \<and> hp
         then Some (ValueError ''host or port may not be set if sockets is set.'')
         else if given ''sockets'' kw \<and> given ''unix_socket'' kw
         then Some (ValueError ''unix_socket may not be set if sockets is set'')
         else if given ''unix_socket'' kw \<and> hp
         then Some (ValueError ''unix_socket may not be set if host or port is set'')
         else if given ''unix_socket'' kw \<and> given ''listen'' kw
         then Some (ValueError ''unix_socket may not be set if listen is set'')
         else None)"

fun set_kwargs :: "platform \<Rightarrow> kwargs \<Rightarrow> config \<Rightarrow> exn + config" where
  "set_kwargs pl [] c = Inr c"
| "set_kwargs pl ((k, v) # kw) c =
     (case map_of params k of
        None \<Rightarrow> Inl (ValueError (''Unknown adjustment '' @ [CHR 0x27] @ k @ [CHR 0x27]))
      | Some cast \<Rightarrow>
          (case cast_value pl cast v of
             Inl e \<Rightarrow> Inl e
           | Inr x \<Rightarrow> set_kwargs pl kw (set_attr k x c)))"

definition listen_default :: "config \<Rightarrow> config" where
  "listen_default c =
     (if \<not> cf_host_marked c \<or> \<not> cf_port_marked c
      then c\<lparr>cf_listen := [cf_host c @ '':'' @ str_of_int (cf_port c)]\<rparr> else c)"

definition enabled_families :: "platform \<Rightarrow> config \<Rightarrow> exn + family" where
  "enabled_families pl c =
     (if \<not> cf_ipv4 c \<and> \<not> pl_has_ipv6 pl
      then Inl (ValueError ''IPv4 is disabled but IPv6 is not available. Cowardly refusing to start.'')
      else let f = (if cf_ipv4 c \<and> \<not> cf_ipv6 c then AF_INET else AF_UNSPEC)
           in Inr (if \<not> cf_ipv4 c \<and> cf_ipv6 c \<and> pl_has_ipv6 pl then AF_INET6 else f))"

definition is_open :: "char \<Rightarrow> bool" where "is_open c \<longleftrightarrow> c = CHR ''[''"
definition is_close :: "char \<Rightarrow> bool" where "is_close c \<longleftrightarrow> c = CHR '']''"

definition host_port :: "config \<Rightarrow> string \<Rightarrow> string \<times> string" where
  "host_port c i =
     (if CHR '':'' \<in> set i
      then let (host, port) = rsplit1 CHR '':'' i
           in if CHR '']'' \<in> set port then (i, str_of_int (cf_port c)) else (host, port)
      else (i, str_of_int (cf_port c)))"

definition host_arg :: "string \<Rightarrow> string option" where
  "host_arg host =
     (let h = (if CHR ''['' \<in> set host \<and> CHR '']'' \<in> set host then rstrip is_close (strip is_open host) else host)
      in if h = ''*'' then None else Some h)"

text \<open>The address without its zone, and the port: what may be bound only once.\<close>

definition hp_pair :: "addrinfo \<Rightarrow> string \<times> int" where
  "hp_pair a = (fst (bsplit1 ''%'' (ai_host a)), ai_port a)"

fun add_sockets :: "addrinfo list \<Rightarrow> addrinfo list \<times> (string \<times> int) list \<Rightarrow> addrinfo list \<times> (string \<times> int) list" where
  "add_sockets [] st = st"
| "add_sockets (a # as) (wanted, pairs) =
     add_sockets as
       (if ai_port a = 0 \<or> hp_pair a \<notin> set pairs then (wanted @ [a], pairs @ [hp_pair a]) else (wanted, pairs))"

fun listen_on ::
  "platform \<Rightarrow> family \<Rightarrow> config \<Rightarrow> string list \<Rightarrow> addrinfo list \<times> (string \<times> int) list
     \<Rightarrow> exn + addrinfo list \<times> (string \<times> int) list" where
  "listen_on pl f c [] st = Inr st"
| "listen_on pl f c (i # is) st =
     (let (host, port) = host_port c i;
          p = (if pl_win pl then map_sum id Inr (py_int port) else Inr (Inl port))
      in case p of
           Inl e \<Rightarrow> Inl (ValueError ''Windows does not support service names instead of port numbers'')
         | Inr p \<Rightarrow>
             (case pl_getaddrinfo pl (host_arg host) p f of
                Inl e \<Rightarrow> Inl (ValueError ''Invalid host/port specified.'')
              | Inr as \<Rightarrow> listen_on pl f c is (add_sockets as st)))"

definition KNOWN_PROXY_HEADERS :: "string list" where
  "KNOWN_PROXY_HEADERS = map proxy_header_name PROXY_HEADERS"

definition check_proxy :: "config \<Rightarrow> exn + config" where
  "check_proxy c =
     (let no_proxy = (adj_trusted_proxy c = None);
          c1 = (if adj_trusted_proxy_count c = None then c\<lparr>adj_trusted_proxy_count := Some 1\<rparr> else c);
          headers = remdups (map str_lower (adj_trusted_proxy_headers c));
          unknown = filter (\<lambda>h. h \<notin> set KNOWN_PROXY_HEADERS) headers
      in if adj_trusted_proxy_count c \<noteq> None \<and> no_proxy
         then Inl (ValueError ''trusted_proxy_count has no meaning without setting trusted_proxy'')
         else if adj_trusted_proxy_headers c \<noteq> [] \<and> no_proxy
         then Inl (ValueError ''trusted_proxy_headers has no meaning without setting trusted_proxy'')
         else if adj_trusted_proxy_headers c \<noteq> []
         then if unknown \<noteq> []
              then Inl (ValueError (''Received unknown trusted_proxy_headers value ('' @ bjoin '', '' unknown
                     @ '') expected one of '' @ bjoin '', '' KNOWN_PROXY_HEADERS))
              else if ''forwarded'' \<in> set headers \<and> filter (\<lambda>h. h \<noteq> ''forwarded'') headers \<noteq> []
              then Inl (ValueError ''The Forwarded proxy header and the X-Forwarded-{By,Host,Proto,Port,For} headers are mutually exclusive. Can't trust both!'')
              else Inr (c1\<lparr>adj_trusted_proxy_headers := headers\<rparr>)
         else if \<not> no_proxy then Inr (c1\<lparr>adj_trusted_proxy_headers := [''x-forwarded-proto'']\<rparr>)
         else Inr c1)"

definition is_inet :: "sock \<Rightarrow> bool" where
  "is_inet s \<longleftrightarrow> (sk_family s = AF_INET \<or> sk_family s = AF_INET6) \<and> sk_stream s"

text \<open>\<^verbatim>\<open>hasattr(socket, "AF_UNIX")\<close> is taken to hold.\<close>

definition is_unix :: "sock \<Rightarrow> bool" where
  "is_unix s \<longleftrightarrow> sk_family s = AF_UNIX \<and> sk_stream s"

definition check_sockets :: "sock list \<Rightarrow> exn option" where
  "check_sockets ss =
     (if list_ex (\<lambda>s. \<not> is_inet s \<and> is_unix s) ss \<and> list_ex is_inet ss
      then Some (ValueError ''Internet and UNIX sockets may not be mixed.'')
      else if list_ex (\<lambda>s. \<not> is_inet s \<and> \<not> is_unix s) ss
      then Some (ValueError ''Only Internet or UNIX stream sockets may be used.'')
      else None)"

text \<open>\<^verbatim>\<open>Adjustments(**kw)\<close>.\<close>

definition make_adjustments :: "platform \<Rightarrow> kwargs \<Rightarrow> exn + config" where
  "make_adjustments pl kw =
     (case check_kwargs kw of
        Some e \<Rightarrow> Inl e
      | None \<Rightarrow>
          (case set_kwargs pl kw default_config of
             Inl e \<Rightarrow> Inl e
           | Inr c0 \<Rightarrow>
               (let c = listen_default c0
                in case enabled_families pl c of
                     Inl e \<Rightarrow> Inl e
                   | Inr f \<Rightarrow>
                       (case listen_on pl f c (cf_listen c) ([], []) of
                          Inl e \<Rightarrow> Inl e
                        | Inr (wanted, _) \<Rightarrow>
                            (case check_proxy c of
                               Inl e \<Rightarrow> Inl e
                             | Inr c2 \<Rightarrow>
                                 (case check_sockets (cf_sockets c2) of
                                    Some e \<Rightarrow> Inl e
                                  | None \<Rightarrow> Inr (c2\<lparr>cf_wanted := wanted\<rparr>)))))))"

section \<open>What a configuration satisfies\<close>

lemma set_kwargs_induct:
  assumes "set_kwargs pl kw c = Inr c'" "P c"
    and "\<And>k v cast x c. map_of params k = Some cast \<Longrightarrow> cast_value pl cast v = Inr x \<Longrightarrow> P c \<Longrightarrow> P (set_attr k x c)"
  shows "P c'"
  using assms(1,2)
proof (induction kw arbitrary: c)
  case (Cons kv kw)
  obtain k v where kv: "kv = (k, v)" by (cases kv)
  from Cons.prems(1) kv obtain cast x where "map_of params k = Some cast" "cast_value pl cast v = Inr x"
    "set_kwargs pl kw (set_attr k x c) = Inr c'" by (auto split: option.splits sum.splits)
  with Cons.IH [of "set_attr k x c"] assms(3) [of k cast v x c] Cons.prems(2) show ?case by blast
qed simp

lemma map_sum_Inr: "map_sum f g x = Inr y \<longleftrightarrow> (\<exists>z. x = Inr z \<and> y = g z)"
  by (cases x) auto

lemma set_int_other [simp]:
  "adj_url_prefix (set_int k n c) = adj_url_prefix c"
  "adj_trusted_proxy (set_int k n c) = adj_trusted_proxy c"
  "adj_trusted_proxy_headers (set_int k n c) = adj_trusted_proxy_headers c"
  by (simp_all add: set_int_def)

lemma set_bool_other [simp]:
  "adj_url_prefix (set_bool k b c) = adj_url_prefix c"
  by (simp add: set_bool_def)

definition url_prefix_ok :: "string \<Rightarrow> bool" where
  "url_prefix_ok p \<longleftrightarrow> p = [] \<or> p = ''/'' \<or>
     (hd p = CHR ''/'' \<and> \<not> prefix ''//'' p \<and> last p \<noteq> CHR ''/'')"

lemma slash_fixed_ok: "url_prefix_ok (slash_fixed s)"
proof (cases "strip str_ws s = []")
  case True
  then show ?thesis by (simp add: slash_fixed_def url_prefix_ok_def)
next
  case False
  define m where "m = lstrip is_slash (strip str_ws s)"
  show ?thesis
  proof (cases "rstrip is_slash m = []")
    case True
    with False show ?thesis by (simp add: slash_fixed_def url_prefix_ok_def m_def [symmetric])
  next
    case r: False
    then have "last (rstrip is_slash m) \<noteq> CHR ''/''" using rstrip_last [of is_slash m] by (simp add: is_slash_def)
    moreover from r have "m \<noteq> []" by auto
    then have "hd m \<noteq> CHR ''/''" using lstrip_hd [of is_slash "strip str_ws s"] by (simp add: m_def is_slash_def)
    moreover obtain x xs where x: "rstrip is_slash m = x # xs" using r by (cases "rstrip is_slash m") auto
    moreover from x rstrip_prefix [of is_slash m] have "x = hd m" by (cases m) auto
    ultimately show ?thesis
      using False by (simp add: slash_fixed_def url_prefix_ok_def m_def [symmetric])
  qed
qed

lemma set_attr_prefix:
  assumes "map_of params k = Some cast" "cast_value pl cast v = Inr x" "url_prefix_ok (adj_url_prefix c)"
  shows "url_prefix_ok (adj_url_prefix (set_attr k x c))"
proof (cases "k = ''url_prefix''")
  case True
  then have "cast = As_Slash" using assms(1) by (simp add: params_def)
  with assms(2) True show ?thesis
    by (auto simp: map_sum_Inr slash_fixed_str_def set_str_def slash_fixed_ok split: setting.splits)
next
  case False
  then have "adj_url_prefix (set_attr k x c) = adj_url_prefix c"
    by (cases x) (simp_all add: set_str_def)
  with assms(3) show ?thesis by simp
qed

lemma make_adjustmentsE:
  assumes "make_adjustments pl kw = Inr c"
  obtains c0 f wanted pairs c2 where "check_kwargs kw = None" "set_kwargs pl kw default_config = Inr c0"
    "enabled_families pl (listen_default c0) = Inr f"
    "listen_on pl f (listen_default c0) (cf_listen (listen_default c0)) ([], []) = Inr (wanted, pairs)"
    "check_proxy (listen_default c0) = Inr c2" "check_sockets (cf_sockets c2) = None"
    "c = c2\<lparr>cf_wanted := wanted\<rparr>"
  using assms by (auto simp: make_adjustments_def Let_def split: option.splits sum.splits)

lemma check_proxy_keeps:
  assumes "check_proxy c = Inr c'"
  shows "adj_url_prefix c' = adj_url_prefix c" "cf_listen c' = cf_listen c" "cf_sockets c' = cf_sockets c"
    "adj_trusted_proxy c' = adj_trusted_proxy c" "cf_port c' = cf_port c"
  using assms by (auto simp: check_proxy_def Let_def split: if_splits)

lemma listen_default_keeps [simp]: "adj_url_prefix (listen_default c) = adj_url_prefix c"
  by (simp add: listen_default_def)

text \<open>A platform whose resolver answers every question twice, and a configuration made on it.\<close>

definition sample_platform :: platform where
  "sample_platform =
     \<lparr>pl_getaddrinfo = (\<lambda>h p f. Inr (replicate 2 \<lparr>ai_family = AF_INET, ai_type = 1, ai_proto = 6,
        ai_host = ''127.0.0.1%lo'', ai_port = 81, ai_rest = []\<rparr>)),
      pl_has_ipv6 = True, pl_win = False, pl_str = (\<lambda>v. [])\<rparr>"

definition sample_kwargs :: kwargs where
  "sample_kwargs =
     [(''listen'', SStr ''localhost:81 [::1]:81''), (''trusted_proxy'', SStr ''*''), (''threads'', SStr '' 2 ''),
      (''trusted_proxy_headers'', SStr ''Forwarded''), (''url_prefix'', SStr '' //app/ ''), (''ipv6'', SStr ''YES'')]"

definition sample_config :: config where
  "sample_config = projr (make_adjustments sample_platform sample_kwargs)"

lemma sample_config_made: "make_adjustments sample_platform sample_kwargs = Inr sample_config"
proof -
  have "\<not> isl (make_adjustments sample_platform sample_kwargs)" by code_simp
  then show ?thesis by (simp add: sample_config_def)
qed

text \<open>
  Whatever is given for \<^verbatim>\<open>url_prefix\<close>, the configured prefix is empty, or starts with exactly one slash and
  does not end with one, as \<^verbatim>\<open>WSGITask.get_environment\<close> takes for granted, or it is a single slash. No other
  setting changes it.
\<close>

theorem url_prefix_normal_form:
  assumes "make_adjustments pl kw = Inr c"
  shows "url_prefix_ok (adj_url_prefix c)"
  using assms
proof (rule make_adjustmentsE)
  fix c0 c2 wanted
  assume c: "set_kwargs pl kw default_config = Inr c0" "check_proxy (listen_default c0) = Inr c2"
    "c = c2\<lparr>cf_wanted := wanted\<rparr>"
  have "url_prefix_ok (adj_url_prefix c0)"
    by (rule set_kwargs_induct [OF c(1), where P = "\<lambda>c. url_prefix_ok (adj_url_prefix c)"])
      (simp_all add: set_attr_prefix default_config_def default_adjustments_def adjustments.defs url_prefix_ok_def [of "[]"])
  with c check_proxy_keeps(1) [OF c(2)] show ?thesis by simp
qed

theorem url_prefix_normal_form_witness:
  "url_prefix_ok (adj_url_prefix sample_config) \<and> adj_url_prefix sample_config = ''/app''"
proof
  show "url_prefix_ok (adj_url_prefix sample_config)" by (rule url_prefix_normal_form [OF sample_config_made])
  show "adj_url_prefix sample_config = ''/app''" by code_simp
qed

text \<open>
  The single slash is not what \<^verbatim>\<open>get_environment\<close> expects: \<^verbatim>\<open>SCRIPT_NAME\<close> followed by \<^verbatim>\<open>PATH_INFO\<close> then is not the
  path of the request.
\<close>

theorem slash_prefix_not_taken_off:
  "slash_fixed ''/'' = ''/'' \<and> path_info (slash_fixed ''/'') ''/a'' = ''/a''"
  by code_simp

lemma only_element:
  assumes "distinct xs" "y \<in> set xs" "filter (\<lambda>h. h \<noteq> y) xs = []"
  shows "xs = [y]"
proof -
  have "set xs \<subseteq> {y}" using assms(3) unfolding filter_empty_conv by blast
  with assms(2) have "card (set xs) = 1" by (metis card_1_singleton_iff empty_iff subset_singletonD One_nat_def)
  then have "length xs = 1" using assms(1) by (simp add: distinct_card)
  then obtain x where "xs = [x]" by (cases xs) auto
  with assms(2) show ?thesis by simp
qed

text \<open>
  C26: The proxy settings of a configuration agree with each other, as \<^verbatim>\<open>parse_proxy_headers\<close> takes for
  granted. Without a trusted proxy no header is trusted; with one there is a count, at least one header is
  trusted, all are known in the form that is compared, none is listed twice, and \<^verbatim>\<open>Forwarded\<close> is trusted
  alone or not at all.
\<close>

theorem proxy_settings_consistent:
  assumes "make_adjustments pl kw = Inr c"
  shows "adj_trusted_proxy_count c \<noteq> None
    \<and> (adj_trusted_proxy c = None \<longrightarrow> adj_trusted_proxy_headers c = [] \<and> adj_trusted_proxy_count c = Some 1)
    \<and> (adj_trusted_proxy c \<noteq> None \<longrightarrow> adj_trusted_proxy_headers c \<noteq> [])
    \<and> set (adj_trusted_proxy_headers c) \<subseteq> proxy_header_name ` set PROXY_HEADERS
    \<and> distinct (adj_trusted_proxy_headers c)
    \<and> (''forwarded'' \<in> set (adj_trusted_proxy_headers c) \<longrightarrow> adj_trusted_proxy_headers c = [''forwarded''])"
proof -
  have x: "''x-forwarded-proto'' \<in> proxy_header_name ` set PROXY_HEADERS" by code_simp
  obtain c0 c2 wanted where c: "check_proxy c0 = Inr c2" "c = c2\<lparr>cf_wanted := wanted\<rparr>"
    using assms by (rule make_adjustmentsE)
  let ?h = "remdups (map str_lower (adj_trusted_proxy_headers c0))"
  consider (listed) "adj_trusted_proxy_headers c0 \<noteq> []" "adj_trusted_proxy_headers c2 = ?h"
      "filter (\<lambda>h. h \<notin> set KNOWN_PROXY_HEADERS) ?h = []"
      "''forwarded'' \<notin> set ?h \<or> filter (\<lambda>h. h \<noteq> ''forwarded'') ?h = []" "adj_trusted_proxy c0 \<noteq> None"
      "adj_trusted_proxy_count c2 \<noteq> None"
    | (implied) "adj_trusted_proxy_headers c2 = [''x-forwarded-proto'']" "adj_trusted_proxy c0 \<noteq> None"
      "adj_trusted_proxy_count c2 \<noteq> None"
    | (none) "adj_trusted_proxy_headers c2 = []" "adj_trusted_proxy c0 = None" "adj_trusted_proxy_count c2 = Some 1"
    using c(1) by (auto simp: check_proxy_def Let_def split: if_splits)
  then show ?thesis
  proof cases
    case listed
    then have "set ?h \<subseteq> set KNOWN_PROXY_HEADERS" by (simp add: filter_empty_conv subset_iff del: set_remdups set_map)
    moreover from listed(4) have "''forwarded'' \<in> set ?h \<Longrightarrow> ?h = [''forwarded'']"
      using only_element [of ?h "''forwarded''"] distinct_remdups by blast
    ultimately show ?thesis
      using listed(1,2,5,6) c check_proxy_keeps(4) [OF c(1)] by (simp add: KNOWN_PROXY_HEADERS_def)
  next
    case implied
    with x c check_proxy_keeps(4) [OF c(1)] show ?thesis by simp
  next
    case none
    with c check_proxy_keeps(4) [OF c(1)] show ?thesis by simp
  qed
qed

theorem proxy_settings_consistent_witness:
  "set (adj_trusted_proxy_headers sample_config) \<subseteq> proxy_header_name ` set PROXY_HEADERS
    \<and> adj_trusted_proxy_headers sample_config = [''forwarded'']"
proof
  show "set (adj_trusted_proxy_headers sample_config) \<subseteq> proxy_header_name ` set PROXY_HEADERS"
    using proxy_settings_consistent [OF sample_config_made] by blast
  show "adj_trusted_proxy_headers sample_config = [''forwarded'']" by code_simp
qed

text \<open>
  A server listens where one source says so: the six checks of the constructor let a set of keywords pass
  exactly when at most one of \<^verbatim>\<open>host\<close> or \<^verbatim>\<open>port\<close>, \<^verbatim>\<open>listen\<close>, \<^verbatim>\<open>sockets\<close> and \<^verbatim>\<open>unix_socket\<close> is used.
\<close>

theorem bind_sources_exclusive:
  "check_kwargs kw = None \<longleftrightarrow>
     length (filter id [given ''host'' kw \<or> given ''port'' kw, given ''listen'' kw, given ''sockets'' kw,
       given ''unix_socket'' kw]) \<le> 1"
  by (cases "given ''host'' kw \<or> given ''port'' kw"; cases "given ''listen'' kw"; cases "given ''sockets'' kw";
      cases "given ''unix_socket'' kw") (simp_all add: check_kwargs_def)

definition wanted_ok :: "addrinfo list \<times> (string \<times> int) list \<Rightarrow> bool" where
  "wanted_ok st \<longleftrightarrow> snd st = map hp_pair (fst st) \<and> distinct (map hp_pair (filter (\<lambda>a. ai_port a \<noteq> 0) (fst st)))"

lemma add_sockets_ok:
  "wanted_ok st \<Longrightarrow> wanted_ok (add_sockets as st)
     \<and> hp_pair ` (set as \<union> set (fst st)) = hp_pair ` set (fst (add_sockets as st))
     \<and> set (fst (add_sockets as st)) \<subseteq> set as \<union> set (fst st)"
proof (induction as st rule: add_sockets.induct)
  case (2 a as wanted pairs)
  let ?st = "if ai_port a = 0 \<or> hp_pair a \<notin> set pairs then (wanted @ [a], pairs @ [hp_pair a]) else (wanted, pairs)"
  have "wanted_ok ?st" using 2(2) by (auto simp: wanted_ok_def)
  note ih = 2(1) [OF this]
  have e: "hp_pair ` (set (a # as) \<union> set wanted) = hp_pair ` (set as \<union> set (fst ?st))"
    using 2(2) by (auto simp: wanted_ok_def)
  have s: "set (fst ?st) \<subseteq> insert a (set wanted)" by auto
  have a: "add_sockets (a # as) (wanted, pairs) = add_sockets as ?st" by simp
  show ?case unfolding a using ih e s by auto
qed simp

lemma listen_on_ok:
  "listen_on pl f c is st = Inr st' \<Longrightarrow> wanted_ok st \<Longrightarrow> \<not> pl_win pl \<Longrightarrow>
     wanted_ok st' \<and> hp_pair ` set (fst st) \<subseteq> hp_pair ` set (fst st')
     \<and> (\<forall>i \<in> set is. \<exists>as. pl_getaddrinfo pl (host_arg (fst (host_port c i))) (Inl (snd (host_port c i))) f = Inr as
          \<and> hp_pair ` set as \<subseteq> hp_pair ` set (fst st'))"
proof (induction "is" arbitrary: st)
  case (Cons i "is")
  obtain host port where hp: "host_port c i = (host, port)" by fastforce
  with Cons.prems(1,3) obtain as where as: "pl_getaddrinfo pl (host_arg host) (Inl port) f = Inr as"
    "listen_on pl f c is (add_sockets as st) = Inr st'" by (auto split: sum.splits)
  have "wanted_ok (add_sockets as st)" "hp_pair ` (set as \<union> set (fst st)) = hp_pair ` set (fst (add_sockets as st))"
    using add_sockets_ok [OF Cons.prems(2), of as] by simp_all
  with Cons.IH [OF as(2) _ Cons.prems(3)] hp as(1) show ?case by auto
qed simp

text \<open>
  C27: The sockets that a server will listen on: for every entry of \<^verbatim>\<open>listen\<close> the name resolution succeeded and
  each address of the answer, up to its zone, is there; and no address is there twice with the same port,
  unless the port is 0, so that binding them does not fail for that reason.
\<close>

theorem listen_sockets:
  assumes "make_adjustments pl kw = Inr c" "\<not> pl_win pl"
  shows "distinct (map hp_pair (filter (\<lambda>a. ai_port a \<noteq> 0) (cf_wanted c)))
    \<and> (\<forall>i \<in> set (cf_listen c). \<exists>f as.
          pl_getaddrinfo pl (host_arg (fst (host_port c i))) (Inl (snd (host_port c i))) f = Inr as
          \<and> hp_pair ` set as \<subseteq> hp_pair ` set (cf_wanted c))"
  using assms(1)
proof (rule make_adjustmentsE)
  fix c0 f wanted pairs c2
  assume a: "listen_on pl f (listen_default c0) (cf_listen (listen_default c0)) ([], []) = Inr (wanted, pairs)"
    "check_proxy (listen_default c0) = Inr c2" "c = c2\<lparr>cf_wanted := wanted\<rparr>"
  have "wanted_ok ([], [])" by (simp add: wanted_ok_def)
  note l = listen_on_ok [OF a(1) this assms(2)]
  have p: "host_port c i = host_port (listen_default c0) i" for i
  proof -
    have "cf_port c = cf_port (listen_default c0)" using check_proxy_keeps(5) [OF a(2)] a(3) by simp
    then show ?thesis by (simp only: host_port_def)
  qed
  have "cf_listen c = cf_listen (listen_default c0)" using check_proxy_keeps(2) [OF a(2)] a(3) by simp
  moreover have w: "cf_wanted c = wanted" using a(3) by simp
  ultimately have "\<forall>i \<in> set (cf_listen c). \<exists>as.
      pl_getaddrinfo pl (host_arg (fst (host_port c i))) (Inl (snd (host_port c i))) f = Inr as
      \<and> hp_pair ` set as \<subseteq> hp_pair ` set (cf_wanted c)" using l unfolding p by simp
  then have "\<forall>i \<in> set (cf_listen c). \<exists>f as.
      pl_getaddrinfo pl (host_arg (fst (host_port c i))) (Inl (snd (host_port c i))) f = Inr as
      \<and> hp_pair ` set as \<subseteq> hp_pair ` set (cf_wanted c)" by blast
  with l w show ?thesis unfolding wanted_ok_def by simp
qed

theorem listen_sockets_witness:
  "distinct (map hp_pair (filter (\<lambda>a. ai_port a \<noteq> 0) (cf_wanted sample_config)))
    \<and> map hp_pair (cf_wanted sample_config) = [(''127.0.0.1'', 81)]"
proof
  have "\<not> pl_win sample_platform" by (simp add: sample_platform_def)
  then show "distinct (map hp_pair (filter (\<lambda>a. ai_port a \<noteq> 0) (cf_wanted sample_config)))"
    using listen_sockets [OF sample_config_made] by blast
  show "map hp_pair (cf_wanted sample_config) = [(''127.0.0.1'', 81)]" by code_simp
qed

end
