(* ===== verification/Command_Line.thy ===== *)
theory Command_Line
  imports Config
begin

text \<open>
  The command line: \<^verbatim>\<open>Adjustments.parse_args\<close> with \<^verbatim>\<open>getopt.getopt\<close> of the standard library for long
  options, \<^verbatim>\<open>resolve_wsgi_app\<close>, and \<^verbatim>\<open>runner.run\<close>. Importing the application
  (\<^verbatim>\<open>pkgutil.resolve_name\<close>) and calling it are arguments.
\<close>

datatype cli_error = GetoptError string | AppResolutionError string | Uncaught exn

text \<open>A value of the dictionary \<^verbatim>\<open>kw\<close>.\<close>

datatype 'a arg = AStr string | ABool bool | ANone | AApp 'a

definition dashes :: "string \<Rightarrow> string" where
  "dashes s = map (\<lambda>c. if c = CHR ''_'' then CHR ''-'' else c) s"

definition underscores :: "string \<Rightarrow> string" where
  "underscores s = map (\<lambda>c. if c = CHR ''-'' then CHR ''_'' else c) s"

definition is_dash :: "char \<Rightarrow> bool" where
  "is_dash c \<longleftrightarrow> c = CHR ''-''"

definition param_opts :: "string \<times> cast \<Rightarrow> string list" where
  "param_opts = (\<lambda>(opt, cast). if cast = As_Bool then [dashes opt, ''no-'' @ dashes opt] else [dashes opt @ ''=''])"

definition long_opts :: "string list" where
  "long_opts = [''help'', ''call''] @ concat (map param_opts params) @ [''app='']"

section \<open>getopt\<close>

definition long_has_args :: "string \<Rightarrow> string list \<Rightarrow> cli_error + bool \<times> string" where
  "long_has_args opt longopts =
     (let possibilities = filter (prefix opt) longopts
      in if possibilities = [] then Inl (GetoptError (''option --'' @ opt @ '' not recognized''))
         else if opt \<in> set possibilities then Inr (False, opt)
         else if opt @ ''='' \<in> set possibilities then Inr (True, opt)
         else if 1 < length possibilities then Inl (GetoptError (''option --'' @ opt @ '' not a unique prefix''))
         else let m = hd possibilities
              in if suffix ''='' m then Inr (True, butlast m) else Inr (False, m))"

definition do_longs :: "string list \<Rightarrow> string \<Rightarrow> string list \<Rightarrow> cli_error + (string \<times> string) \<times> string list" where
  "do_longs longopts opt0 args =
     (let (opt, optarg) = (case bfind ''='' opt0 of None \<Rightarrow> (opt0, None)
                           | Some i \<Rightarrow> (take i opt0, Some (drop (i + 1) opt0)))
      in case long_has_args opt longopts of
           Inl e \<Rightarrow> Inl e
         | Inr (has_arg, name) \<Rightarrow>
             if has_arg
             then (case optarg of
                     Some v \<Rightarrow> Inr ((''--'' @ name, v), args)
                   | None \<Rightarrow>
                       (case args of [] \<Rightarrow> Inl (GetoptError (''option --'' @ name @ '' requires argument''))
                        | v # args' \<Rightarrow> Inr ((''--'' @ name, v), args')))
             else if optarg \<noteq> None
             then Inl (GetoptError (''option --'' @ name @ '' must not have an argument''))
             else Inr ((''--'' @ name, []), args))"

lemma do_longs_length: "do_longs lo opt args = Inr (x, args') \<Longrightarrow> length args' \<le> length args"
  by (auto simp: do_longs_def Let_def split: sum.splits option.splits list.splits prod.splits if_splits)

text \<open>With \<^verbatim>\<open>shortopts\<close> empty every argument with a single dash is refused.\<close>

function getopt :: "string list \<Rightarrow> string list \<Rightarrow> cli_error + (string \<times> string) list \<times> string list" where
  "getopt lo [] = Inr ([], [])"
| "getopt lo (a # args) =
     (if \<not> prefix ''-'' a \<or> a = ''-'' then Inr ([], a # args)
      else if a = ''--'' then Inr ([], args)
      else if prefix ''--'' a
      then (case do_longs lo (drop 2 a) args of
              Inl e \<Rightarrow> Inl e
            | Inr (x, args') \<Rightarrow>
                (case getopt lo args' of Inl e \<Rightarrow> Inl e | Inr (opts, rest) \<Rightarrow> Inr (x # opts, rest)))
      else Inl (GetoptError (''option '' @ take 2 a @ '' not recognized'')))"
  by pat_completeness auto
termination
  by (relation "measure (\<lambda>(lo, args). length args)") (auto dest: do_longs_length)

section \<open>parse_args\<close>

type_synonym 'a args = "(string \<times> 'a arg) list"

definition arg_str :: "'a arg option \<Rightarrow> string" where
  "arg_str x = (case x of Some (AStr s) \<Rightarrow> s | _ \<Rightarrow> [])"

text \<open>One round of the loop over the options; the state is \<^verbatim>\<open>kw\<close> and \<^verbatim>\<open>app\<close>.\<close>

definition parse_opt :: "string \<times> string \<Rightarrow> 'a args \<times> string option \<Rightarrow> cli_error + 'a args \<times> string option" where
  "parse_opt ov st =
     (let (opt, v) = ov; (kw, app) = st; param = underscores (lstrip is_dash opt)
      in if param = ''listen''
         then Inr (AList.update ''listen'' (AStr (arg_str (map_of kw ''listen'') @ '' '' @ v)) kw, app)
         else if prefix ''no_'' param
         then Inr (AList.update (drop 3 param) (AStr ''false'') kw, app)
         else if param = ''help'' \<or> param = ''call'' then Inr (AList.update param (ABool True) kw, app)
         else if param = ''app'' then Inr (kw, Some v)
         else (case map_of params param of
                 None \<Rightarrow> Inl (Uncaught key_error)
               | Some cast \<Rightarrow>
                   if cast = As_Bool then Inr (AList.update param (AStr ''true'') kw, app)
                   else Inr (AList.update param (AStr v) kw, app)))"

fun parse_opts :: "(string \<times> string) list \<Rightarrow> 'a args \<times> string option \<Rightarrow> cli_error + 'a args \<times> string option" where
  "parse_opts [] st = Inr st"
| "parse_opts (ov # opts) st =
     (case parse_opt ov st of Inl e \<Rightarrow> Inl e | Inr st' \<Rightarrow> parse_opts opts st')"

text \<open>\<^verbatim>\<open>ValueError\<close>, \<^verbatim>\<open>ImportError\<close> and \<^verbatim>\<open>AttributeError\<close> of \<^verbatim>\<open>resolve_name\<close> come with their text.\<close>

definition resolve_wsgi_app ::
  "(string \<Rightarrow> (string + exn) + 'a) \<Rightarrow> ('a \<Rightarrow> exn + 'a) \<Rightarrow> string \<Rightarrow> bool \<Rightarrow> cli_error + 'a" where
  "resolve_wsgi_app resolve_name call_app name call =
     (case resolve_name name of
        Inl (Inl msg) \<Rightarrow> Inl (AppResolutionError (''Cannot import WSGI application '' @ [CHR 0x27] @ name @ [CHR 0x27] @ '': '' @ msg))
      | Inl (Inr e) \<Rightarrow> Inl (Uncaught e)
      | Inr app \<Rightarrow> if call then map_sum Uncaught id (call_app app) else Inr app)"

definition initial_args :: "'a args" where
  "initial_args = [(''help'', ABool False), (''call'', ABool False), (''app'', ANone)]"

definition parse_args ::
  "(string \<Rightarrow> (string + exn) + 'a) \<Rightarrow> ('a \<Rightarrow> exn + 'a) \<Rightarrow> string list \<Rightarrow> cli_error + 'a args" where
  "parse_args resolve_name call_app argv =
     (case getopt long_opts argv of
        Inl e \<Rightarrow> Inl e
      | Inr (opts, args) \<Rightarrow>
          (case parse_opts opts (initial_args, None) of
             Inl e \<Rightarrow> Inl e
           | Inr (kw, app) \<Rightarrow>
               if map_of kw ''help'' = Some (ABool True) then Inr (AList.delete ''call'' kw)
               else let (app1, args1) = (if app = None \<and> args \<noteq> [] then (Some (hd args), tl args) else (app, args))
                    in (case app1 of
                         None \<Rightarrow> Inl (AppResolutionError ''Specify an application'')
                       | Some name \<Rightarrow>
                           if args1 \<noteq> [] then Inl (AppResolutionError ''Provide only one WSGI app'')
                           else (case resolve_wsgi_app resolve_name call_app name (map_of kw ''call'' = Some (ABool True)) of
                                   Inl e \<Rightarrow> Inl e
                                 | Inr a \<Rightarrow> Inr (AList.delete ''call'' (AList.update ''app'' (AApp a) kw))))))"

section \<open>runner.run\<close>

datatype 'a run_result =
    Shows_Error string      \<comment> \<open>help and the error on standard error, exit status 1\<close>
  | Shows_Help              \<comment> \<open>exit status 0\<close>
  | Serves "'a arg" kwargs  \<comment> \<open>\<^verbatim>\<open>serve(app, **kw)\<close>\<close>
  | Raises exn

fun setting_of :: "'a arg \<Rightarrow> setting" where
  "setting_of (AStr s) = SStr s"
| "setting_of (ABool b) = SBool b"
| "setting_of _ = SNone"

definition run :: "(string \<Rightarrow> (string + exn) + 'a) \<Rightarrow> ('a \<Rightarrow> exn + 'a) \<Rightarrow> string list \<Rightarrow> 'a run_result" where
  "run resolve_name call_app argv =
     (case parse_args resolve_name call_app (tl argv) of
        Inl (GetoptError msg) \<Rightarrow> Shows_Error msg
      | Inl (AppResolutionError msg) \<Rightarrow> Shows_Error msg
      | Inl (Uncaught e) \<Rightarrow> Raises e
      | Inr kw \<Rightarrow>
          if map_of kw ''help'' = Some (ABool True) then Shows_Help
          else Serves (the (map_of kw ''app''))
                 (map (\<lambda>(k, v). (k, setting_of v)) (AList.delete ''app'' (AList.delete ''help'' kw))))"

section \<open>Properties\<close>

lemma str_split_append:
  "str_ws c \<Longrightarrow> str_split cur (s @ c # t) = str_split cur s @ str_split [] t"
  by (induction s arbitrary: cur) auto

lemma str_split_lstrip: "str_split [] (lstrip str_ws s) = str_split [] s"
  by (induction s) (auto simp: lstrip_def)

lemma str_split_ws: "list_all str_ws w \<Longrightarrow> str_split cur (s @ w) = str_split cur s"
proof (cases w)
  case (Cons c t)
  assume w: "list_all str_ws w"
  have "list_all str_ws t \<Longrightarrow> str_split [] t = []" for t by (induction t) auto
  with w Cons show ?thesis by (simp add: str_split_append)
qed simp

lemma rstrip_split: "\<exists>w. s = rstrip p s @ w \<and> list_all p w"
proof (intro exI conjI)
  show "s = rstrip p s @ rev (takeWhile p (rev s))"
    unfolding rstrip_def rev_append [symmetric] takeWhile_dropWhile_id by simp
  show "list_all p (rev (takeWhile p (rev s)))"
    by (auto simp: list_all_iff dest: set_takeWhileD)
qed

lemma str_split_strip: "str_split [] (strip str_ws s) = str_split [] s"
proof -
  obtain w where w: "lstrip str_ws s = rstrip str_ws (lstrip str_ws s) @ w" "list_all str_ws w"
    using rstrip_split by blast
  have "str_split [] (lstrip str_ws s) = str_split [] (rstrip str_ws (lstrip str_ws s))"
    by (subst w(1)) (rule str_split_ws [OF w(2)])
  then show ?thesis by (simp add: strip_def str_split_lstrip)
qed

lemma line_end_ws: "line_end c \<Longrightarrow> str_ws c"
  by (auto simp: line_end_def str_ws_def in_range_def)

lemma splitlines_split:
  "concat (map (str_split []) (splitlines cur s)) = str_split [] (rev cur @ s)"
proof (induction cur s rule: splitlines.induct)
  case (2 cur c s)
  have ws: "str_ws CR" "str_ws LF" by (simp_all add: str_ws_def in_range_def)
  show ?case
  proof (cases "c = CR")
    case True
    have "str_split [] (if s \<noteq> [] \<and> hd s = LF then tl s else s) = str_split [] s"
      using ws by (cases s) auto
    with True 2(1) ws show ?thesis by (simp add: str_split_append)
  next
    case False
    with 2(2,3) line_end_ws show ?thesis by (auto simp: str_split_append)
  qed
qed simp

lemma aslist_words: "aslist (SStr s) = Inr (str_split [] s)"
proof -
  have "concat (map (str_split []) (filter (\<lambda>x. x \<noteq> []) (map (strip str_ws) xs))) = concat (map (str_split []) xs)"
    for xs
    by (induction xs) (simp_all, metis str_split.simps(1) str_split_strip)
  then show ?thesis using splitlines_split [of "[]" s] by (simp add: aslist_def aslist_cronly_def)
qed

definition option_name :: "string \<Rightarrow> string" where
  "option_name x = (if suffix ''='' x then butlast x else x)"

text \<open>What the loop needs to know of an option.\<close>

definition option_ok :: "string \<Rightarrow> bool" where
  "option_ok opt \<longleftrightarrow>
     (let param = underscores (lstrip is_dash opt)
      in if param = ''listen'' then opt = ''--listen''
         else opt \<noteq> ''--listen'' \<and>
           (if prefix ''no_'' param then drop 3 param \<noteq> ''listen'' \<and> map_of params (drop 3 param) \<noteq> None
            else param = ''help'' \<or> param = ''call'' \<or> param = ''app'' \<or> map_of params param \<noteq> None))"

lemma long_opts_ok: "list_all (\<lambda>x. option_ok (''--'' @ option_name x)) long_opts"
  by code_simp

lemma option_name_plain: "CHR ''='' \<notin> set x \<Longrightarrow> option_name x = x"
  by (auto simp: option_name_def suffix_def)

lemma long_has_args_name:
  assumes "long_has_args opt lo = Inr (b, name)" "CHR ''='' \<notin> set opt"
  shows "name \<in> option_name ` set lo"
proof -
  let ?p = "filter (prefix opt) lo"
  from assms(1) consider "name = opt" "opt \<in> set ?p" | "name = opt" "opt @ ''='' \<in> set ?p"
    | "?p \<noteq> []" "name = option_name (hd ?p)"
    by (auto simp: long_has_args_def Let_def option_name_def split: if_splits)
  then show ?thesis
  proof cases
    case 1
    with option_name_plain [OF assms(2)] show ?thesis by force
  next
    case 2
    have "option_name (opt @ ''='') = opt" by (simp add: option_name_def)
    moreover have "opt @ ''='' \<in> set lo" using 2(2) by simp
    ultimately show ?thesis using 2(1) by (metis image_eqI)
  next
    case 3
    then have "hd ?p \<in> set lo" using hd_in_set [of ?p] by auto
    with 3 show ?thesis by simp
  qed
qed

lemma do_longs_name:
  assumes "do_longs lo opt0 args = Inr ((opt, v), args')"
  shows "\<exists>x \<in> set lo. opt = ''--'' @ option_name x"
proof -
  obtain o1 ov where o: "(case bfind ''='' opt0 of None \<Rightarrow> (opt0, None)
      | Some i \<Rightarrow> (take i opt0, Some (drop (i + 1) opt0))) = (o1, ov)" by fastforce
  have "CHR ''='' \<notin> set o1"
  proof (cases "bfind ''='' opt0")
    case None
    with o show ?thesis by simp
  next
    case (Some i)
    with o bfind_take_None [OF Some, of i] show ?thesis by auto
  qed
  moreover obtain b name where "long_has_args o1 lo = Inr (b, name)" "opt = ''--'' @ name"
  proof (cases "long_has_args o1 lo")
    case (Inr bn)
    obtain b name where bn: "bn = (b, name)" by fastforce
    from assms have "opt = ''--'' @ name"
      unfolding do_longs_def o Let_def Inr bn prod.case sum.case
      by (auto split: option.splits list.splits if_splits)
    with Inr bn that show ?thesis by blast
  next
    case (Inl e)
    with assms show ?thesis unfolding do_longs_def o Let_def by simp
  qed
  ultimately have "name \<in> option_name ` set lo" by (auto dest: long_has_args_name)
  with \<open>opt = ''--'' @ name\<close> show ?thesis by blast
qed

lemma getopt_names:
  "getopt lo args = Inr (opts, rest) \<Longrightarrow> (opt, v) \<in> set opts \<Longrightarrow> \<exists>x \<in> set lo. opt = ''--'' @ option_name x"
proof (induction lo args arbitrary: opts rest rule: getopt.induct)
  case (2 lo a args)
  from 2(2,3) obtain x args' opts' where x: "prefix ''-'' a" "a \<noteq> ''-''" "a \<noteq> ''--''" "prefix ''--'' a"
    "do_longs lo (drop 2 a) args = Inr (x, args')" "getopt lo args' = Inr (opts', rest)" "opts = x # opts'"
    by (auto split: if_splits sum.splits)
  show ?case
  proof (cases "(opt, v) = x")
    case True
    with x(5) do_longs_name show ?thesis by blast
  next
    case False
    with 2(3) x(7) have "(opt, v) \<in> set opts'" by simp
    with 2(1) [OF _ x(3,4,5) _ x(6)] x(1,2) show ?thesis by blast
  qed
qed simp

lemma getopt_ok:
  assumes "getopt long_opts args = Inr (opts, rest)"
  shows "\<forall>x \<in> set opts. option_ok (fst x)"
proof
  fix x
  assume "x \<in> set opts"
  then have "\<exists>y \<in> set long_opts. fst x = ''--'' @ option_name y"
    using getopt_names [OF assms, of "fst x" "snd x"] by simp
  then show "option_ok (fst x)" using long_opts_ok unfolding list_all_iff by auto
qed

definition kw_ok :: "'a args \<Rightarrow> bool" where
  "kw_ok kw \<longleftrightarrow> (\<forall>(k, v) \<in> set kw. k \<in> {''help'', ''call'', ''app''} \<or> (map_of params k \<noteq> None \<and> (\<exists>s. v = AStr s)))"

lemma set_update: "set (AList.update k v al) \<subseteq> insert (k, v) (set al)"
  by (induction al) auto

lemma kw_ok_update:
  assumes "kw_ok kw" "k \<in> {''help'', ''call'', ''app''} \<or> (map_of params k \<noteq> None \<and> (\<exists>s. v = AStr s))"
  shows "kw_ok (AList.update k v kw)"
proof -
  let ?ok = "\<lambda>(k, v). k \<in> {''help'', ''call'', ''app''} \<or> (map_of params k \<noteq> None \<and> (\<exists>s. v = AStr s))"
  have "\<forall>x \<in> insert (k, v) (set kw). ?ok x" using assms unfolding kw_ok_def by (simp only: ball_simps prod.case simp_thms)
  then show ?thesis using set_update [of k v kw] unfolding kw_ok_def by (meson subsetD)
qed

lemma listen_known: "map_of params ''listen'' = Some As_List"
  by (simp add: params_def)

lemma parse_opt_ok:
  assumes "option_ok opt" "kw_ok kw"
  shows "\<exists>kw' app'. parse_opt (opt, v) (kw, app) = Inr (kw', app') \<and> kw_ok kw'
    \<and> map_of kw' ''listen'' = (if opt = ''--listen'' then Some (AStr (arg_str (map_of kw ''listen'') @ '' '' @ v))
                              else map_of kw ''listen'')"
proof -
  let ?p = "underscores (lstrip is_dash opt)"
  from assms(1) consider (listen) "?p = ''listen''" "opt = ''--listen''"
    | (no) "?p \<noteq> ''listen''" "opt \<noteq> ''--listen''" "prefix ''no_'' ?p" "drop 3 ?p \<noteq> ''listen''" "map_of params (drop 3 ?p) \<noteq> None"
    | (flag) "?p \<noteq> ''listen''" "opt \<noteq> ''--listen''" "\<not> prefix ''no_'' ?p" "?p = ''help'' \<or> ?p = ''call''"
    | (app) "?p \<noteq> ''listen''" "opt \<noteq> ''--listen''" "\<not> prefix ''no_'' ?p" "?p = ''app''"
    | (param) cast where "?p \<noteq> ''listen''" "opt \<noteq> ''--listen''" "\<not> prefix ''no_'' ?p"
        "\<not> (?p = ''help'' \<or> ?p = ''call'')" "?p \<noteq> ''app''" "map_of params ?p = Some cast"
    unfolding option_ok_def Let_def by (metis (no_types, lifting) option.exhaust)
  then show ?thesis
  proof cases
    case listen
    then show ?thesis using assms(2) listen_known by (simp add: parse_opt_def Let_def kw_ok_update update_conv')
  next
    case no
    then show ?thesis using assms(2) by (simp add: parse_opt_def Let_def kw_ok_update update_conv')
  next
    case flag
    then show ?thesis using assms(2) by (auto simp: parse_opt_def Let_def kw_ok_update update_conv')
  next
    case app
    then show ?thesis using assms(2) by (simp add: parse_opt_def Let_def)
  next
    case param
    then show ?thesis using assms(2) by (simp add: parse_opt_def Let_def kw_ok_update update_conv')
  qed
qed

lemma parse_opts_ok:
  assumes "\<forall>x \<in> set opts. option_ok (fst x)" "kw_ok kw"
  shows "\<exists>kw' app'. parse_opts opts (kw, app) = Inr (kw', app') \<and> kw_ok kw'
    \<and> str_split [] (arg_str (map_of kw' ''listen'')) =
        str_split [] (arg_str (map_of kw ''listen'')) @ concat (map (\<lambda>(opt, v). if opt = ''--listen'' then str_split [] v else []) opts)
    \<and> (map_of kw ''listen'' \<noteq> None \<or> ''--listen'' \<in> fst ` set opts \<longrightarrow> map_of kw' ''listen'' \<noteq> None)"
  using assms
proof (induction opts arbitrary: kw app)
  case (Cons ov opts)
  obtain opt v where ov: "ov = (opt, v)" by fastforce
  have opts: "\<forall>x \<in> set opts. option_ok (fst x)" and "option_ok opt"
    using Cons.prems(1) by (simp_all add: ov)
  with Cons.prems(2) obtain kw1 app1 where 1: "parse_opt (opt, v) (kw, app) = Inr (kw1, app1)" "kw_ok kw1"
    "map_of kw1 ''listen'' = (if opt = ''--listen'' then Some (AStr (arg_str (map_of kw ''listen'') @ '' '' @ v))
                              else map_of kw ''listen'')" using parse_opt_ok by blast
  have sp: "str_ws SP" by (simp add: str_ws_def in_range_def)
  obtain kw' app' where 2: "parse_opts opts (kw1, app1) = Inr (kw', app')" "kw_ok kw'"
    "str_split [] (arg_str (map_of kw' ''listen'')) = str_split [] (arg_str (map_of kw1 ''listen'')) @
       concat (map (\<lambda>(opt, v). if opt = ''--listen'' then str_split [] v else []) opts)"
    "map_of kw1 ''listen'' \<noteq> None \<or> ''--listen'' \<in> fst ` set opts \<longrightarrow> map_of kw' ''listen'' \<noteq> None"
    using Cons.IH [OF opts 1(2)] by blast
  have "str_split [] (arg_str (map_of kw1 ''listen'')) = str_split [] (arg_str (map_of kw ''listen'')) @
      (if opt = ''--listen'' then str_split [] v else [])"
    using 1(3) sp by (simp add: arg_str_def str_split_append)
  with 1 2 show ?case by (auto simp: ov)
qed simp

lemma initial_args_ok: "kw_ok initial_args" "map_of initial_args ''listen'' = None"
  by (simp_all add: initial_args_def kw_ok_def)

lemma parse_argv_ok:
  assumes g: "getopt long_opts argv = Inr (opts, rest)"
  obtains kw0 :: "'a args" and app where "parse_opts opts (initial_args, None) = Inr (kw0, app)" "kw_ok kw0"
    "str_split [] (arg_str (map_of kw0 ''listen'')) =
       concat (map (\<lambda>(opt, v). if opt = ''--listen'' then str_split [] v else []) opts)"
    "''--listen'' \<in> fst ` set opts \<longrightarrow> map_of kw0 ''listen'' \<noteq> None"
proof -
  have "str_split [] (arg_str (map_of (initial_args :: 'a args) ''listen'')) = []"
    unfolding initial_args_ok(2) by (simp add: arg_str_def)
  note e = this
  obtain kw0 :: "'a args" and app where "parse_opts opts (initial_args, None) = Inr (kw0, app) \<and> kw_ok kw0
    \<and> str_split [] (arg_str (map_of kw0 ''listen'')) =
        concat (map (\<lambda>(opt, v). if opt = ''--listen'' then str_split [] v else []) opts)
    \<and> (map_of (initial_args :: 'a args) ''listen'' \<noteq> None \<or> ''--listen'' \<in> fst ` set opts
         \<longrightarrow> map_of kw0 ''listen'' \<noteq> None)"
    using parse_opts_ok [OF getopt_ok [OF g] initial_args_ok(1) [where 'a = 'a], of None] unfolding e append_Nil by blast
  then show thesis by (intro that) blast+
qed

lemma do_longs_catches: "do_longs lo opt args \<noteq> Inl (Uncaught e)"
proof -
  have "long_has_args opt lo \<noteq> Inl (Uncaught e)" for opt by (simp add: long_has_args_def Let_def)
  then show ?thesis by (auto simp: do_longs_def Let_def split: sum.splits option.splits list.splits prod.splits if_splits)
qed

lemma getopt_catches: "getopt lo args \<noteq> Inl (Uncaught e)"
proof (induction lo args rule: getopt.induct)
  case (2 lo a args)
  show ?case
  proof
    assume "getopt lo (a # args) = Inl (Uncaught e)"
    then obtain x args' where x: "prefix ''-'' a" "a \<noteq> ''-''" "a \<noteq> ''--''" "prefix ''--'' a"
      "do_longs lo (drop 2 a) args = Inr (x, args')" "getopt lo args' = Inl (Uncaught e)"
      using do_longs_catches [of lo "drop 2 a" args e] by (auto split: if_splits sum.splits)
    with 2 [OF _ x(3,4,5) refl] show False by blast
  qed
qed simp

lemma set_delete: "set (AList.delete k al) = {x \<in> set al. fst x \<noteq> k}"
  by (induction al) auto

lemma parse_args_cases:
  assumes "getopt long_opts argv = Inr (opts, rest)" "parse_opts opts (initial_args, None) = Inr (kw0, app)"
    and "parse_args r c argv = Inr kw"
  shows "kw = AList.delete ''call'' kw0 \<or> (\<exists>a. kw = AList.delete ''call'' (AList.update ''app'' (AApp a) kw0))"
  using assms(3) unfolding parse_args_def assms(1,2) sum.case prod.case Let_def
  by (auto split: if_splits sum.splits option.splits)

text \<open>
  C28: What the command line hands to the server. When \<^verbatim>\<open>parse_args\<close> succeeds, every entry other than
  \<^verbatim>\<open>help\<close> and \<^verbatim>\<open>app\<close> is the text of a setting that \<^verbatim>\<open>Adjustments\<close> knows, so that the names of the options
  and of the settings cannot get out of step; and \<^verbatim>\<open>--listen\<close> may be repeated: converted by \<^verbatim>\<open>aslist\<close>, its entry
  holds the words of all its occurrences in their order.
\<close>

theorem command_line_settings:
  assumes "parse_args r c argv = Inr (kw :: 'a args)"
  shows "(\<forall>(k, v) \<in> set kw. k = ''help'' \<or> k = ''app'' \<or> (map_of params k \<noteq> None \<and> (\<exists>s. v = AStr s)))
    \<and> (\<exists>opts rest. getopt long_opts argv = Inr (opts, rest) \<and>
         (''--listen'' \<in> fst ` set opts \<longrightarrow>
            (\<exists>s. map_of kw ''listen'' = Some (AStr s) \<and>
               aslist (SStr s) = Inr (concat (map (\<lambda>(opt, v). if opt = ''--listen'' then str_split [] v else []) opts)))))"
proof -
  from assms obtain opts rest where g: "getopt long_opts argv = Inr (opts, rest)"
    by (auto simp: parse_args_def split: sum.splits)
  obtain kw0 :: "'a args" and app where p: "parse_opts opts (initial_args, None) = Inr (kw0, app)" "kw_ok kw0"
    "str_split [] (arg_str (map_of kw0 ''listen'')) =
       concat (map (\<lambda>(opt, v). if opt = ''--listen'' then str_split [] v else []) opts)"
    "''--listen'' \<in> fst ` set opts \<longrightarrow> map_of kw0 ''listen'' \<noteq> None"
    using g by (rule parse_argv_ok)
  from parse_args_cases [OF g p(1) assms] obtain v where kw:
    "set kw \<subseteq> {x. fst x \<noteq> ''call''} \<inter> insert (''app'', v) (set kw0)" "map_of kw ''listen'' = map_of kw0 ''listen''"
  proof
    assume "kw = AList.delete ''call'' kw0"
    then show thesis by (intro that [of "AApp undefined"]) (auto simp: set_delete delete_conv')
  next
    assume "\<exists>a. kw = AList.delete ''call'' (AList.update ''app'' (AApp a) kw0)"
    then obtain a where a: "kw = AList.delete ''call'' (AList.update ''app'' (AApp a) kw0)" by blast
    show thesis using set_update [of "''app''" "AApp a" kw0]
      by (intro that [of "AApp a"]) (use a in \<open>auto simp: set_delete delete_conv' update_conv'\<close>)
  qed
  have "\<exists>s. map_of kw ''listen'' = Some (AStr s)" if "map_of kw ''listen'' \<noteq> None"
  proof -
    from that obtain v where v: "map_of kw0 ''listen'' = Some v" using kw(2) by auto
    then have "(''listen'', v) \<in> set kw0" by (rule map_of_SomeD)
    with p(2) have "\<exists>s. v = AStr s" unfolding kw_ok_def by fastforce
    with v kw(2) show ?thesis by simp
  qed
  with p(3,4) kw(2) have l: "''--listen'' \<in> fst ` set opts \<longrightarrow>
     (\<exists>s. map_of kw ''listen'' = Some (AStr s) \<and>
        aslist (SStr s) = Inr (concat (map (\<lambda>(opt, v). if opt = ''--listen'' then str_split [] v else []) opts)))"
    by (auto simp: aslist_words arg_str_def)
  have "\<forall>(k, v) \<in> set kw. k = ''help'' \<or> k = ''app'' \<or> (map_of params k \<noteq> None \<and> (\<exists>s. v = AStr s))"
  proof (rule ballI, rule case_prodI2)
    fix x k w
    assume "x \<in> set kw" "x = (k, w)"
    with kw(1) have n: "k \<noteq> ''call''" and m: "(k, w) = (''app'', v) \<or> (k, w) \<in> set kw0" by auto
    from m show "k = ''help'' \<or> k = ''app'' \<or> (map_of params k \<noteq> None \<and> (\<exists>s. w = AStr s))"
    proof
      assume "(k, w) \<in> set kw0"
      with p(2) have "k \<in> {''help'', ''call'', ''app''} \<or> (map_of params k \<noteq> None \<and> (\<exists>s. w = AStr s))"
        unfolding kw_ok_def by (auto dest: bspec)
      with n show ?thesis by blast
    qed simp
  qed
  with g l show ?thesis by blast
qed

definition sample_argv :: "string list" where
  "sample_argv = [''--listen=a:1'', ''--no-ipv6'', ''--list'', ''b c'', ''myapp'']"

theorem command_line_settings_witness:
  "parse_args (\<lambda>n. Inr n) (\<lambda>a. Inr a) sample_argv =
     Inr [(''help'', ABool False), (''app'', AApp ''myapp''), (''listen'', AStr '' a:1 b c''), (''ipv6'', AStr ''false'')]
   \<and> (\<exists>opts rest. getopt long_opts sample_argv = Inr (opts, rest))"
proof
  show *: "parse_args (\<lambda>n. Inr n) (\<lambda>a. Inr a) sample_argv =
     Inr [(''help'', ABool False), (''app'', AApp ''myapp''), (''listen'', AStr '' a:1 b c''), (''ipv6'', AStr ''false'')]"
    by code_simp
  show "\<exists>opts rest. getopt long_opts sample_argv = Inr (opts, rest)"
    using command_line_settings [OF *] by blast
qed

text \<open>The loop over the options raises nothing: \<^verbatim>\<open>run\<close> only raises what importing or calling the application raises.\<close>

theorem run_raises_only_app:
  assumes "run r c argv = Raises e"
  shows "\<exists>name. r name = Inl (Inr e) \<or> (\<exists>a. r name = Inr a \<and> c a = Inl e)"
proof -
  have p: "parse_args r c (tl argv) = Inl (Uncaught e)"
    using assms by (auto simp: run_def split: sum.splits cli_error.splits if_splits)
  then obtain opts rest where g: "getopt long_opts (tl argv) = Inr (opts, rest)"
    using getopt_catches [of long_opts "tl argv" e] by (auto simp: parse_args_def split: sum.splits)
  obtain kw0 :: "'a args" and app where "parse_opts opts (initial_args, None) = Inr (kw0, app)"
    using g by (rule parse_argv_ok)
  then obtain name b where "resolve_wsgi_app r c name b = Inl (Uncaught e)"
    using p unfolding parse_args_def g sum.case prod.case Let_def
    by (auto split: if_splits sum.splits option.splits)
  then show ?thesis
    unfolding resolve_wsgi_app_def by (cases "c (projr (r name))") (auto split: sum.splits if_splits)
qed

end
