(* ===== verification/Flush.thy ===== *)
theory Flush
  imports Delivery
begin

text \<open>
  How a connection gets rid of its bytes: a limit for what waits in the buffers, and the delivery
  of everything before a connection is closed on purpose.
\<close>

subsection \<open>The flags of a channel\<close>

text \<open>Sending does not touch the two flags.\<close>

lemma sock_send_flags:
  "sock_send do_close d c = (r, c') \<Longrightarrow> c_will_close c' = c_will_close c \<and> c_close_when_flushed c' = c_close_when_flushed c"
  by (auto simp: sock_send_def Let_def handle_close_def split: if_splits list.splits net_result.splits)

lemma flush_loop_flags:
  "flush_loop do_close sent len c = (e, sent', c') \<Longrightarrow>
     c_will_close c' = c_will_close c \<and> c_close_when_flushed c' = c_close_when_flushed c"
proof (induction do_close sent len c rule: flush_loop.induct)
  case (1 do_close sent len c)
  show ?case
  proof (cases "c_outbufs c")
    case Nil
    then show ?thesis using "1.prems" by (auto simp: flush_loop.simps [of do_close sent len c])
  next
    case (Cons b bs)
    note eq = flush_loop.simps [of do_close sent len c, unfolded Cons list.case]
    show ?thesis
    proof (cases "0 < len")
      case False
      show ?thesis
      proof (cases bs)
        case Nil
        then show ?thesis using "1.prems" False eq by simp
      next
        case (Cons b' bs')
        then have "flush_loop do_close sent (out_len b') (c\<lparr>c_outbufs := bs\<rparr>) = (e, sent', c')"
          using "1.prems" False eq by simp
        from "1.IH"(2) [OF \<open>c_outbufs c = b # bs\<close> False Cons this] show ?thesis by simp
      qed
    next
      case True
      obtain chunk b1 where g: "out_get (c_sendbuf_len c) b = (chunk, b1)" by fastforce
      obtain r c1 where s: "sock_send do_close chunk (c\<lparr>c_outbufs := b1 # bs\<rparr>) = (r, c1)" by fastforce
      have f: "c_will_close c1 = c_will_close c" "c_close_when_flushed c1 = c_close_when_flushed c"
        using sock_send_flags [OF s] by simp_all
      show ?thesis
      proof (cases r)
        case (Inl x)
        then show ?thesis using "1.prems" True eq g s f by simp
      next
        case (Inr n)
        obtain x b2 where k: "out_skip n b1 = (x, b2)" by fastforce
        show ?thesis
        proof (cases "n \<noteq> 0 \<and> x = None")
          case True
          with "1.prems" \<open>0 < len\<close> eq g s k Inr
          have "flush_loop do_close (sent + n) (len - int n)
            (c1\<lparr>c_outbufs := b2 # bs, c_total_outbufs_len := c_total_outbufs_len c1 - int n\<rparr>) = (e, sent', c')" by simp
          from "1.IH"(1) [OF \<open>c_outbufs c = b # bs\<close> \<open>0 < len\<close> g [symmetric] refl s [symmetric] Inr _ k [symmetric] _ this]
          show ?thesis using True f by simp
        next
          case False
          then show ?thesis using "1.prems" \<open>0 < len\<close> eq g s k Inr f by (cases x) (auto split: if_splits)
        qed
      qed
    qed
  qed
qed

lemma flush_some_flags:
  "flush_some do_close c = (r, c') \<Longrightarrow>
     c_will_close c' = c_will_close c \<and> c_close_when_flushed c' = c_close_when_flushed c"
proof -
  assume f: "flush_some do_close c = (r, c')"
  obtain e sent c1 where l: "flush_loop do_close 0 (case c_outbufs c of [] \<Rightarrow> 0 | b # bs \<Rightarrow> out_len b) c = (e, sent, c1)"
    by (metis prod_cases3)
  from flush_loop_flags [OF l] f l show ?thesis by (cases e) (auto simp: flush_some_def split: if_splits)
qed

lemma flush_exception_flags:
  assumes "flush_exception do_close c = (fl, exc, c')"
  shows "c_will_close c' = (c_will_close c \<or> exc) \<and> c_close_when_flushed c' = c_close_when_flushed c"
proof -
  obtain r c1 where l: "flush_some do_close c = (r, c1)" by fastforce
  from flush_some_flags [OF l] assms l show ?thesis by (cases r) (auto simp: flush_exception_def)
qed

lemma main_step_will_close:
  assumes "c_will_close c"
  shows "c_will_close (main_step ev c)"
proof (cases ev)
  case (PollWrite lk)
  obtain fl exc c1 where f: "flush_exception True c = (fl, exc, c1)" by (metis prod_cases3)
  from flush_exception_flags [OF f] PollWrite assms show ?thesis
    by (simp add: handle_write_def Let_def f handle_close_def)
next
  case (LateWrite lk)
  obtain fl exc c1 where f: "flush_exception True c = (fl, exc, c1)" by (metis prod_cases3)
  from flush_exception_flags [OF f] LateWrite assms show ?thesis
    by (simp add: handle_write_def Let_def f handle_close_def)
next
  case (PollRead r)
  obtain e c1 where h: "handle_read r c = (e, c1)" by fastforce
  have "c_will_close c1"
    using h assms by (auto simp: handle_read_def received_def handle_close_def Let_def split: recv_result.splits if_splits)
  then show ?thesis using PollRead h assms by (cases e) (simp_all add: handle_close_def)
qed (use assms in \<open>auto simp: handle_close_def\<close>)

lemma main_steps_will_close: "c_will_close c \<Longrightarrow> c_will_close (main_steps evs c)"
proof (induction evs arbitrary: c)
  case (Cons ev evs)
  from Cons.IH [OF main_step_will_close [OF Cons.prems]] show ?case by (simp add: main_steps_def)
qed (simp add: main_steps_def)

lemma wait_will_close: "c_will_close c \<Longrightarrow> c_will_close (wait_outbuf c)"
  using main_steps_will_close [of "c\<lparr>c_sched := s\<rparr>" for s] main_step_will_close [of c PollError]
  by (auto simp: wait_outbuf_def split: list.split)

subsection \<open>The high watermark\<close>

lemma wait_below_result:
  "channel_ok c \<Longrightarrow> c_connected (wait_below s c) \<Longrightarrow> \<not> above_watermark (wait_below s c)"
proof (induction s arbitrary: c)
  case Nil
  then show ?case using connected_socket [OF Nil.prems(1)]
    by (auto simp: above_watermark_def handle_close_def pull_trigger_def split: if_splits)
next
  case (Cons evs s)
  have "channel_ok (pull_trigger c)" using Cons.prems(1) by (simp add: pull_trigger_def)
  then have "channel_ok (main_steps evs (pull_trigger c))" using main_steps_advances by (simp add: advances_def)
  from Cons.IH [OF this] Cons.prems(2) show ?case by (auto simp: above_watermark_def split: if_splits)
qed

lemma flush_below_result:
  assumes "channel_ok c"
  shows "let c' = flush_outbufs_below_high_watermark c in c_connected c' \<longrightarrow> \<not> above_watermark c' \<or> c_will_close c'"
proof (cases "above_watermark c")
  case True
  obtain fl exc c1 where f: "flush_exception False c = (fl, exc, c1)" by (metis prod_cases3)
  have "exc \<longrightarrow> c_will_close (wait_outbuf (pull_trigger c1))"
    using flush_exception_flags [OF f] wait_will_close [of "pull_trigger c1"] by (simp add: pull_trigger_def)
  moreover have "channel_ok c1" using flush_exception_advances [OF assms f] by (simp add: advances_def)
  ultimately show ?thesis using True f wait_below_result by (simp add: flush_outbufs_below_high_watermark_def)
qed (simp add: flush_outbufs_below_high_watermark_def)

lemma moves_total:
  assumes "moves_with s c c'" "channel_inv c" "c_socket c'"
  shows "c_total_outbufs_len c' \<le> c_total_outbufs_len c + int (length s)"
proof -
  have so: "c_socket c" "stream c' = stream c @ s" "prefix (c_wire c) (c_wire c')" "channel_inv c'"
    using assms by (simp_all add: moves_with_def)
  then obtain w where "c_wire c' = c_wire c @ w" by (auto simp: prefix_def)
  then have "length (pending c') + length w = length (pending c) + length s"
    using arg_cong [OF so(2), of length] so(1) assms(3) by (simp add: stream_def)
  moreover have "c_total_outbufs_len c' = int (length (pending c'))" "c_total_outbufs_len c = int (length (pending c))"
    using total_pending assms so by (simp_all add: channel_inv_def)
  ultimately show ?thesis by simp
qed

lemma wrote_soon_will_close: "c_will_close c \<Longrightarrow> c_will_close (wrote_soon n c)"
proof -
  assume w: "c_will_close c"
  obtain fl exc c1 where f: "flush_exception False (c\<lparr>c_total_outbufs_len := c_total_outbufs_len c + n\<rparr>) = (fl, exc, c1)"
    by (metis prod_cases3)
  from flush_exception_flags [OF f] w show ?thesis by (simp add: wrote_soon_eq Let_def f)
qed

lemma write_will_close:
  assumes "c_will_close c"
  shows "write_data b c = (r, c') \<Longrightarrow> r = Inr n \<Longrightarrow> c_will_close c'" and "write_file f c = (r, c') \<Longrightarrow> c_will_close c'"
  using assms wrote_soon_will_close
  by (auto simp: write_data_def write_file_def rotate_outbuf_def append_last_def
      split: if_splits sum.splits prod.splits option.splits)

text \<open>
  C25: the limit for what waits to be sent. When \<^verbatim>\<open>write_soon\<close> returns, the buffers of the connection
  hold at most \<^verbatim>\<open>outbuf_high_watermark\<close> bytes and what was just written, unless sending failed and
  the connection is about to be closed.
\<close>

theorem write_soon_watermark:
  assumes "serving c0 c" and "out_ready d" and "write_soon c d = (Inr n, c')"
  shows "c_total_outbufs_len c' \<le> adj_outbuf_high_watermark (c_adj c) + int (length (out_bytes d)) \<or> c_will_close c'"
proof -
  let ?c1 = "write_ready d c"
  have m: "serving c0 ?c1" "moves c ?c1" using write_ready_moves [OF assms(1)] by simp_all
  have conn: "c_connected ?c1" and
    wr: "case d of Data b \<Rightarrow> write_data b ?c1 = (Inr n, c') | FileData f \<Rightarrow> write_file f ?c1 = (Inr n, c')"
    using assms(2,3) by (auto simp: write_soon_eq Let_def split: if_splits outdata.splits)
  have ok: "channel_ok ?c1" "channel_inv ?c1" "c_socket ?c1"
    using serving_ok(1) [OF m(1)] connected_socket conn by (auto simp: channel_ok_def)
  have d: "d \<noteq> Data []" using assms(2) by auto
  have i: "channel_ok (interleave c)" using interleave_advances [OF serving_ok(1) [OF assms(1)]] by (simp add: advances_def)
  have "\<not> above_watermark ?c1 \<or> c_will_close ?c1"
    using flush_below_result [OF i] conn d by (auto simp: write_ready_def Let_def split: if_splits)
  then show ?thesis
  proof
    assume w: "c_will_close ?c1"
    show ?thesis using write_will_close [OF w] wr by (cases d) auto
  next
    assume w: "\<not> above_watermark ?c1"
    have adj: "c_adj ?c1 = c_adj c" using m(2) by (simp add: moves_with_def)
    have mv: "moves_with (out_bytes d) ?c1 c' \<and> c_socket c'"
    proof (cases d)
      case (Data b)
      then show ?thesis using write_data_moves [OF ok(1,3), of b "Inr n" c'] wr by simp
    next
      case (FileData f)
      then show ?thesis using write_file_moves [OF ok(1,3), of f "Inr n" c'] wr assms(2) by simp
    qed
    then have "c_total_outbufs_len c' \<le> c_total_outbufs_len ?c1 + int (length (out_bytes d))"
      using moves_total ok(2) by blast
    with w adj show ?thesis by (simp add: above_watermark_def)
  qed
qed

subsection \<open>Closing when everything was sent\<close>

text \<open>A socket that takes at least one byte each time, until \<open>n\<close> bytes are sent.\<close>

definition takes_bytes :: "nat \<Rightarrow> net_result list \<Rightarrow> bool" where
  "takes_bytes n net \<longleftrightarrow> n \<le> length net \<and> list_all (\<lambda>r. case r of Sent k \<Rightarrow> 0 < k | _ \<Rightarrow> False) (take n net)"

lemma takes_bytes_step:
  assumes "takes_bytes n net" "0 < n"
  obtains k net' where "net = Sent k # net'" "0 < k" "\<And>m. 0 < m \<Longrightarrow> takes_bytes (n - m) net'"
proof -
  obtain r net' where net: "net = r # net'" using assms by (cases net) (auto simp: takes_bytes_def)
  obtain n' where n: "n = Suc n'" using assms(2) by (cases n) auto
  obtain k where k: "r = Sent k" "0 < k" using assms(1) net n by (cases r) (auto simp: takes_bytes_def)
  have "takes_bytes (n - m) net'" if "0 < m" for m
  proof -
    have "n - m \<le> n'" using that n by simp
    then have tk: "take (n - m) net' = take (n - m) (take n' net')" by (simp add: min_def)
    define P where "P = (\<lambda>r. case r of Sent k \<Rightarrow> 0 < k | _ \<Rightarrow> False)"
    have l: "list_all P (take n' net')" "n' \<le> length net'"
      using assms(1) net n by (simp_all add: takes_bytes_def P_def)
    then have "list_all P (take (n - m) (take n' net'))" by (metis append_take_drop_id list_all_append)
    then have "list_all P (take (n - m) net')" by (simp only: tk [symmetric])
    then show ?thesis using l(2) \<open>n - m \<le> n'\<close> by (simp add: takes_bytes_def P_def)
  qed
  then show thesis using that net k by blast
qed

lemma flush_loop_all:
  assumes "channel_inv c" "c_socket c" "len = out_len (hd (c_outbufs c))" "takes_bytes (length (pending c)) (c_net c)"
  shows "flush_loop do_close sent len c = (e, sent', c') \<Longrightarrow>
    e = None \<and> c_socket c' \<and> pending c' = [] \<and> moves c c'"
  using assms
proof (induction do_close sent len c rule: flush_loop.induct)
  case (1 do_close sent len c)
  obtain b bs where ob: "c_outbufs c = b # bs" using "1.prems" by (cases "c_outbufs c") (auto simp: channel_inv_def)
  have ok: "out_wf b" "list_all out_wf bs" "0 < c_sendbuf_len c" "len = out_len b"
    using "1.prems" ob by (auto simp: channel_inv_def buffers_ok_def)
  note eq = flush_loop.simps [of do_close sent len c, unfolded ob list.case]
  note lenb = out_len_content [OF ok(1)]
  show ?case
  proof (cases "0 < len")
    case False
    then have nb: "out_content b = []" using ok lenb by simp
    show ?thesis
    proof (cases bs)
      case Nil
      then have "e = None" "c' = c" using "1.prems"(1) eq False by simp_all
      then show ?thesis using "1.prems" nb ob Nil by (simp add: moves_refl pending_def)
    next
      case (Cons b' bs')
      let ?c1 = "c\<lparr>c_outbufs := bs\<rparr>"
      have l: "flush_loop do_close sent (out_len b') ?c1 = (e, sent', c')" using "1.prems"(1) eq False Cons by simp
      have i: "channel_inv ?c1" "c_socket ?c1" "out_len b' = out_len (hd (c_outbufs ?c1))"
        using "1.prems" ok ob Cons nb lenb by (auto simp: channel_inv_def buffers_ok_def)
      have p: "pending ?c1 = pending c" using nb ob by (simp add: pending_def)
      have m: "moves c ?c1" using i "1.prems" p by (simp add: moves_with_def stream_def)
      have t: "takes_bytes (length (pending ?c1)) (c_net ?c1)" using "1.prems"(5) p by simp
      from "1.IH"(2) [OF ob False Cons l i t] moves_trans [OF m] show ?thesis by blast
    qed
  next
    case True
    obtain chunk b1 where g: "out_get (c_sendbuf_len c) b = (chunk, b1)" by fastforce
    note pk = out_fifo.peek_prefix [OF ok(1,3) g]
    have cc: "c\<lparr>c_outbufs := b1 # bs\<rparr> = c" using ob pk by simp
    have "out_content b \<noteq> []" using True ok(4) lenb by auto
    then have ne: "chunk \<noteq> []" using out_fifo.peek_progress [OF ok(1,3)] g by simp
    have pos: "0 < length (pending c)" using True ok(4) lenb ob by (simp add: pending_def)
    obtain k net' where net: "c_net c = Sent k # net'" "0 < k" "\<And>m. 0 < m \<Longrightarrow> takes_bytes (length (pending c) - m) net'"
      using takes_bytes_step [OF "1.prems"(5) pos] by metis
    define m where "m = min k (length chunk)"
    define c1 where "c1 = c\<lparr>c_net := net', c_wire := c_wire c @ take k chunk\<rparr>"
    have s: "sock_send do_close chunk c = (Inr m, c1)"
      using "1.prems"(3) net(1) by (simp add: sock_send_def m_def c1_def)
    have mpos: "0 < m" using net(2) ne by (simp add: m_def)
    obtain x b2 where sk: "out_skip m b1 = (x, b2)" by fastforce
    have tk: "take m chunk = take k chunk" by (simp add: m_def min_def)
    define c2 where "c2 = c1\<lparr>c_outbufs := b2 # bs, c_total_outbufs_len := c_total_outbufs_len c1 - int m\<rparr>"
    have r: "x = None" "out_len b2 = out_len b - int m" "moves c c2"
      using send_round_moves [OF "1.prems"(2,3) ob g _ sk, of net'] tk by (simp_all add: m_def c1_def c2_def)
    have gs: "sock_send do_close chunk (c\<lparr>c_outbufs := b1 # bs\<rparr>) = (Inr m, c1)" using s cc by simp
    have l: "flush_loop do_close (sent + m) (len - int m) c2 = (e, sent', c')"
      using "1.prems"(1) eq True g cc s sk r(1) mpos by (simp add: c2_def)
    have s2: "c_socket c2" "len - int m = out_len (hd (c_outbufs c2))" "c_net c2 = net'"
      using "1.prems"(3) r(2) ok(4) by (simp_all add: c2_def c1_def)
    have "stream c2 = stream c" using r(3) s2 by (simp add: moves_with_def)
    moreover have "c_wire c2 = c_wire c @ take k chunk" by (simp add: c2_def c1_def)
    ultimately have "pending c = take k chunk @ pending c2" using s2(1) "1.prems"(3) by (simp add: stream_def)
    then have "length (pending c2) = length (pending c) - m" by (simp add: m_def min_def)
    then have t: "takes_bytes (length (pending c2)) (c_net c2)" using net(3) [OF mpos] s2(3) by simp
    from "1.IH"(1) [OF ob True g [symmetric] refl gs [symmetric] refl _ sk [symmetric] r(1)] mpos l
      moves_inv [OF r(3)] s2 t moves_trans [OF r(3)]
    show ?thesis by (simp add: c2_def) 
  qed
qed

text \<open>
  C8: nothing is cut off. A connection that is to be closed when everything was sent, with no
  request left, is closed by the main thread's next write on a socket that takes at least one byte
  each time it is asked, and by then the whole stream was taken by the socket, in order.
\<close>

theorem close_when_flushed_delivers:
  assumes "channel_inv c" and "c_socket c" and "c_requests c = []" and "c_close_when_flushed c"
    and "takes_bytes (length (pending c)) (c_net c)"
  shows "let c' = main_step (PollWrite lockable) c in \<not> c_socket c' \<and> c_wire c' = stream c"
proof -
  obtain b bs where ob: "c_outbufs c = b # bs" using assms(1) by (cases "c_outbufs c") (auto simp: channel_inv_def)
  obtain e sent c1 where l: "flush_loop True 0 (out_len b) c = (e, sent, c1)" by (metis prod_cases3)
  have h: "out_len b = out_len (hd (c_outbufs c))" by (simp add: ob)
  note a = flush_loop_all [OF assms(1,2) h assms(5) l]
  note fl = flush_loop_flags [OF l]
  have tot: "c_total_outbufs_len c1 = 0"
    using a total_pending [of c1] moves_inv [of "[]" c c1] by (simp add: channel_inv_def)
  have w: "c_wire c1 = stream c" using a assms(2) by (auto simp: moves_with_def stream_def)
  obtain fl' c2 where f: "flush_exception True c = (fl', False, c2)" and c2: "c2 = c1 \<or> c2 = c1\<lparr>c_last_activity := c_now c1\<rparr>"
    using l ob a by (cases "0 < sent") (auto simp: flush_exception_def flush_some_def)
  then have "c_wire c2 = stream c" "c_close_when_flushed c2" "c_total_outbufs_len c2 = 0" using w fl tot assms(4) by auto
  then show ?thesis using assms f by (simp add: handle_write_def Let_def handle_close_def)
qed

theorem close_when_flushed_delivers_witness:
  "let c = (channel_init default_adjustments 1024 [Sent 2, Sent 7, Sent 7] [] 0)
         \<lparr>c_outbufs := [OB (ob_append (ob_init 1000) ''abc'')], c_total_outbufs_len := 3, c_close_when_flushed := True\<rparr>;
       c' = main_step (PollWrite False) c
   in \<not> c_socket c' \<and> c_wire c' = ''abc''"
proof -
  let ?c = "(channel_init default_adjustments 1024 [Sent 2, Sent 7, Sent 7] [] 0)
         \<lparr>c_outbufs := [OB (ob_append (ob_init 1000) ''abc'')], c_total_outbufs_len := 3, c_close_when_flushed := True\<rparr>"
  have 1: "channel_inv ?c" by code_simp
  have 2: "c_socket ?c" "c_requests ?c = []" "c_close_when_flushed ?c" by (simp_all add: channel_init_def)
  have 3: "takes_bytes (length (pending ?c)) (c_net ?c)" by code_simp
  have 4: "stream ?c = ''abc''" by code_simp
  from close_when_flushed_delivers [OF 1 2 3] 4 show ?thesis unfolding Let_def by metis
qed

theorem write_soon_watermark_witness:
  "let c = (channel_init default_adjustments 1024 [] [] 0)\<lparr>c_requests := [parser_init]\<rparr>
   in c_total_outbufs_len (snd (write_soon c (Data ''abc''))) \<le> 16777219 \<or> c_will_close (snd (write_soon c (Data ''abc'')))"
proof -
  let ?c = "(channel_init default_adjustments 1024 [] [] 0)\<lparr>c_requests := [parser_init]\<rparr>"
  have "channel_inv ?c" "request_ok ?c" by code_simp+
  then have s: "serving ?c ?c" by (intro serving_start) (simp_all add: channel_ok_def)
  have w: "write_soon ?c (Data ''abc'') = (Inr 3, snd (write_soon ?c (Data ''abc'')))" by code_simp
  have r: "out_ready (Data ''abc'')" by simp
  have a: "adj_outbuf_high_watermark (c_adj ?c) + int (length (out_bytes (Data ''abc''))) = 16777219" by code_simp
  from write_soon_watermark [OF s r w] show ?thesis unfolding a Let_def .
qed

end
