(* ===== verification/Server.thy ===== *)
theory Server
  imports Service Flush
begin

text \<open>
  \<^verbatim>\<open>server.py\<close> (\<^verbatim>\<open>BaseWSGIServer\<close>) and the loop of \<^verbatim>\<open>wasyncore.py\<close>: the main thread. The socket map holds
  for each server its trigger and its listening socket, and the connections, which are references into the list
  of all channels, as worker threads keep references to channels that are closed. The channels in the map that a server
  owns are its \<^verbatim>\<open>active_channels\<close>. What the operating system answers during one pass of the loop is a record \<open>io\<close>.
\<close>

datatype obj = Listener nat | Trigger nat | Conn nat

record listener =
  l_fd :: nat
  l_trigger :: nat
  l_accepting :: bool
  l_overflow :: bool              \<comment> \<open>\<^verbatim>\<open>in_connection_overflow\<close>\<close>
  l_next_cleanup :: int

record main =
  m_adj :: adjustments
  m_map :: "(nat \<times> obj) list"
  m_listeners :: "listener list"
  m_channels :: "channel list"
  m_owner :: "nat list"           \<comment> \<open>\<^verbatim>\<open>self.server\<close> of each channel\<close>
  m_now :: nat

text \<open>The outcome of \<^verbatim>\<open>accept()\<close> and of what follows in \<^verbatim>\<open>handle_accept\<close>.\<close>

datatype accepted =
    Accepted nat int "net_result list" "main_event list list"  \<comment> \<open>file number, \<^verbatim>\<open>SO_SNDBUF\<close>, and the future of the connection\<close>
  | Accept_None          \<comment> \<open>\<^verbatim>\<open>EWOULDBLOCK\<close>, \<^verbatim>\<open>ECONNABORTED\<close>, \<^verbatim>\<open>EAGAIN\<close>\<close>
  | Accept_OSError       \<comment> \<open>raised by \<^verbatim>\<open>accept\<close> or by \<^verbatim>\<open>set_socket_options\<close>\<close>
  | Channel_OSError      \<comment> \<open>raised by \<^verbatim>\<open>getsockopt\<close> or \<^verbatim>\<open>setblocking\<close> in the constructor of the channel\<close>

text \<open>
  \<^verbatim>\<open>select\<close> is interrupted, answers, or raises: an error other than \<^verbatim>\<open>EINTR\<close>, or what the handler of a
  signal raises, \<^verbatim>\<open>KeyboardInterrupt\<close> or \<^verbatim>\<open>SystemExit\<close>, as the main thread spends its time there.
\<close>

datatype selected = Selected "nat list" "nat list" "nat list" | Interrupted | Select_Raises exn

definition keyboard_interrupt :: exn where
  "keyboard_interrupt = AppError ''KeyboardInterrupt''"

definition system_exit :: exn where
  "system_exit = AppError ''SystemExit''"

text \<open>The flags of one answer of \<^verbatim>\<open>poll()\<close>.\<close>

record flags =
  pollin :: bool
  pollout :: bool
  pollpri :: bool
  pollhup :: bool      \<comment> \<open>\<^verbatim>\<open>POLLHUP | POLLERR | POLLNVAL\<close>\<close>

record io =
  io_now :: nat
  io_select :: "nat list \<Rightarrow> nat list \<Rightarrow> nat list \<Rightarrow> selected"
  io_poll :: "(nat \<times> flags) list \<Rightarrow> exn + (nat \<times> flags) list"    \<comment> \<open>nothing for \<^verbatim>\<open>EINTR\<close>\<close>
  io_recv :: "nat \<Rightarrow> recv_result"
  io_accept :: "nat \<Rightarrow> accepted"
  io_lockable :: "nat \<Rightarrow> bool"
  io_error :: "nat \<Rightarrow> bool"    \<comment> \<open>\<^verbatim>\<open>SO_ERROR\<close> is not 0\<close>

text \<open>
  The servers of \<^verbatim>\<open>create_server\<close>, given by the file numbers of trigger and listening socket: each
  constructor registers first the trigger and then the socket in the shared map, and then starts to listen.
\<close>

definition listener_init :: "nat \<times> nat \<Rightarrow> listener" where
  "listener_init p = \<lparr>l_fd = snd p, l_trigger = fst p, l_accepting = True, l_overflow = False, l_next_cleanup = 0\<rparr>"

fun register :: "nat \<Rightarrow> (nat \<times> nat) list \<Rightarrow> (nat \<times> obj) list" where
  "register i [] = []"
| "register i ((t, l) # xs) = (t, Trigger i) # (l, Listener i) # register (Suc i) xs"

definition server_start :: "adjustments \<Rightarrow> (nat \<times> nat) list \<Rightarrow> nat \<Rightarrow> main" where
  "server_start adj fds now =
     \<lparr>m_adj = adj, m_map = register 0 fds, m_listeners = map listener_init fds, m_channels = [], m_owner = [],
      m_now = now\<rparr>"

subsection \<open>The channels\<close>

text \<open>One event for a channel; \<^verbatim>\<open>del_channel\<close> takes a channel that was closed out of the map.\<close>

definition drop_closed :: "main \<Rightarrow> main" where
  "drop_closed m =
     m\<lparr>m_map := filter (\<lambda>(fd, x). case x of Conn k \<Rightarrow> k < length (m_channels m) \<and> c_socket (m_channels m ! k) | _ \<Rightarrow> True)
       (m_map m)\<rparr>"

definition change_channel :: "nat \<Rightarrow> (channel \<Rightarrow> channel) \<Rightarrow> main \<Rightarrow> main" where
  "change_channel k f m = drop_closed (m\<lparr>m_channels := (m_channels m)[k := f (m_channels m ! k)]\<rparr>)"

definition all_channels :: "(nat \<Rightarrow> channel \<Rightarrow> channel) \<Rightarrow> main \<Rightarrow> main" where
  "all_channels f m = m\<lparr>m_channels := map (\<lambda>k. f k (m_channels m ! k)) [0..<length (m_channels m)]\<rparr>"

text \<open>\<^verbatim>\<open>maintenance\<close> of a server goes through its own channels.\<close>

definition maintenance :: "nat \<Rightarrow> nat \<Rightarrow> main \<Rightarrow> main" where
  "maintenance i now m =
     (let cutoff = int now - adj_channel_timeout (m_adj m)
      in all_channels (\<lambda>k c. if m_owner m ! k = i then main_step (Maintenance (nat cutoff)) c else c) m)"

definition set_clock :: "nat \<Rightarrow> main \<Rightarrow> main" where
  "set_clock now m = all_channels (\<lambda>k. main_step (Tick now)) (m\<lparr>m_now := now\<rparr>)"

subsection \<open>The listening sockets\<close>

definition change_listener :: "nat \<Rightarrow> (listener \<Rightarrow> listener) \<Rightarrow> main \<Rightarrow> main" where
  "change_listener i f m = m\<lparr>m_listeners := (m_listeners m)[i := f (m_listeners m ! i)]\<rparr>"

definition server_readable :: "nat \<Rightarrow> main \<Rightarrow> bool \<times> main" where
  "server_readable i m =
     (let now = m_now m;
          m1 = (if l_next_cleanup (m_listeners m ! i) \<le> int now
                then maintenance i now
                       (change_listener i (\<lambda>l. l\<lparr>l_next_cleanup := int now + adj_cleanup_interval (m_adj m)\<rparr>) m)
                else m);
          full = (adj_connection_limit (m_adj m1) \<le> int (length (m_map m1)));
          l = m_listeners m1 ! i
      in if l_accepting l
         then let overflow = (if \<not> l_overflow l \<and> full then True
                              else if l_overflow l \<and> \<not> full then False else l_overflow l)
              in (\<not> overflow, change_listener i (\<lambda>l. l\<lparr>l_overflow := overflow\<rparr>) m1)
         else (False, m1))"

text \<open>\<^verbatim>\<open>close\<close>: the trigger is closed with the server.\<close>

definition server_close :: "nat \<Rightarrow> main \<Rightarrow> main" where
  "server_close i m =
     (change_listener i (\<lambda>l. l\<lparr>l_accepting := False\<rparr>) m)
       \<lparr>m_map := filter (\<lambda>(fd, x). x \<noteq> Listener i \<and> x \<noteq> Trigger i) (m_map m)\<rparr>"

text \<open>
  \<^verbatim>\<open>handle_accept\<close>. An exception of the constructor of the channel is not caught there: it ends in
  \<^verbatim>\<open>handle_error\<close> of the server, which closes it.
\<close>

definition handle_accept :: "io \<Rightarrow> nat \<Rightarrow> main \<Rightarrow> main" where
  "handle_accept io i m =
     (case io_accept io (l_fd (m_listeners m ! i)) of
        Accepted fd sndbuf net sched \<Rightarrow>
          m\<lparr>m_channels := m_channels m @ [channel_init (m_adj m) sndbuf net sched (m_now m)],
            m_owner := m_owner m @ [i],
            m_map := AList.update fd (Conn (length (m_channels m))) (m_map m)\<rparr>
      | Accept_None \<Rightarrow> m
      | Accept_OSError \<Rightarrow> m
      | Channel_OSError \<Rightarrow> server_close i m)"

definition listening :: "nat \<Rightarrow> main \<Rightarrow> bool" where
  "listening i m \<longleftrightarrow> l_accepting (m_listeners m ! i)"

subsection \<open>poll\<close>

definition obj_readable :: "obj \<Rightarrow> main \<Rightarrow> bool \<times> main" where
  "obj_readable x m =
     (case x of Listener i \<Rightarrow> server_readable i m | Trigger i \<Rightarrow> (True, m) | Conn k \<Rightarrow> (readable (m_channels m ! k), m))"

definition obj_writable :: "obj \<Rightarrow> main \<Rightarrow> bool" where
  "obj_writable x m = (case x of Conn k \<Rightarrow> writable (m_channels m ! k) | _ \<Rightarrow> False)"

definition obj_accepting :: "obj \<Rightarrow> main \<Rightarrow> bool" where
  "obj_accepting x m = (case x of Listener i \<Rightarrow> listening i m | _ \<Rightarrow> False)"

fun poll_ask :: "(nat \<times> obj) list \<Rightarrow> main \<Rightarrow> (nat list \<times> nat list \<times> nat list) \<times> main" where
  "poll_ask [] m = (([], [], []), m)"
| "poll_ask ((fd, x) # xs) m =
     (let (is_r, m1) = obj_readable x m;
          is_w = obj_writable x m1;
          ((r, w, e), m2) = poll_ask xs m1
      in ((if is_r then fd # r else r,
           if is_w \<and> \<not> obj_accepting x m1 then fd # w else w,
           if is_r \<or> is_w then fd # e else e), m2))"

text \<open>\<^verbatim>\<open>read(obj)\<close>, \<^verbatim>\<open>write(obj)\<close> and \<^verbatim>\<open>_exception(obj)\<close> for what is in the map at that moment.\<close>

definition poll_read :: "io \<Rightarrow> nat \<Rightarrow> main \<Rightarrow> main" where
  "poll_read io fd m =
     (case map_of (m_map m) fd of
        None \<Rightarrow> m
      | Some (Listener i) \<Rightarrow> if listening i m then handle_accept io i m else m
      | Some (Trigger i) \<Rightarrow> m
      | Some (Conn k) \<Rightarrow> change_channel k (main_step (PollRead (io_recv io fd))) m)"

definition poll_write :: "io \<Rightarrow> nat \<Rightarrow> main \<Rightarrow> main" where
  "poll_write io fd m =
     (case map_of (m_map m) fd of
        Some (Conn k) \<Rightarrow> change_channel k (main_step (PollWrite (io_lockable io fd))) m
      | _ \<Rightarrow> m)"

definition trigger_close :: "nat \<Rightarrow> main \<Rightarrow> main" where
  "trigger_close i m = m\<lparr>m_map := filter (\<lambda>(fd, x). x \<noteq> Trigger i) (m_map m)\<rparr>"

definition poll_exception :: "io \<Rightarrow> nat \<Rightarrow> main \<Rightarrow> main" where
  "poll_exception io fd m =
     (if \<not> io_error io fd then m
      else case map_of (m_map m) fd of
             None \<Rightarrow> m
           | Some (Listener i) \<Rightarrow> server_close i m
           | Some (Trigger i) \<Rightarrow> m    \<comment> \<open>\<^verbatim>\<open>file_wrapper.getsockopt\<close> answers 0\<close>
           | Some (Conn k) \<Rightarrow> change_channel k (main_step PollError) m)"

definition poll :: "io \<Rightarrow> main \<Rightarrow> exn option \<times> main" where
  "poll io m0 =
     (let m = set_clock (io_now io) m0;
          ((r, w, ex), m1) = poll_ask (m_map m) m
      in if r = [] \<and> w = [] \<and> ex = [] then (None, m1)
         else case io_select io r w ex of
                Select_Raises e \<Rightarrow> (Some e, m1)
              | Interrupted \<Rightarrow> (None, m1)
              | Selected r' w' e' \<Rightarrow>
                  (None, fold (poll_exception io) e' (fold (poll_write io) w' (fold (poll_read io) r' m1))))"

subsection \<open>poll2\<close>

fun poll2_ask :: "(nat \<times> obj) list \<Rightarrow> main \<Rightarrow> (nat \<times> flags) list \<times> main" where
  "poll2_ask [] m = ([], m)"
| "poll2_ask ((fd, x) # xs) m =
     (let (is_r, m1) = obj_readable x m;
          is_w = (obj_writable x m1 \<and> \<not> obj_accepting x m1);
          (fs, m2) = poll2_ask xs m1
      in (if is_r \<or> is_w
          then (fd, \<lparr>pollin = is_r, pollout = is_w, pollpri = is_r, pollhup = False\<rparr>) # fs else fs, m2))"

text \<open>
  \<^verbatim>\<open>readwrite(obj, flags)\<close> for a channel. The reference to it was taken before: an event that closes
  it does not keep the later ones away. \<^verbatim>\<open>SO_ERROR\<close> of a socket that is gone counts as an error.
\<close>

definition channel_readwrite :: "recv_result \<Rightarrow> bool \<Rightarrow> bool \<Rightarrow> flags \<Rightarrow> channel \<Rightarrow> channel" where
  "channel_readwrite r lockable err f c =
     (case (if pollin f then handle_read r c else (None, c)) of
        (Some e, c1) \<Rightarrow> handle_close c1
      | (None, c1) \<Rightarrow>
          (let c2 = (if pollout f then handle_write lockable c1 else c1);
               c3 = (if pollpri f \<and> (c_socket c2 \<longrightarrow> err) then handle_close c2 else c2)
           in if pollhup f then handle_close c3 else c3))"

definition readwrite :: "io \<Rightarrow> nat \<times> flags \<Rightarrow> main \<Rightarrow> main" where
  "readwrite io ff m =
     (let (fd, f) = ff
      in case map_of (m_map m) fd of
           None \<Rightarrow> m
         | Some (Listener i) \<Rightarrow>
             (let m1 = (if pollin f \<and> listening i m then handle_accept io i m else m);
                  m2 = (if pollpri f \<and> (listening i m1 \<longrightarrow> io_error io fd) then server_close i m1 else m1)
              in if pollhup f then server_close i m2 else m2)
         | Some (Trigger i) \<Rightarrow> if pollhup f then trigger_close i m else m
         | Some (Conn k) \<Rightarrow>
             change_channel k (channel_readwrite (io_recv io fd) (io_lockable io fd) (io_error io fd) f) m)"

definition poll2 :: "io \<Rightarrow> main \<Rightarrow> exn option \<times> main" where
  "poll2 io m0 =
     (let m = set_clock (io_now io) m0;
          (fs, m1) = poll2_ask (m_map m) m
      in case io_poll io fs of
           Inl e \<Rightarrow> (Some e, m1)
         | Inr rs \<Rightarrow> (None, fold (readwrite io) rs m1))"

text \<open>\<^verbatim>\<open>loop(timeout, use_poll, map, count)\<close>; \<open>ios\<close> are the answers in \<^verbatim>\<open>count\<close> passes.\<close>

fun loop :: "bool \<Rightarrow> io list \<Rightarrow> main \<Rightarrow> exn option \<times> main" where
  "loop use_poll [] m = (None, m)"
| "loop use_poll (io # ios) m =
     (if m_map m = [] then (None, m)
      else case (if use_poll then poll2 io m else poll io m) of
             (Some e, m1) \<Rightarrow> (Some e, m1)
           | (None, m1) \<Rightarrow> loop use_poll ios m1)"

text \<open>\<^verbatim>\<open>close_all\<close>: \<^verbatim>\<open>close\<close> of every object, not \<^verbatim>\<open>handle_close\<close>; and the map is empty.\<close>

definition channel_close :: "channel \<Rightarrow> channel" where
  "channel_close c = c\<lparr>c_connected := False, c_socket := False\<rparr>"

definition close_object :: "nat \<times> obj \<Rightarrow> main \<Rightarrow> main" where
  "close_object e m =
     (case snd e of
        Listener i \<Rightarrow> server_close i m
      | Trigger i \<Rightarrow> trigger_close i m
      | Conn k \<Rightarrow> change_channel k channel_close m)"

definition close_all :: "main \<Rightarrow> main" where
  "close_all m = (fold close_object (m_map m) m)\<lparr>m_map := []\<rparr>"

text \<open>Of the map as an association list.\<close>

lemma set_update_keys: "(k, v) \<in> set (AList.update fd x al) \<Longrightarrow> (k, v) = (fd, x) \<or> (k, v) \<in> set al"
  by (induction al) (auto split: if_splits)

end
