(* ===== verification/Dispatcher.thy ===== *)
theory Dispatcher
  imports Prelude
begin

text \<open>
  \<^verbatim>\<open>ThreadedTaskDispatcher\<close> of \<^verbatim>\<open>task.py\<close>: worker threads that take tasks out of a queue. A section
  under the lock is one step; a thread is at the top of the loop of \<^verbatim>\<open>handler_thread\<close> (about to take
  the lock), in \<^verbatim>\<open>queue_cv.wait()\<close> (and notified or not), or in \<^verbatim>\<open>task.service()\<close>. \<^verbatim>\<open>threading.Condition\<close> does
  not wake a thread that was not notified, and which one \<^verbatim>\<open>notify()\<close> picks is not specified. The list
  \<open>d_added\<close> records the tasks that were added, \<open>d_taken\<close> those that left the queue.
\<close>

datatype 't thread = Top | Waiting bool | Serving 't

record 't dispatcher =
  d_threads :: "nat list"
  d_pc :: "nat \<Rightarrow> 't thread"
  d_queue :: "'t list"
  d_stop_count :: int
  d_active_count :: int
  d_added :: "'t list"
  d_taken :: "'t list"
  d_cancelled :: "'t list"

definition dispatcher_init :: "'t dispatcher" where
  "dispatcher_init = \<lparr>d_threads = [], d_pc = (\<lambda>i. Top), d_queue = [], d_stop_count = 0, d_active_count = 0,
     d_added = [], d_taken = [], d_cancelled = []\<rparr>"

text \<open>The section of \<^verbatim>\<open>handler_thread\<close> under the lock, up to the wait, the exit or the task.\<close>

definition handler_top :: "nat \<Rightarrow> 't dispatcher \<Rightarrow> 't dispatcher" where
  "handler_top i d =
     (if d_queue d = [] \<and> d_stop_count d = 0
      then d\<lparr>d_active_count := d_active_count d - 1, d_pc := (d_pc d)(i := Waiting False)\<rparr>
      else if 0 < d_stop_count d
      then d\<lparr>d_active_count := d_active_count d - 1, d_stop_count := d_stop_count d - 1,
             d_threads := removeAll i (d_threads d)\<rparr>
      else d\<lparr>d_queue := tl (d_queue d), d_pc := (d_pc d)(i := Serving (hd (d_queue d))),
             d_taken := d_taken d @ [hd (d_queue d)]\<rparr>)"

text \<open>\<^verbatim>\<open>wait()\<close> returns, and the condition of the inner loop is tested again.\<close>

definition handler_wake :: "nat \<Rightarrow> 't dispatcher \<Rightarrow> 't dispatcher" where
  "handler_wake i d = handler_top i (d\<lparr>d_active_count := d_active_count d + 1\<rparr>)"

text \<open>\<^verbatim>\<open>task.service()\<close> returned, or raised an exception that is logged.\<close>

definition handler_served :: "nat \<Rightarrow> 't dispatcher \<Rightarrow> 't dispatcher" where
  "handler_served i d = d\<lparr>d_pc := (d_pc d)(i := Top)\<rparr>"

lemma next_free_measure:
  assumes n: "n \<in> set (ts :: nat list)"
  shows "card {m \<in> set ts. Suc n \<le> m} < card {m \<in> set ts. n \<le> m}"
proof (rule psubset_card_mono)
  show "finite {m \<in> set ts. n \<le> m}" by simp
  have "n \<in> {m \<in> set ts. n \<le> m}" "n \<notin> {m \<in> set ts. Suc n \<le> m}" using n by simp_all
  moreover have "{m \<in> set ts. Suc n \<le> m} \<subseteq> {m \<in> set ts. n \<le> m}" by (rule Collect_mono) simp
  ultimately show "{m \<in> set ts. Suc n \<le> m} \<subset> {m \<in> set ts. n \<le> m}" by blast
qed

function next_free :: "nat \<Rightarrow> nat list \<Rightarrow> nat" where
  "next_free n ts = (if n \<in> set ts then next_free (Suc n) ts else n)"
  by pat_completeness auto
termination
  by (relation "measure (\<lambda>(n, ts). card {m \<in> set ts. n \<le> m})")
    (rule wf_measure, simp only: in_measure prod.case next_free_measure)

declare next_free.simps [simp del]

fun start_threads :: "nat \<Rightarrow> nat \<Rightarrow> 't dispatcher \<Rightarrow> 't dispatcher" where
  "start_threads 0 thread_no d = d"
| "start_threads (Suc k) thread_no d =
     (let i = next_free thread_no (d_threads d)
      in start_threads k (Suc i)
           (d\<lparr>d_threads := d_threads d @ [i], d_pc := (d_pc d)(i := Top), d_active_count := d_active_count d + 1\<rparr>))"

fun notified :: "'t thread \<Rightarrow> 't thread" where
  "notified (Waiting b) = Waiting True"
| "notified s = s"

definition notify_all :: "'t dispatcher \<Rightarrow> 't dispatcher" where
  "notify_all d = d\<lparr>d_pc := (\<lambda>i. notified (d_pc d i))\<rparr>"

definition set_thread_count :: "int \<Rightarrow> 't dispatcher \<Rightarrow> 't dispatcher" where
  "set_thread_count count d =
     (let running = int (length (d_threads d)) - d_stop_count d
      in if running < count then start_threads (nat (count - running)) 0 d
         else if count < running
         then notify_all (d\<lparr>d_stop_count := d_stop_count d + (running - count)\<rparr>)
         else d)"

text \<open>\<^verbatim>\<open>add_task\<close>; \<open>w\<close> is the thread that \<^verbatim>\<open>queue_cv.notify()\<close> picks, if one waits. The rest only logs.\<close>

definition add_task :: "'t \<Rightarrow> nat option \<Rightarrow> 't dispatcher \<Rightarrow> 't dispatcher" where
  "add_task t w d =
     d\<lparr>d_queue := d_queue d @ [t], d_added := d_added d @ [t],
       d_pc := (case w of None \<Rightarrow> d_pc d | Some i \<Rightarrow> (d_pc d)(i := notified (d_pc d i)))\<rparr>"

text \<open>The end of \<^verbatim>\<open>shutdown\<close>, after \<^verbatim>\<open>set_thread_count(0)\<close> and the time for the threads to stop.\<close>

definition cancel_pending :: "'t dispatcher \<Rightarrow> 't dispatcher" where
  "cancel_pending d =
     notify_all (d\<lparr>d_queue := [], d_taken := d_taken d @ d_queue d, d_cancelled := d_cancelled d @ d_queue d\<rparr>)"

subsection \<open>Steps\<close>

definition may_pick :: "nat option \<Rightarrow> 't dispatcher \<Rightarrow> bool" where
  "may_pick w d \<longleftrightarrow>
     (case w of None \<Rightarrow> \<forall>i \<in> set (d_threads d). d_pc d i \<noteq> Waiting False
      | Some i \<Rightarrow> i \<in> set (d_threads d) \<and> d_pc d i = Waiting False)"

inductive dstep :: "'t dispatcher \<Rightarrow> 't dispatcher \<Rightarrow> bool" where
  top: "i \<in> set (d_threads d) \<Longrightarrow> d_pc d i = Top \<Longrightarrow> dstep d (handler_top i d)"
| wake: "i \<in> set (d_threads d) \<Longrightarrow> d_pc d i = Waiting True \<Longrightarrow> dstep d (handler_wake i d)"
| served: "i \<in> set (d_threads d) \<Longrightarrow> d_pc d i = Serving t \<Longrightarrow> dstep d (handler_served i d)"
| add: "may_pick w d \<Longrightarrow> dstep d (add_task t w d)"
| count: "0 \<le> n \<Longrightarrow> dstep d (set_thread_count n d)"
| cancel: "dstep d (cancel_pending d)"

inductive dreach :: "'t dispatcher \<Rightarrow> bool" where
  init: "dreach dispatcher_init"
| step: "dreach d \<Longrightarrow> dstep d d' \<Longrightarrow> dreach d'"

subsection \<open>The invariant\<close>

definition count_threads :: "('t thread \<Rightarrow> bool) \<Rightarrow> 't dispatcher \<Rightarrow> nat" where
  "count_threads p d = length (filter (\<lambda>i. p (d_pc d i)) (d_threads d))"

fun is_waiting :: "'t thread \<Rightarrow> bool" where
  "is_waiting (Waiting b) = True"
| "is_waiting _ = False"

definition wakeups_ok :: "'t dispatcher \<Rightarrow> bool" where
  "wakeups_ok d \<longleftrightarrow>
     (0 < count_threads (\<lambda>s. s = Waiting False) d \<longrightarrow>
        int (length (d_queue d)) + d_stop_count d \<le> int (count_threads (\<lambda>s. s = Waiting True) d))"

definition dispatcher_ok :: "'t dispatcher \<Rightarrow> bool" where
  "dispatcher_ok d \<longleftrightarrow> distinct (d_threads d) \<and> 0 \<le> d_stop_count d \<and> d_stop_count d \<le> int (length (d_threads d))
     \<and> d_active_count d = int (count_threads (\<lambda>s. \<not> is_waiting s) d)
     \<and> wakeups_ok d \<and> d_added d = d_taken d @ d_queue d"

lemma filter_update:
  assumes "distinct xs" "i \<in> set xs"
  shows "int (length (filter (\<lambda>j. p ((f(i := s)) j)) xs)) =
    int (length (filter (\<lambda>j. p (f j)) xs)) + (if p s then 1 else 0) - (if p (f i) then 1 else 0)"
  using assms
proof (induction xs)
  case (Cons x xs)
  show ?case
  proof (cases "x = i")
    case True
    then have "i \<notin> set xs" using Cons.prems by simp
    then have "filter (\<lambda>j. p ((f(i := s)) j)) xs = filter (\<lambda>j. p (f j)) xs" by (intro filter_cong) auto
    then show ?thesis using True by simp
  next
    case False
    then have i: "i \<in> set xs" "distinct xs" using Cons.prems by auto
    show ?thesis using Cons.IH [OF i(2,1)] False by (cases "p (f x)") (simp_all only: filter.simps fun_upd_other list.size if_True if_False, simp_all)
  qed
qed simp

lemma count_update:
  assumes "distinct (d_threads d)" "i \<in> set (d_threads d)" "d_threads d' = d_threads d" "d_pc d' = (d_pc d)(i := s)"
  shows "int (count_threads p d') =
    int (count_threads p d) + (if p s then 1 else 0) - (if p (d_pc d i) then 1 else 0)"
  using filter_update [OF assms(1,2), of p "d_pc d" s] assms(3,4) by (simp add: count_threads_def)

lemma count_same:
  "d_threads d' = d_threads d \<Longrightarrow> d_pc d' = d_pc d \<Longrightarrow> count_threads p d' = count_threads p d"
  by (simp add: count_threads_def)

lemma filter_removeAll_length:
  assumes "distinct xs" "i \<in> set xs"
  shows "int (length (filter p (removeAll i xs))) = int (length (filter p xs)) - (if p i then 1 else 0)"
  using assms
proof (induction xs)
  case (Cons x xs)
  show ?case
  proof (cases "x = i")
    case True
    with Cons.prems have "removeAll i (x # xs) = xs" by simp
    with True show ?thesis by simp
  next
    case False
    with Cons show ?thesis by (cases "p x") (simp_all split: if_splits)
  qed
qed simp

lemma count_remove:
  assumes "distinct (d_threads d)" "i \<in> set (d_threads d)"
    and "d_threads d' = removeAll i (d_threads d)" "d_pc d' = d_pc d"
  shows "int (count_threads p d') = int (count_threads p d) - (if p (d_pc d i) then 1 else 0)"
  using filter_removeAll_length [OF assms(1,2), of "\<lambda>i. p (d_pc d i)"] assms(3,4) by (simp add: count_threads_def)

lemma handler_top_cases:
  obtains
    (idle) "d_queue d = []" "d_stop_count d = 0"
      "handler_top i d = d\<lparr>d_active_count := d_active_count d - 1, d_pc := (d_pc d)(i := Waiting False)\<rparr>"
  | (stop) "0 < d_stop_count d"
      "handler_top i d = d\<lparr>d_active_count := d_active_count d - 1, d_stop_count := d_stop_count d - 1,
             d_threads := removeAll i (d_threads d)\<rparr>"
  | (task) t ts where "d_queue d = t # ts" "\<not> 0 < d_stop_count d"
      "handler_top i d = d\<lparr>d_queue := ts, d_pc := (d_pc d)(i := Serving t), d_taken := d_taken d @ [t]\<rparr>"
  | (negative) "d_stop_count d < 0"
proof -
  consider "d_stop_count d < 0" | "0 < d_stop_count d" | "d_stop_count d = 0" "d_queue d = []"
    | "d_stop_count d = 0" "d_queue d \<noteq> []" by fastforce
  then show thesis
  proof cases
    case 1
    then show thesis by (rule negative)
  next
    case 2
    then show thesis by (intro stop) (simp_all add: handler_top_def)
  next
    case 3
    then show thesis by (intro idle) (simp_all add: handler_top_def)
  next
    case 4
    then obtain t ts where "d_queue d = t # ts" by (cases "d_queue d") auto
    with 4 show thesis by (intro task [of t ts]) (simp_all add: handler_top_def)
  qed
qed

text \<open>
  The thread that takes the lock counts as active in both places it comes from: at the top of the loop, or
  out of \<^verbatim>\<open>wait()\<close> with its count restored. What is left of the invariant then is \<open>lock_ok\<close>.
\<close>

definition lock_ok :: "nat \<Rightarrow> 't dispatcher \<Rightarrow> bool" where
  "lock_ok i d \<longleftrightarrow> i \<in> set (d_threads d) \<and> distinct (d_threads d) \<and> 0 \<le> d_stop_count d
     \<and> d_stop_count d \<le> int (length (d_threads d))
     \<and> d_active_count d = int (count_threads (\<lambda>s. \<not> is_waiting s) d) + (if is_waiting (d_pc d i) then 1 else 0)
     \<and> d_pc d i \<noteq> Waiting False \<and> wakeups_ok d \<and> d_added d = d_taken d @ d_queue d"

lemma handler_top_ok:
  assumes "lock_ok i d"
  shows "dispatcher_ok (handler_top i d)"
proof -
  note lock = assms [unfolded lock_ok_def]
  show ?thesis
  proof (cases d rule: handler_top_cases [where i = i])
    case idle
    have "int (count_threads p (handler_top i d)) =
      int (count_threads p d) + (if p (Waiting False) then 1 else 0) - (if p (d_pc d i) then 1 else 0)" for p
      by (rule count_update) (use lock idle in simp_all)
    from this [of "\<lambda>s. \<not> is_waiting s"] show ?thesis
      using lock idle by (auto simp: dispatcher_ok_def wakeups_ok_def split: if_splits)
  next
    case stop
    have c: "int (count_threads p (handler_top i d)) = int (count_threads p d) - (if p (d_pc d i) then 1 else 0)" for p
      by (rule count_remove) (use lock stop in simp_all)
    have "length (removeAll i (d_threads d)) = length (d_threads d) - 1" "0 < length (d_threads d)"
      using lock by (auto simp: distinct_remove1_removeAll [symmetric] length_remove1 dest: length_pos_if_in_set)
    with c [of "\<lambda>s. \<not> is_waiting s"] c [of "\<lambda>s. s = Waiting False"] c [of "\<lambda>s. s = Waiting True"]
    show ?thesis
      using lock stop by (auto simp: dispatcher_ok_def wakeups_ok_def distinct_removeAll split: if_splits)
  next
    case (task t ts)
    have c: "int (count_threads p (handler_top i d)) =
      int (count_threads p d) + (if p (Serving t) then 1 else 0) - (if p (d_pc d i) then 1 else 0)" for p
      by (rule count_update) (use lock task in simp_all)
    from c [of "\<lambda>s. \<not> is_waiting s"] c [of "\<lambda>s. s = Waiting False"] c [of "\<lambda>s. s = Waiting True"]
    show ?thesis
      using lock task by (auto simp: dispatcher_ok_def wakeups_ok_def split: if_splits)
  next
    case negative
    then show ?thesis using lock by simp
  qed
qed

lemma handler_wake_ok:
  assumes "dispatcher_ok d" "i \<in> set (d_threads d)" "d_pc d i = Waiting True"
  shows "dispatcher_ok (handler_wake i d)"
  unfolding handler_wake_def
  by (rule handler_top_ok) (use assms in \<open>simp add: lock_ok_def dispatcher_ok_def wakeups_ok_def count_threads_def\<close>)

lemma handler_served_ok:
  assumes ok: "dispatcher_ok d" and i: "i \<in> set (d_threads d)" "d_pc d i = Serving t"
  shows "dispatcher_ok (handler_served i d)"
proof -
  have c: "int (count_threads p (handler_served i d)) =
      int (count_threads p d) + (if p Top then 1 else 0) - (if p (d_pc d i) then 1 else 0)" for p
    by (rule count_update) (use assms in \<open>simp_all add: dispatcher_ok_def handler_served_def\<close>)
  from c [of "\<lambda>s. \<not> is_waiting s"] c [of "\<lambda>s. s = Waiting False"] c [of "\<lambda>s. s = Waiting True"] ok i
  show ?thesis by (simp add: dispatcher_ok_def wakeups_ok_def) (simp add: handler_served_def)
qed

lemma notified_simps:
  "is_waiting (notified s) = is_waiting s"
  "notified s \<noteq> Waiting False"
  by (cases s; simp)+

lemma count_none:
  "(\<And>i. i \<in> set (d_threads d) \<Longrightarrow> \<not> p (d_pc d i)) \<Longrightarrow> count_threads p d = 0"
  by (simp add: count_threads_def filter_empty_conv)

lemma notify_all_ok:
  assumes "distinct (d_threads d)" "0 \<le> d_stop_count d" "d_stop_count d \<le> int (length (d_threads d))"
    and "d_active_count d = int (count_threads (\<lambda>s. \<not> is_waiting s) d)" "d_added d = d_taken d @ d_queue d"
  shows "dispatcher_ok (notify_all d)"
proof -
  have "count_threads (\<lambda>s. s = Waiting False) (notify_all d) = 0"
    by (rule count_none) (simp add: notify_all_def notified_simps)
  moreover have "count_threads (\<lambda>s. \<not> is_waiting s) (notify_all d) = count_threads (\<lambda>s. \<not> is_waiting s) d"
    by (simp add: notify_all_def notified_simps count_threads_def)
  ultimately show ?thesis
    using assms by (simp add: dispatcher_ok_def wakeups_ok_def) (simp add: notify_all_def)
qed

lemma next_free_fresh: "next_free n ts \<notin> set ts"
  by (induction n ts rule: next_free.induct) (subst next_free.simps, simp)

lemma start_thread_ok:
  assumes ok: "dispatcher_ok d" and i: "i \<notin> set (d_threads d)"
  shows "dispatcher_ok (d\<lparr>d_threads := d_threads d @ [i], d_pc := (d_pc d)(i := Top),
    d_active_count := d_active_count d + 1\<rparr>)" (is "dispatcher_ok ?d")
proof -
  have "filter (\<lambda>j. p (((d_pc d)(i := Top)) j)) (d_threads d) = filter (\<lambda>j. p (d_pc d j)) (d_threads d)" for p
    using i by (intro filter_cong) auto
  then have "count_threads p ?d = count_threads p d + (if p Top then 1 else 0)" for p
    by (simp add: count_threads_def)
  with ok i show ?thesis by (simp add: dispatcher_ok_def wakeups_ok_def)
qed

lemma start_threads_ok:
  "dispatcher_ok d \<Longrightarrow> dispatcher_ok (start_threads k n d)
     \<and> length (d_threads (start_threads k n d)) = length (d_threads d) + k
     \<and> d_stop_count (start_threads k n d) = d_stop_count d
     \<and> d_queue (start_threads k n d) = d_queue d"
  by (induction k n d rule: start_threads.induct) (simp_all add: Let_def start_thread_ok next_free_fresh)

lemma set_thread_count_ok:
  assumes ok: "dispatcher_ok d" and n: "0 \<le> n"
  shows "dispatcher_ok (set_thread_count n d)"
    and "int (length (d_threads (set_thread_count n d))) - d_stop_count (set_thread_count n d) = n"
    and "d_queue (set_thread_count n d) = d_queue d"
proof -
  let ?running = "int (length (d_threads d)) - d_stop_count d"
  consider "?running < n" | "n < ?running" | "?running = n" by linarith
  then have "dispatcher_ok (set_thread_count n d)
    \<and> int (length (d_threads (set_thread_count n d))) - d_stop_count (set_thread_count n d) = n
    \<and> d_queue (set_thread_count n d) = d_queue d"
  proof cases
    case 1
    then show ?thesis
      using start_threads_ok [OF ok, of "nat (n - ?running)" 0] by (simp add: set_thread_count_def)
  next
    case 2
    then have "dispatcher_ok (set_thread_count n d)"
      unfolding set_thread_count_def Let_def
      using ok n by (simp add: dispatcher_ok_def [of d]) (rule notify_all_ok; simp add: count_threads_def)
    with 2 show ?thesis by (simp add: set_thread_count_def Let_def notify_all_def)
  next
    case 3
    with ok show ?thesis by (simp add: set_thread_count_def)
  qed
  then show "dispatcher_ok (set_thread_count n d)"
    and "int (length (d_threads (set_thread_count n d))) - d_stop_count (set_thread_count n d) = n"
    and "d_queue (set_thread_count n d) = d_queue d" by simp_all
qed

lemma count_zero:
  "count_threads p d = 0 \<longleftrightarrow> (\<forall>i \<in> set (d_threads d). \<not> p (d_pc d i))"
  by (simp add: count_threads_def filter_empty_conv)

lemma add_task_ok:
  assumes ok: "dispatcher_ok d" and w: "may_pick w d"
  shows "dispatcher_ok (add_task t w d)"
proof (cases w)
  case None
  with w have "count_threads (\<lambda>s. s = Waiting False) (add_task t w d) = 0"
    by (simp add: count_zero may_pick_def add_task_def)
  with ok None show ?thesis by (simp add: dispatcher_ok_def wakeups_ok_def) (simp add: add_task_def count_threads_def)
next
  case (Some i)
  with w have i: "i \<in> set (d_threads d)" "d_pc d i = Waiting False" by (simp_all add: may_pick_def)
  have c: "int (count_threads p (add_task t w d)) =
      int (count_threads p d) + (if p (Waiting True) then 1 else 0) - (if p (d_pc d i) then 1 else 0)" for p
    by (rule count_update) (use ok Some i in \<open>simp_all add: dispatcher_ok_def add_task_def\<close>)
  have "0 < count_threads (\<lambda>s. s = Waiting False) d" using i count_zero [of "\<lambda>s. s = Waiting False" d] by auto
  with c [of "\<lambda>s. \<not> is_waiting s"] c [of "\<lambda>s. s = Waiting False"] c [of "\<lambda>s. s = Waiting True"] ok i
  show ?thesis by (simp add: dispatcher_ok_def wakeups_ok_def) (simp add: add_task_def)
qed

lemma cancel_pending_ok: "dispatcher_ok d \<Longrightarrow> dispatcher_ok (cancel_pending d)"
  unfolding cancel_pending_def
  by (rule notify_all_ok) (simp_all add: dispatcher_ok_def count_threads_def)

lemma dstep_ok: "dstep d d' \<Longrightarrow> dispatcher_ok d \<Longrightarrow> dispatcher_ok d'"
proof (induction rule: dstep.induct)
  case (top i d)
  then show ?case
    by (intro handler_top_ok) (simp add: lock_ok_def dispatcher_ok_def)
qed (simp_all add: handler_wake_ok handler_served_ok add_task_ok set_thread_count_ok cancel_pending_ok)

lemma dreach_ok: "dreach d \<Longrightarrow> dispatcher_ok d"
proof (induction rule: dreach.induct)
  case init
  show ?case by (simp add: dispatcher_ok_def dispatcher_init_def wakeups_ok_def count_threads_def)
qed (rule dstep_ok)

subsection \<open>Properties\<close>

text \<open>
  C20: In every reachable state of the dispatcher the tasks that were added are those that left the queue
  followed by those in it, in that order: no task is lost, served twice or overtaken. \<^verbatim>\<open>active_count\<close> is the
  number of threads that are not in \<^verbatim>\<open>wait()\<close>, although each thread changes it at four places, and at most
  as many threads are asked to stop as there are.
\<close>

theorem dispatcher_queue_and_counts:
  assumes "dreach d"
  shows "d_added d = d_taken d @ d_queue d
    \<and> d_active_count d = int (card {i \<in> set (d_threads d). \<not> is_waiting (d_pc d i)})
    \<and> 0 \<le> d_stop_count d \<and> d_stop_count d \<le> int (card (set (d_threads d)))"
proof -
  have ok: "dispatcher_ok d" using assms by (rule dreach_ok)
  then have "count_threads p d = card {i \<in> set (d_threads d). p (d_pc d i)}" for p
    by (simp add: count_threads_def dispatcher_ok_def distinct_length_filter Int_def conj_commute)
  with ok show ?thesis by (simp add: dispatcher_ok_def distinct_card)
qed

definition sample_dispatcher :: "nat dispatcher" where
  "sample_dispatcher = add_task 7 (Some 0) (handler_top 0 (set_thread_count 1 dispatcher_init))"

lemma next_free_empty: "next_free n [] = n"
  by (subst next_free.simps) simp

lemma one_thread:
  "set_thread_count 1 (dispatcher_init :: 't dispatcher) =
     dispatcher_init\<lparr>d_threads := [0], d_pc := (\<lambda>i. Top), d_active_count := 1\<rparr>"
  by (simp add: set_thread_count_def dispatcher_init_def next_free_empty fun_upd_idem_iff)

lemma one_thread_idle:
  "handler_top 0 (set_thread_count 1 (dispatcher_init :: 't dispatcher)) =
     dispatcher_init\<lparr>d_threads := [0], d_pc := (\<lambda>i. Top)(0 := Waiting False), d_active_count := 0\<rparr>"
  unfolding one_thread by (simp add: handler_top_def dispatcher_init_def)

lemma sample_dispatcher_eq:
  "sample_dispatcher = dispatcher_init\<lparr>d_threads := [0], d_pc := (\<lambda>i. Top)(0 := Waiting True), d_active_count := 0,
     d_queue := [7], d_added := [7]\<rparr>"
  unfolding sample_dispatcher_def one_thread_idle by (simp add: add_task_def dispatcher_init_def)

lemma sample_dispatcher_reachable: "dreach sample_dispatcher"
proof -
  have "dreach (set_thread_count 1 dispatcher_init :: nat dispatcher)"
    by (rule dreach.step [OF dreach.init dstep.count]) simp
  then have "dreach (handler_top 0 (set_thread_count 1 dispatcher_init) :: nat dispatcher)"
    by (rule dreach.step) (rule dstep.top; simp add: one_thread)
  then show ?thesis
    unfolding sample_dispatcher_def
    by (rule dreach.step) (rule dstep.add; simp add: one_thread_idle may_pick_def)
qed

theorem dispatcher_queue_and_counts_witness:
  "d_added sample_dispatcher = d_taken sample_dispatcher @ d_queue sample_dispatcher
    \<and> d_active_count sample_dispatcher = 0"
  using dispatcher_queue_and_counts [OF sample_dispatcher_reachable] by (simp add: sample_dispatcher_eq)

text \<open>
  C13: A queued task is not forgotten: as long as no thread was asked to stop and one thread is not busy with a
  task, some thread can take the oldest task, because it is at the top of its loop or was notified. The
  notification of \<^verbatim>\<open>add_task\<close> is never lost, although it may reach a thread that finds the queue empty
  again.
\<close>

theorem queued_task_progress:
  assumes reach: "dreach d" and queue: "d_queue d = t # ts" and stop: "d_stop_count d = 0"
    and i: "i \<in> set (d_threads d)" "\<And>u. d_pc d i \<noteq> Serving u"
  shows "\<exists>j d'. dstep d d' \<and> j \<in> set (d_threads d) \<and> d_pc d' j = Serving t
    \<and> d_queue d' = ts \<and> d_taken d' = d_taken d @ [t]"
proof -
  have "\<exists>j \<in> set (d_threads d). d_pc d j = Top \<or> d_pc d j = Waiting True"
  proof (cases "d_pc d i = Waiting False")
    case True
    then have "0 < count_threads (\<lambda>s. s = Waiting False) d"
      using i(1) count_zero [of "\<lambda>s. s = Waiting False" d] by auto
    then have "0 < count_threads (\<lambda>s. s = Waiting True) d"
      using dreach_ok [OF reach] queue stop by (simp add: dispatcher_ok_def wakeups_ok_def)
    then show ?thesis using count_zero [of "\<lambda>s. s = Waiting True" d] by auto
  next
    case False
    with i have "d_pc d i = Top \<or> d_pc d i = Waiting True" by (cases "d_pc d i") auto
    with i(1) show ?thesis by blast
  qed
  then obtain j where j: "j \<in> set (d_threads d)" "d_pc d j = Top \<or> d_pc d j = Waiting True" by blast
  show ?thesis
  proof (cases "d_pc d j = Top")
    case True
    from dstep.top [OF j(1) True] j(1) queue stop show ?thesis
      by (intro exI [of _ j] exI [of _ "handler_top j d"]) (simp add: handler_top_def)
  next
    case False
    with j have "d_pc d j = Waiting True" by blast
    from dstep.wake [OF j(1) this] j(1) queue stop show ?thesis
      by (intro exI [of _ j] exI [of _ "handler_wake j d"]) (simp add: handler_wake_def handler_top_def)
  qed
qed

theorem queued_task_progress_witness:
  "\<exists>j d'. dstep sample_dispatcher d' \<and> j \<in> set (d_threads sample_dispatcher) \<and> d_pc d' j = Serving 7
    \<and> d_queue d' = [] \<and> d_taken d' = d_taken sample_dispatcher @ [7]"
  by (rule queued_task_progress [where i = 0])
    (simp_all add: sample_dispatcher_reachable, simp_all add: sample_dispatcher_eq dispatcher_init_def)

text \<open>
  \<^verbatim>\<open>set_thread_count(count)\<close> leaves exactly \<open>count\<close> threads that will not stop, whether it starts threads,
  asks some to stop or, after an earlier call, threads are still about to stop; then the handlers take the
  stop requests one by one: a thread that takes the lock while one is left exits without taking a task.
\<close>

theorem thread_count_reached:
  assumes "dreach d" "0 \<le> n"
  shows "int (length (d_threads (set_thread_count n d))) - d_stop_count (set_thread_count n d) = n
    \<and> dreach (set_thread_count n d)
    \<and> d_queue (set_thread_count n d) = d_queue d
    \<and> (0 < d_stop_count (set_thread_count n d) \<longrightarrow>
         d_queue (handler_top i (set_thread_count n d)) = d_queue d
         \<and> i \<notin> set (d_threads (handler_top i (set_thread_count n d))))"
  using set_thread_count_ok [OF dreach_ok [OF assms(1)] assms(2)] dreach.step [OF assms(1) dstep.count [OF assms(2)]]
  by (simp add: handler_top_def)

theorem thread_count_reached_witness:
  "int (length (d_threads (set_thread_count 0 sample_dispatcher))) - d_stop_count (set_thread_count 0 sample_dispatcher) = 0
    \<and> 0 \<notin> set (d_threads (handler_top 0 (set_thread_count 0 sample_dispatcher)))"
  using thread_count_reached [OF sample_dispatcher_reachable, of 0 0]
  by (simp add: set_thread_count_def notify_all_def sample_dispatcher_eq dispatcher_init_def)

end
