(* ===== verification/Startup.thy ===== *)
theory Startup
  imports Command_Line Server Dispatcher
begin

text \<open>
  How a server is put together: \<^verbatim>\<open>create_server\<close> and the constructor of \<^verbatim>\<open>BaseWSGIServer\<close> of \<^verbatim>\<open>server.py\<close> wrap
  the application, start the threads and choose what to listen on. The sockets are made in \<open>Sockets\<close>.
\<close>

datatype endpoint = Tcp addrinfo | Tcp_Socket sock | Unix_Socket sock | Unix_Path string

text \<open>One server, or a \<^verbatim>\<open>MultiSocketServer\<close> around several.\<close>

datatype servers = Single endpoint | Multi "endpoint list"

definition wrap_application :: "config \<Rightarrow> (environ \<Rightarrow> app) \<Rightarrow> environ \<Rightarrow> app" where
  "wrap_application c app =
     (if (adj_trusted_proxy c \<noteq> None \<and> adj_trusted_proxy c \<noteq> Some []) \<or> adj_clear_untrusted_proxy_headers c
      then proxy_headers_middleware app (adj_trusted_proxy c)
             (case adj_trusted_proxy_count c of None \<Rightarrow> 1 | Some n \<Rightarrow> n)
             (adj_trusted_proxy_headers c) (adj_clear_untrusted_proxy_headers c)
      else app)"

definition socket_endpoint :: "sock \<Rightarrow> endpoint list" where
  "socket_endpoint s =
     (if sk_family s = AF_INET \<or> sk_family s = AF_INET6 then [Tcp_Socket s]
      else if sk_family s = AF_UNIX then [Unix_Socket s] else [])"

definition tcp_endpoints :: "config \<Rightarrow> endpoint list" where
  "tcp_endpoints c =
     (if cf_sockets c = [] then map Tcp (cf_wanted c) else []) @ concat (map socket_endpoint (cf_sockets c))"

definition choose_servers :: "config \<Rightarrow> exn + servers" where
  "choose_servers c =
     (if cf_unix_socket c \<noteq> None \<and> cf_unix_socket c \<noteq> Some []
      then Inr (Single (Unix_Path (the (cf_unix_socket c))))
      else case tcp_endpoints c of
             [] \<Rightarrow> Inl attribute_error    \<comment> \<open>\<^verbatim>\<open>last_serv\<close> is \<^verbatim>\<open>None\<close>\<close>
           | [e] \<Rightarrow> Inr (Single e)
           | es \<Rightarrow> Inr (Multi es))"

text \<open>The parts of a server: its configuration, what it listens on, the application it runs, its threads.\<close>

definition create_server ::
  "platform \<Rightarrow> (environ \<Rightarrow> app) option \<Rightarrow> kwargs \<Rightarrow> exn + config \<times> servers \<times> (environ \<Rightarrow> app) \<times> nat dispatcher" where
  "create_server pl application kw =
     (case application of
        None \<Rightarrow> Inl (ValueError ''The \"app\" passed to ``create_server`` was ``None``.  You forgot to return a WSGI app within your application.'')
      | Some app \<Rightarrow>
          (case make_adjustments pl kw of
             Inl e \<Rightarrow> Inl e
           | Inr c \<Rightarrow>
               (case choose_servers c of
                  Inl e \<Rightarrow> Inl e
                | Inr ss \<Rightarrow> Inr (c, ss, wrap_application c app, set_thread_count (adj_threads c) dispatcher_init))))"

fun endpoints :: "servers \<Rightarrow> endpoint list" where
  "endpoints (Single e) = [e]"
| "endpoints (Multi es) = es"

fun is_unix_endpoint :: "endpoint \<Rightarrow> bool" where
  "is_unix_endpoint (Unix_Socket s) = True"
| "is_unix_endpoint (Unix_Path p) = True"
| "is_unix_endpoint _ = False"

lemma tcp_endpoints_kind:
  assumes "check_sockets (cf_sockets c) = None"
  shows "list_all is_unix_endpoint (tcp_endpoints c) \<or> list_all (\<lambda>e. \<not> is_unix_endpoint e) (tcp_endpoints c)"
proof -
  from assms consider "list_all is_inet (cf_sockets c)" | "list_all is_unix (cf_sockets c)"
    by (auto simp: check_sockets_def list_ex_iff list_all_iff split: if_splits)
  then show ?thesis
  proof cases
    case 1
    then have "list_all (\<lambda>e. \<not> is_unix_endpoint e) (tcp_endpoints c)"
      by (auto simp: tcp_endpoints_def list_all_iff socket_endpoint_def is_inet_def split: if_splits)
    then show ?thesis by blast
  next
    case 2
    show ?thesis
    proof (cases "cf_sockets c = []")
      case True
      then show ?thesis by (simp add: tcp_endpoints_def list_all_iff)
    next
      case False
      with 2 have "list_all is_unix_endpoint (tcp_endpoints c)"
        by (auto simp: tcp_endpoints_def list_all_iff socket_endpoint_def is_unix_def split: if_splits)
      then show ?thesis by blast
    qed
  qed
qed

lemma choose_servers_kind:
  assumes "choose_servers c = Inr ss" "check_sockets (cf_sockets c) = None"
  shows "endpoints ss \<noteq> [] \<and> (list_all is_unix_endpoint (endpoints ss) \<or> list_all (\<lambda>e. \<not> is_unix_endpoint e) (endpoints ss))"
  using assms(1) tcp_endpoints_kind [OF assms(2)]
  by (auto simp: choose_servers_def split: if_splits list.splits)

lemma threads_started:
  assumes "0 \<le> n"
  shows "dreach (set_thread_count n dispatcher_init :: nat dispatcher)"
    and "int (length (d_threads (set_thread_count n dispatcher_init :: nat dispatcher))) = n"
    and "d_stop_count (set_thread_count n dispatcher_init :: nat dispatcher) = 0"
proof -
  let ?d = "set_thread_count n dispatcher_init :: nat dispatcher"
  show "dreach ?d" by (rule dreach.step [OF dreach.init dstep.count [OF assms]])
  have "d_stop_count ?d = 0"
    using assms start_threads_ok [OF dreach_ok [OF dreach.init], of "nat n" 0]
    by (auto simp: set_thread_count_def Let_def) (simp_all add: dispatcher_init_def)
  then show "d_stop_count ?d = 0" "int (length (d_threads ?d)) = n"
    using set_thread_count_ok(2) [OF dreach_ok [OF dreach.init] assms, where 'a = nat] by simp_all
qed

text \<open>
  C21: What \<^verbatim>\<open>create_server\<close> returns for an application. It listens somewhere, on sockets of one kind, Internet or
  UNIX; all threads that were asked for wait for tasks; and if no proxy is trusted and untrusted headers are
  cleared, which is the default, the application never sees a proxy header, whoever sends it.
\<close>

theorem create_server_spec:
  assumes "create_server pl (Some app) kw = Inr (c, ss, app', d)" "0 \<le> adj_threads c"
  shows "endpoints ss \<noteq> []
    \<and> (list_all is_unix_endpoint (endpoints ss) \<or> list_all (\<lambda>e. \<not> is_unix_endpoint e) (endpoints ss))
    \<and> dreach d \<and> int (length (d_threads d)) = adj_threads c \<and> d_stop_count d = 0
    \<and> (adj_trusted_proxy c = None \<and> adj_clear_untrusted_proxy_headers c \<longrightarrow>
         (\<forall>env. \<exists>env'. app' env = app env' \<and> (\<forall>h \<in> set PROXY_HEADERS. map_of env' (''HTTP_'' @ h) = None)))"
proof -
  from assms(1) have m: "make_adjustments pl kw = Inr c" "choose_servers c = Inr ss" "app' = wrap_application c app"
    "d = set_thread_count (adj_threads c) dispatcher_init"
    by (auto simp: create_server_def split: sum.splits)
  from m(1) have "check_sockets (cf_sockets c) = None"
    by (rule make_adjustmentsE) simp
  note k = choose_servers_kind [OF m(2) this]
  have "\<exists>env'. app' env = app env' \<and> (\<forall>h \<in> set PROXY_HEADERS. map_of env' (''HTTP_'' @ h) = None)"
    if "adj_trusted_proxy c = None" "adj_clear_untrusted_proxy_headers c" for env
    using that
    by (intro exI [of _ "clear_untrusted_headers PROXY_HEADERS env"])
      (simp add: m(3) wrap_application_def proxy_headers_middleware_def from_trusted_def clear_untrusted_lookup)
  with k threads_started [OF assms(2)] m(4) show ?thesis by simp
qed

definition empty_app :: "environ \<Rightarrow> app" where
  "empty_app env = AReturn (AIter (Some 0) None GStop)"

definition sample_servers :: "config \<times> servers \<times> (environ \<Rightarrow> app) \<times> nat dispatcher" where
  "sample_servers = projr (create_server sample_platform (Some empty_app) [(''threads'', SInt 0)])"

lemma sample_servers_made:
  "create_server sample_platform (Some empty_app) [(''threads'', SInt 0)] =
     Inr (fst sample_servers, fst (snd sample_servers), fst (snd (snd sample_servers)), snd (snd (snd sample_servers)))"
proof -
  have "\<not> isl (create_server sample_platform (Some empty_app) [(''threads'', SInt 0)])" by code_simp
  then show ?thesis by (simp add: sample_servers_def)
qed

theorem create_server_spec_witness:
  "endpoints (fst (snd sample_servers)) \<noteq> []
    \<and> (\<exists>env'. fst (snd (snd sample_servers)) [] = empty_app env')"
proof -
  have c: "adj_threads (fst sample_servers) = 0" "adj_trusted_proxy (fst sample_servers) = None"
    "adj_clear_untrusted_proxy_headers (fst sample_servers)" by code_simp+
  have "0 \<le> adj_threads (fst sample_servers)" by (simp add: c)
  from create_server_spec [OF sample_servers_made this] c(2,3) show ?thesis by blast
qed

text \<open>An empty list of addresses is accepted, and then an attribute of \<^verbatim>\<open>None\<close> is asked for.\<close>

theorem empty_listen_escapes:
  "case create_server sample_platform (Some empty_app) [(''listen'', SStr [])] of
     Inl e \<Rightarrow> e = attribute_error | Inr x \<Rightarrow> False"
  by code_simp

text \<open>With \<^verbatim>\<open>trusted_proxy_count\<close> 0 the client's own entry is taken as its address.\<close>

theorem zero_count_trusts_client:
  "\<not> isl (make_adjustments sample_platform [(''trusted_proxy'', SStr ''*''), (''trusted_proxy_count'', SInt 0),
       (''trusted_proxy_headers'', SStr ''x-forwarded-for'')])
   \<and> (case parse_proxy_headers 0 [''x-forwarded-for''] (env_set ''HTTP_X_FORWARDED_FOR'' ''6.6.6.6,1.2.3.4'' []) of
        Inl e \<Rightarrow> False | Inr (env, untrusted) \<Rightarrow> map_of env ''REMOTE_ADDR'' = Some (EStr ''6.6.6.6''))"
  by code_simp

end
