(* ===== verification/Pipe_Trigger.thy ===== *)
theory Pipe_Trigger
  imports Prelude
begin

text \<open>
  \<^verbatim>\<open>trigger.py\<close>: a pipe with which a worker wakes the main thread, and the list of thunks that the main
  thread is to run. \<open>tg_pipe\<close> counts the bytes in the pipe, \<open>tg_pulling\<close> the threads between the two parts of
  \<^verbatim>\<open>pull_trigger\<close>; \<open>tg_reading\<close> is the main thread between \<^verbatim>\<open>recv\<close> and the lock. The lists \<open>tg_pulled\<close> and \<open>tg_ran\<close>
  record the thunks that were given and those that were run; a thunk that raises is logged.
\<close>

record 't trigger =
  tg_pipe :: nat
  tg_thunks :: "'t list"
  tg_closed :: bool
  tg_pulling :: nat
  tg_reading :: bool
  tg_pulled :: "'t list"
  tg_ran :: "'t list"

definition trigger_init :: "'t trigger" where
  "trigger_init = \<lparr>tg_pipe = 0, tg_thunks = [], tg_closed = False, tg_pulling = 0, tg_reading = False,
     tg_pulled = [], tg_ran = []\<rparr>"

text \<open>\<^verbatim>\<open>pull_trigger(thunk)\<close>: the section under the lock, then \<^verbatim>\<open>_physical_pull\<close>.\<close>

definition pull_append :: "'t option \<Rightarrow> 't trigger \<Rightarrow> 't trigger" where
  "pull_append thunk g =
     (let g1 = g\<lparr>tg_pulling := Suc (tg_pulling g)\<rparr>
      in case thunk of
           None \<Rightarrow> g1
         | Some t \<Rightarrow> g1\<lparr>tg_thunks := tg_thunks g @ [t], tg_pulled := tg_pulled g @ [t]\<rparr>)"

definition physical_pull :: "'t trigger \<Rightarrow> exn option \<times> 't trigger" where
  "physical_pull g =
     (let g1 = g\<lparr>tg_pulling := tg_pulling g - 1\<rparr>
      in if tg_closed g then (Some OSError, g1) else (None, g1\<lparr>tg_pipe := Suc (tg_pipe g)\<rparr>))"

text \<open>\<^verbatim>\<open>handle_read\<close>: \<^verbatim>\<open>recv(8192)\<close>, then the thunks under the lock. \<open>fails\<close> is an \<^verbatim>\<open>OSError\<close> of \<^verbatim>\<open>recv\<close>.\<close>

definition read_pipe :: "bool \<Rightarrow> 't trigger \<Rightarrow> 't trigger" where
  "read_pipe fails g = (if fails then g else g\<lparr>tg_pipe := tg_pipe g - 8192, tg_reading := True\<rparr>)"

definition run_thunks :: "'t trigger \<Rightarrow> 't trigger" where
  "run_thunks g = g\<lparr>tg_ran := tg_ran g @ tg_thunks g, tg_thunks := [], tg_reading := False\<rparr>"

definition close_trigger :: "'t trigger \<Rightarrow> 't trigger" where
  "close_trigger g = (if tg_closed g then g else g\<lparr>tg_closed := True, tg_pipe := 0\<rparr>)"

inductive gstep :: "'t trigger \<Rightarrow> 't trigger \<Rightarrow> bool" where
  append: "gstep g (pull_append t g)"
| pull: "0 < tg_pulling g \<Longrightarrow> gstep g (snd (physical_pull g))"
| read: "0 < tg_pipe g \<Longrightarrow> \<not> tg_reading g \<Longrightarrow> gstep g (read_pipe fails g)"
| run: "tg_reading g \<Longrightarrow> gstep g (run_thunks g)"
| close: "\<not> tg_reading g \<Longrightarrow> gstep g (close_trigger g)"

inductive greach :: "'t trigger \<Rightarrow> bool" where
  init: "greach trigger_init"
| step: "greach g \<Longrightarrow> gstep g g' \<Longrightarrow> greach g'"

definition trigger_ok :: "'t trigger \<Rightarrow> bool" where
  "trigger_ok g \<longleftrightarrow> tg_pulled g = tg_ran g @ tg_thunks g
     \<and> (tg_thunks g \<noteq> [] \<longrightarrow> tg_closed g \<or> 0 < tg_pipe g \<or> 0 < tg_pulling g \<or> tg_reading g)"

lemma gstep_ok: "gstep g g' \<Longrightarrow> trigger_ok g \<Longrightarrow> trigger_ok g'"
  by (induction rule: gstep.induct)
    (auto simp: trigger_ok_def pull_append_def physical_pull_def read_pipe_def run_thunks_def close_trigger_def Let_def
      split: option.splits)

text \<open>
  However the threads that pull the trigger and the main thread interleave, the thunks are run in the order in
  which they were given, none twice; and one that was not run yet will wake the main thread: while the
  trigger is open there is a byte in the pipe, or a thread about to write one, or the main thread is about to
  run the thunks.
\<close>

theorem trigger_no_lost_thunk:
  assumes "greach g"
  shows "tg_pulled g = tg_ran g @ tg_thunks g
    \<and> (tg_thunks g \<noteq> [] \<longrightarrow> tg_closed g \<or> 0 < tg_pipe g \<or> 0 < tg_pulling g \<or> tg_reading g)"
proof -
  have "trigger_ok g"
    using assms
  proof induction
    case init
    show ?case by (simp add: trigger_ok_def trigger_init_def)
  qed (rule gstep_ok)
  then show ?thesis by (simp add: trigger_ok_def)
qed

lemma sample_trigger_reach: "greach (pull_append (Some (1 :: nat)) trigger_init)"
  by (rule greach.step [OF greach.init gstep.append])

theorem trigger_no_lost_thunk_witness:
  "tg_thunks (pull_append (Some (1 :: nat)) trigger_init) = [1]
    \<and> 0 < tg_pulling (pull_append (Some (1 :: nat)) trigger_init)"
  using trigger_no_lost_thunk [OF sample_trigger_reach] by (simp add: pull_append_def trigger_init_def)

end
