(* ===== verification/Asyncore.thy ===== *)
theory Asyncore
  imports Server
begin

text \<open>
  \<^verbatim>\<open>wasyncore.py\<close>, the classes under the loop: \<^verbatim>\<open>dispatcher\<close> with its event methods, which dispatch to the methods of
  the object, and its default methods. What an object overrides is a record of methods over its state. \<open>Server\<close> and \<open>Channel\<close> have these
  events written out for their objects; here it is shown that they are instances.
\<close>

section \<open>Errors\<close>

text \<open>
  The error numbers that the code names, and others. An exception of a handler is an \<^verbatim>\<open>OSError\<close>, one of
  \<^verbatim>\<open>_reraised_exceptions\<close>, or any other.
\<close>

datatype errno =
    EAGAIN | EBADF | ECONNABORTED | ECONNRESET | EINTR | ENOTCONN | EPIPE | ESHUTDOWN | EWOULDBLOCK
  | ENOENT | EADDRINUSE | Errno nat

definition disconnected :: "errno \<Rightarrow> bool" where
  "disconnected e \<longleftrightarrow> e \<in> set [ECONNRESET, ENOTCONN, ESHUTDOWN, ECONNABORTED, EPIPE, EBADF]"

datatype raised = OSErr errno | Exits string | Raised exn

definition is_exit :: "raised \<Rightarrow> bool" where
  "is_exit x \<longleftrightarrow> (case x of Exits n \<Rightarrow> True | _ \<Rightarrow> False)"

type_synonym 's handler = "'s \<Rightarrow> raised option \<times> 's"

definition seq :: "'s handler \<Rightarrow> 's handler \<Rightarrow> 's handler" where
  "seq f g s = (case f s of (None, s1) \<Rightarrow> g s1 | (Some x, s1) \<Rightarrow> (Some x, s1))"

definition skip_event :: "'s handler" where
  "skip_event s = (None, s)"

lemma seq_cases: "seq f g s = (x, s') \<Longrightarrow> (f s = (x, s') \<and> x \<noteq> None) \<or> (\<exists>s1. f s = (None, s1) \<and> g s1 = (x, s'))"
  by (auto simp: seq_def split: prod.splits option.splits)

section \<open>Events of an object\<close>

record 's methods =
  is_accepting :: "'s \<Rightarrow> bool"
  is_connected :: "'s \<Rightarrow> bool"
  is_connecting :: "'s \<Rightarrow> bool"
  has_socket :: "'s \<Rightarrow> bool"
  so_error :: "'s \<Rightarrow> raised + errno option"     \<comment> \<open>\<^verbatim>\<open>getsockopt(SOL_SOCKET, SO_ERROR)\<close>, \<^verbatim>\<open>None\<close> for 0\<close>
  now_connected :: "'s \<Rightarrow> 's"
  on_read :: "'s handler"
  on_write :: "'s handler"
  on_expt :: "'s handler"
  on_connect :: "'s handler"
  on_accept :: "'s handler"
  on_close :: "'s handler"
  on_error :: "'s handler"

definition handle_connect_event :: "'s methods \<Rightarrow> 's handler" where
  "handle_connect_event M s =
     (case so_error M s of
        Inl x \<Rightarrow> (Some x, s)
      | Inr (Some e) \<Rightarrow> (Some (OSErr e), s)
      | Inr None \<Rightarrow> seq (on_connect M) (\<lambda>s. (None, now_connected M s)) s)"

definition handle_read_event :: "'s methods \<Rightarrow> 's handler" where
  "handle_read_event M s =
     (if is_accepting M s then on_accept M s
      else if \<not> is_connected M s
      then seq (if is_connecting M s then handle_connect_event M else skip_event) (on_read M) s
      else on_read M s)"

definition handle_write_event :: "'s methods \<Rightarrow> 's handler" where
  "handle_write_event M s =
     (if is_accepting M s then (None, s)
      else seq (if \<not> is_connected M s \<and> is_connecting M s then handle_connect_event M else skip_event) (on_write M) s)"

definition handle_expt_event :: "'s methods \<Rightarrow> 's handler" where
  "handle_expt_event M s =
     (case (if has_socket M s then so_error M s else Inr (Some (Errno 1))) of
        Inl x \<Rightarrow> (Some x, s)
      | Inr (Some e) \<Rightarrow> on_close M s
      | Inr None \<Rightarrow> on_expt M s)"

text \<open>\<^verbatim>\<open>read\<close>, \<^verbatim>\<open>write\<close> and \<^verbatim>\<open>_exception\<close>: an exception becomes \<^verbatim>\<open>handle_error\<close>, but for those that end the program.\<close>

definition guarded :: "'s methods \<Rightarrow> 's handler \<Rightarrow> 's handler" where
  "guarded M h s =
     (case h s of
        (None, s1) \<Rightarrow> (None, s1)
      | (Some x, s1) \<Rightarrow> if is_exit x then (Some x, s1) else on_error M s1)"

definition asyncore_read :: "'s methods \<Rightarrow> 's handler" where
  "asyncore_read M = guarded M (handle_read_event M)"

definition asyncore_write :: "'s methods \<Rightarrow> 's handler" where
  "asyncore_write M = guarded M (handle_write_event M)"

definition asyncore_exception :: "'s methods \<Rightarrow> 's handler" where
  "asyncore_exception M = guarded M (handle_expt_event M)"

definition event_sequence :: "'s methods \<Rightarrow> flags \<Rightarrow> 's handler" where
  "event_sequence M f =
     seq (if pollin f then handle_read_event M else skip_event)
       (seq (if pollout f then handle_write_event M else skip_event)
         (seq (if pollpri f then handle_expt_event M else skip_event)
           (if pollhup f then on_close M else skip_event)))"

definition asyncore_readwrite :: "'s methods \<Rightarrow> flags \<Rightarrow> 's handler" where
  "asyncore_readwrite M f s =
     (case event_sequence M f s of
        (None, s1) \<Rightarrow> (None, s1)
      | (Some (OSErr e), s1) \<Rightarrow> if disconnected e then on_close M s1 else on_error M s1
      | (Some x, s1) \<Rightarrow> if is_exit x then (Some x, s1) else on_error M s1)"

section \<open>What the loop relies on\<close>

text \<open>Events that keep an invariant.\<close>

definition keeps :: "('s \<Rightarrow> bool) \<Rightarrow> 's handler \<Rightarrow> bool" where
  "keeps ok h \<longleftrightarrow> (\<forall>s. ok s \<longrightarrow> ok (snd (h s)))"

lemma keeps_seq: "keeps ok f \<Longrightarrow> keeps ok g \<Longrightarrow> keeps ok (seq f g)"
proof -
  assume "keeps ok f" "keeps ok g"
  moreover have "snd (seq f g s) = snd (f s) \<or> snd (seq f g s) = snd (g (snd (f s)))" for s
    by (cases "f s") (auto simp: seq_def split: option.split)
  ultimately show ?thesis by (metis keeps_def)
qed

lemma keeps_skip: "keeps ok skip_event"
  by (simp add: keeps_def skip_event_def)

text \<open>
  An object whose \<^verbatim>\<open>handle_close\<close> and \<^verbatim>\<open>handle_error\<close> return and leave it closed, in the states that
  its events keep it in.
\<close>

locale event_object =
  fixes M :: "'s methods" and ok :: "'s \<Rightarrow> bool" and closed :: "'s \<Rightarrow> bool"
  assumes close_closes: "ok s \<Longrightarrow> on_close M s = (x, s') \<Longrightarrow> x = None \<and> closed s' \<and> ok s'"
    and error_closes: "ok s \<Longrightarrow> on_error M s = (x, s') \<Longrightarrow> x = None \<and> closed s' \<and> ok s'"
    and events_ok: "ok s \<Longrightarrow> h \<in> {on_read M, on_write M, on_expt M, on_connect M, on_accept M} \<Longrightarrow> ok (snd (h s))"
    and connected_ok: "ok s \<Longrightarrow> ok (now_connected M s)"
begin

lemma keeps_methods: "keeps ok (on_read M)" "keeps ok (on_write M)" "keeps ok (on_expt M)" "keeps ok (on_connect M)"
  "keeps ok (on_accept M)" "keeps ok (on_close M)" "keeps ok (on_error M)"
proof -
  show "keeps ok (on_close M)" unfolding keeps_def by (metis close_closes prod.collapse)
  show "keeps ok (on_error M)" unfolding keeps_def by (metis error_closes prod.collapse)
qed (simp_all add: keeps_def events_ok)

lemma keeps_now: "keeps ok (\<lambda>s. (None, now_connected M s))"
  by (simp add: keeps_def connected_ok)

lemma keeps_connect: "keeps ok (handle_connect_event M)"
  using keeps_seq [OF keeps_methods(4) keeps_now]
  by (simp add: keeps_def handle_connect_event_def split: sum.split option.split)

lemma keeps_events: "keeps ok (handle_read_event M)" "keeps ok (handle_write_event M)" "keeps ok (handle_expt_event M)"
proof -
  have "keeps ok (seq (if b then handle_connect_event M else skip_event) (on_read M))" for b
    by (cases b) (simp_all add: keeps_seq keeps_connect keeps_skip keeps_methods)
  then show "keeps ok (handle_read_event M)"
    using keeps_methods(1,5) by (simp add: keeps_def handle_read_event_def)
  have "keeps ok (seq (if b then handle_connect_event M else skip_event) (on_write M))" for b
    by (cases b) (simp_all add: keeps_seq keeps_connect keeps_skip keeps_methods)
  then show "keeps ok (handle_write_event M)" by (simp add: keeps_def handle_write_event_def)
  show "keeps ok (handle_expt_event M)"
    using keeps_methods(3,6) by (simp add: keeps_def handle_expt_event_def split: sum.split option.split)
qed

lemma keeps_sequence: "keeps ok (event_sequence M f)"
  unfolding event_sequence_def by (intro keeps_seq) (simp_all add: keeps_events keeps_skip keeps_methods)

text \<open>No exception gets out of an event but those that end the program; any other leaves the object closed.\<close>

lemma guarded_contained:
  assumes "ok s" "keeps ok h" "guarded M h s = (x, s')"
  shows "ok s' \<and> (case x of
      None \<Rightarrow> h s = (None, s') \<or> (\<exists>y s1. h s = (Some y, s1) \<and> \<not> is_exit y \<and> closed s')
    | Some y \<Rightarrow> is_exit y \<and> h s = (Some y, s'))"
proof -
  obtain y s1 where h: "h s = (y, s1)" by fastforce
  then have "ok s1" using assms(1,2) by (metis keeps_def snd_conv)
  with assms(3) h error_closes [of s1 x s'] show ?thesis by (auto simp: guarded_def split: option.splits if_splits)
qed

lemma readwrite_contained:
  assumes "ok s" "asyncore_readwrite M f s = (x, s')"
  shows "ok s' \<and> (case x of
      None \<Rightarrow> event_sequence M f s = (None, s') \<or> (\<exists>y s1. event_sequence M f s = (Some y, s1) \<and> \<not> is_exit y \<and> closed s')
    | Some y \<Rightarrow> is_exit y \<and> event_sequence M f s = (Some y, s'))"
proof -
  obtain y s1 where h: "event_sequence M f s = (y, s1)" by fastforce
  then have "ok s1" using assms(1) keeps_sequence by (metis keeps_def snd_conv)
  with assms(2) h error_closes [of s1 x s'] close_closes [of s1 x s'] show ?thesis
    by (auto simp: asyncore_readwrite_def is_exit_def split: option.splits raised.splits if_splits)
qed

lemmas contained = guarded_contained [OF _ keeps_events(1), folded asyncore_read_def]
  guarded_contained [OF _ keeps_events(2), folded asyncore_write_def]
  guarded_contained [OF _ keeps_events(3), folded asyncore_exception_def]

text \<open>An error condition, or a socket that is gone, closes the object.\<close>

lemma expt_error_closes:
  assumes "ok s" "asyncore_exception M s = (x, s')"
    and "\<not> has_socket M s \<or> (\<exists>e. so_error M s = Inr (Some e))"
  shows "x = None \<and> closed s'"
proof -
  have "handle_expt_event M s = on_close M s" using assms(3) by (auto simp: handle_expt_event_def)
  moreover obtain y s1 where c: "on_close M s = (y, s1)" by fastforce
  ultimately show ?thesis
    using assms(2) close_closes [OF assms(1) c] by (simp add: asyncore_exception_def guarded_def)
qed

end

section \<open>The class dispatcher\<close>

text \<open>
  The state of a \<^verbatim>\<open>dispatcher\<close>. The socket is of any kind \<open>'k\<close>, with the methods that the class uses; the
  map is shared, \<open>dp_id\<close> is the object in it. \<open>dp_log\<close> holds the messages.
\<close>

datatype level = DEBUG | INFO | WARN | ERROR

datatype address = Inet string int | Opaque string    \<comment> \<open>any other, by its \<^verbatim>\<open>repr\<close>\<close>

record ('k, 'i) disp =
  dp_class :: string
  dp_id :: 'i
  dp_number :: nat          \<comment> \<open>\<^verbatim>\<open>id(self)\<close>, for messages\<close>
  dp_connected :: bool
  dp_accepting :: bool
  dp_connecting :: bool
  dp_addr :: "address option"
  dp_fileno :: "nat option"
  dp_socket :: "'k option"
  dp_map :: "(nat \<times> 'i) list"
  dp_log :: "(level \<times> string) list"

record 'k socket_methods =
  k_fileno :: "'k \<Rightarrow> nat"
  k_error :: "'k \<Rightarrow> raised + errno option"
  k_close :: "'k \<Rightarrow> errno option"

definition add_channel :: "('k, 'i) disp \<Rightarrow> ('k, 'i) disp" where
  "add_channel d =
     (case dp_fileno d of
        None \<Rightarrow> d    \<comment> \<open>not called before \<^verbatim>\<open>set_socket\<close>\<close>
      | Some fd \<Rightarrow> d\<lparr>dp_map := AList.update fd (dp_id d) (dp_map d)\<rparr>)"

definition del_channel :: "('k, 'i) disp \<Rightarrow> ('k, 'i) disp" where
  "del_channel d =
     (case dp_fileno d of None \<Rightarrow> d | Some fd \<Rightarrow> d\<lparr>dp_map := AList.delete fd (dp_map d), dp_fileno := None\<rparr>)"

definition set_socket :: "'k socket_methods \<Rightarrow> 'k \<Rightarrow> ('k, 'i) disp \<Rightarrow> ('k, 'i) disp" where
  "set_socket K sock d = add_channel (d\<lparr>dp_socket := Some sock, dp_fileno := Some (k_fileno K sock)\<rparr>)"

text \<open>\<^verbatim>\<open>__init__\<close>, with a socket that was made non-blocking already or with none.\<close>

definition disp_init :: "'k socket_methods \<Rightarrow> string \<Rightarrow> 'i \<Rightarrow> nat \<Rightarrow> (nat \<times> 'i) list \<Rightarrow> 'k option \<Rightarrow> ('k, 'i) disp" where
  "disp_init K cls i no m sock =
     (let d = \<lparr>dp_class = cls, dp_id = i, dp_number = no, dp_connected = False, dp_accepting = False, dp_connecting = False,
               dp_addr = None, dp_fileno = None, dp_socket = None, dp_map = m, dp_log = []\<rparr>
      in case sock of None \<Rightarrow> d | Some k \<Rightarrow> set_socket K k d)"

definition disp_close :: "'k socket_methods \<Rightarrow> ('k, 'i) disp handler" where
  "disp_close K d0 =
     (let d = del_channel (d0\<lparr>dp_connected := False, dp_accepting := False, dp_connecting := False\<rparr>)
      in case dp_socket d of
           None \<Rightarrow> (None, d)
         | Some k \<Rightarrow>
             (case k_close K k of
                None \<Rightarrow> (None, d\<lparr>dp_socket := None\<rparr>)
              | Some e \<Rightarrow>
                  if e \<in> set [ENOTCONN, EBADF] then (None, d\<lparr>dp_socket := None\<rparr>) else (Some (OSErr e), d)))"

subsection \<open>Messages\<close>

definition log_debug :: "string \<Rightarrow> ('k, 'i) disp \<Rightarrow> ('k, 'i) disp" where
  "log_debug message d = d\<lparr>dp_log := dp_log d @ [(DEBUG, message)]\<rparr>"

definition severity :: "string \<Rightarrow> level" where
  "severity type = (case map_of [(''info'', INFO), (''warning'', WARN), (''error'', ERROR)] type of None \<Rightarrow> INFO | Some l \<Rightarrow> l)"

definition log_info :: "string \<Rightarrow> string \<Rightarrow> ('k, 'i) disp \<Rightarrow> ('k, 'i) disp" where
  "log_info message type d = d\<lparr>dp_log := dp_log d @ [(severity type, message)]\<rparr>"

text \<open>The levels in the order of their numbers in \<^verbatim>\<open>logging\<close>, and what a logger with a threshold lets through.\<close>

primrec level_number :: "level \<Rightarrow> nat" where
  "level_number DEBUG = 10"
| "level_number INFO = 20"
| "level_number WARN = 30"
| "level_number ERROR = 40"

instantiation level :: linorder
begin

definition less_eq_level :: "level \<Rightarrow> level \<Rightarrow> bool" where
  "less_eq_level a b \<longleftrightarrow> level_number a \<le> level_number b"

definition less_level :: "level \<Rightarrow> level \<Rightarrow> bool" where
  "less_level a b \<longleftrightarrow> level_number a < level_number b"

instance
proof
  fix a b :: level
  show "a \<le> b \<Longrightarrow> b \<le> a \<Longrightarrow> a = b" by (cases a; cases b) (simp_all add: less_eq_level_def)
qed (auto simp: less_eq_level_def less_level_def)

end

definition emitted :: "level \<Rightarrow> ('k, 'i) disp \<Rightarrow> string list" where
  "emitted threshold d = map snd (filter (\<lambda>(l, m). threshold \<le> l) (dp_log d))"

text \<open>\<^verbatim>\<open>compact_traceback\<close> of the frames (file, function, line) of the exception, the outermost first.\<close>

definition traceback_entry :: "string \<times> string \<times> nat \<Rightarrow> string" where
  "traceback_entry x = (case x of (file, function, line) \<Rightarrow> ''['' @ file @ ''|'' @ function @ ''|'' @ str_of_nat line @ '']'')"

fun join_blank :: "string list \<Rightarrow> string" where
  "join_blank [] = []"
| "join_blank [x] = x"
| "join_blank (x # xs) = x @ '' '' @ join_blank xs"

definition compact_traceback ::
  "(string \<times> string \<times> nat) list \<Rightarrow> exn + (string \<times> string \<times> string) \<times> string" where
  "compact_traceback frames =
     (if frames = [] then Inl (AssertionError ''traceback does not exist'')
      else case last frames of
             (file, function, line) \<Rightarrow> Inr ((file, function, str_of_nat line), join_blank (map traceback_entry frames)))"

definition address_text :: "address \<Rightarrow> string" where
  "address_text a = (case a of Inet host port \<Rightarrow> host @ '':'' @ str_of_int port | Opaque r \<Rightarrow> r)"

definition disp_repr :: "('k, 'i) disp \<Rightarrow> string" where
  "disp_repr d =
     (let state = (if dp_accepting d \<and> dp_addr d \<noteq> None then [''listening'']
                   else if dp_connected d then [''connected''] else []);
          addr = (case dp_addr d of None \<Rightarrow> [] | Some a \<Rightarrow> [address_text a])
      in ''<'' @ join_blank (dp_class d # state @ addr) @ '' at 0x'' @ to_base 16 (dp_number d) @ ''>'')"

subsection \<open>The default methods\<close>

text \<open>\<^verbatim>\<open>accept\<close>: what \<^verbatim>\<open>socket.accept()\<close> answers; a \<^verbatim>\<open>TypeError\<close> counts as no connection.\<close>

datatype 'k accept_result = AcceptConn 'k address | AcceptTypeError | AcceptErr errno

definition disp_accept :: "'k accept_result \<Rightarrow> raised + ('k \<times> address) option" where
  "disp_accept r =
     (case r of
        AcceptConn k a \<Rightarrow> Inr (Some (k, a))
      | AcceptTypeError \<Rightarrow> Inr None
      | AcceptErr e \<Rightarrow> if e \<in> set [EWOULDBLOCK, ECONNABORTED, EAGAIN] then Inr None else Inl (OSErr e))"

definition disp_handle_accepted :: "'k socket_methods \<Rightarrow> 'k \<times> address \<Rightarrow> ('k, 'i) disp handler" where
  "disp_handle_accepted K pair d =
     (case k_close K (fst pair) of
        Some e \<Rightarrow> (Some (OSErr e), d)
      | None \<Rightarrow> (None, log_info ''unhandled accepted event'' ''warning'' d))"

definition disp_handle_accept :: "'k socket_methods \<Rightarrow> 'k accept_result \<Rightarrow> ('k, 'i) disp handler" where
  "disp_handle_accept K r d =
     (case disp_accept r of
        Inl x \<Rightarrow> (Some x, d)
      | Inr None \<Rightarrow> (None, d)
      | Inr (Some pair) \<Rightarrow> disp_handle_accepted K pair d)"

definition disp_handle_close :: "'k socket_methods \<Rightarrow> ('k, 'i) disp handler" where
  "disp_handle_close K d = disp_close K (log_info ''unhandled close event'' ''warning'' d)"

text \<open>
  \<^verbatim>\<open>handle_error\<close>, with the exception that is handled: the frames of its traceback, which has an innermost one,
  its class and its value.
\<close>

record failure =
  fl_outer :: "(string \<times> string \<times> nat) list"
  fl_frame :: "string \<times> string \<times> nat"
  fl_type :: string
  fl_value :: string

definition error_message :: "failure \<Rightarrow> ('k, 'i) disp \<Rightarrow> exn + string" where
  "error_message f d =
     (case compact_traceback (fl_outer f @ [fl_frame f]) of
        Inl e \<Rightarrow> Inl e
      | Inr (nil, tbinfo) \<Rightarrow>
          Inr (''uncaptured python exception, closing channel '' @ disp_repr d @ '' ('' @ fl_type f @ '':'' @ fl_value f
            @ '' '' @ tbinfo @ '')''))"

definition disp_handle_error :: "('k, 'i) disp handler \<Rightarrow> failure \<Rightarrow> ('k, 'i) disp handler" where
  "disp_handle_error close f d =
     (case error_message f d of
        Inl e \<Rightarrow> (Some (Raised e), d)
      | Inr message \<Rightarrow> close (log_info message ''error'' d))"

definition disp_methods :: "'k socket_methods \<Rightarrow> 'k accept_result \<Rightarrow> failure \<Rightarrow> ('k, 'i) disp methods" where
  "disp_methods K r f =
     \<lparr>is_accepting = dp_accepting, is_connected = dp_connected, is_connecting = dp_connecting,
      has_socket = (\<lambda>d. dp_socket d \<noteq> None),
      so_error = (\<lambda>d. case dp_socket d of None \<Rightarrow> Inl (Raised (AppError ''AttributeError'')) | Some k \<Rightarrow> k_error K k),
      now_connected = (\<lambda>d. d\<lparr>dp_connected := True, dp_connecting := False\<rparr>),
      on_read = (\<lambda>d. (None, log_info ''unhandled read event'' ''warning'' d)),
      on_write = (\<lambda>d. (None, log_info ''unhandled write event'' ''warning'' d)),
      on_expt = (\<lambda>d. (None, log_info ''unhandled incoming priority event'' ''warning'' d)),
      on_connect = (\<lambda>d. (None, log_info ''unhandled connect event'' ''warning'' d)),
      on_accept = disp_handle_accept K r,
      on_close = disp_handle_close K,
      on_error = disp_handle_error (disp_handle_close K) f\<rparr>"

subsection \<open>Registration\<close>

text \<open>An object is in the map at most once, under its file number.\<close>

definition registered_ok :: "('k, 'i) disp \<Rightarrow> bool" where
  "registered_ok d \<longleftrightarrow> distinct (map fst (dp_map d))
     \<and> (\<forall>fd. (fd, dp_id d) \<in> set (dp_map d) \<longrightarrow> dp_fileno d = Some fd)"

text \<open>The socket can be closed without an error that \<^verbatim>\<open>close\<close> passes on.\<close>

definition closable :: "'k socket_methods \<Rightarrow> ('k, 'i) disp \<Rightarrow> bool" where
  "closable K d \<longleftrightarrow> (case dp_socket d of None \<Rightarrow> True
     | Some k \<Rightarrow> (case k_close K k of None \<Rightarrow> True | Some e \<Rightarrow> e = ENOTCONN \<or> e = EBADF))"

definition disp_ok :: "'k socket_methods \<Rightarrow> ('k, 'i) disp \<Rightarrow> bool" where
  "disp_ok K d \<longleftrightarrow> registered_ok d \<and> closable K d"

definition disp_closed :: "('k, 'i) disp \<Rightarrow> bool" where
  "disp_closed d \<longleftrightarrow> dp_socket d = None \<and> dp_fileno d = None \<and> \<not> dp_connected d \<and> \<not> dp_accepting d \<and> \<not> dp_connecting d
     \<and> dp_id d \<notin> snd ` set (dp_map d)"

lemma disp_ok_log [simp]: "disp_ok K (log_info m t d) = disp_ok K d"
  by (simp add: disp_ok_def registered_ok_def closable_def log_info_def)

lemma del_channel_registered:
  assumes "registered_ok d"
  shows "registered_ok (del_channel d) \<and> dp_id d \<notin> snd ` set (dp_map (del_channel d)) \<and> dp_fileno (del_channel d) = None"
  using assms
  by (auto simp: registered_ok_def del_channel_def AList.delete_eq distinct_map_filter split: option.splits)

lemma disp_close_closes:
  assumes "disp_ok K d" "disp_close K d = (x, d')"
  shows "x = None \<and> disp_closed d' \<and> disp_ok K d'"
proof -
  let ?d = "d\<lparr>dp_connected := False, dp_accepting := False, dp_connecting := False\<rparr>"
  have r: "registered_ok ?d" using assms(1) by (simp add: disp_ok_def registered_ok_def)
  have f: "dp_socket (del_channel ?d) = dp_socket d" "dp_id (del_channel ?d) = dp_id d"
    "\<not> dp_connected (del_channel ?d)" "\<not> dp_accepting (del_channel ?d)" "\<not> dp_connecting (del_channel ?d)"
    by (simp_all add: del_channel_def split: option.split)
  show ?thesis
    using assms del_channel_registered [OF r] f
    by (auto simp: disp_close_def Let_def disp_ok_def disp_closed_def closable_def registered_ok_def split: option.splits if_splits)
qed

lemma disp_handle_close_closes:
  "disp_ok K d \<Longrightarrow> disp_handle_close K d = (x, d') \<Longrightarrow> x = None \<and> disp_closed d' \<and> disp_ok K d'"
  using disp_close_closes [of K "log_info m t d" for m t] by (simp add: disp_handle_close_def)

lemma add_channel_registered:
  assumes "distinct (map fst (dp_map d))" "dp_id d \<notin> snd ` set (dp_map d)"
  shows "registered_ok (add_channel d)"
proof (cases "dp_fileno d")
  case (Some fd)
  have "x = fd" if "(x, dp_id d) \<in> set (AList.update fd (dp_id d) (dp_map d))" for x
    using set_update_keys [OF that] assms(2) by force
  with Some assms show ?thesis by (auto simp: registered_ok_def add_channel_def distinct_update)
qed (use assms in \<open>force simp: registered_ok_def add_channel_def\<close>)

lemma error_message_made: "\<exists>message. error_message f d = Inr message"
  by (simp add: error_message_def compact_traceback_def split: prod.split)

lemma disp_handle_error_closes:
  assumes "disp_ok K d" "disp_handle_error (disp_handle_close K) f d = (x, d')"
  shows "x = None \<and> disp_closed d' \<and> disp_ok K d'"
proof -
  obtain message where "error_message f d = Inr message" using error_message_made by blast
  with assms disp_handle_close_closes [of K "log_info message ''error'' d" x d'] show ?thesis
    by (simp add: disp_handle_error_def)
qed

text \<open>An error is never handled in silence: its message passes any threshold up to that of errors.\<close>

theorem error_message_emitted:
  assumes "threshold \<le> ERROR"
  shows "\<exists>message. error_message f d = Inr message
    \<and> message \<in> set (emitted threshold (snd (disp_handle_error (disp_handle_close K) f d)))"
proof -
  obtain message where m: "error_message f d = Inr message" using error_message_made by blast
  have log: "dp_log (snd (disp_close K d')) = dp_log d'" for d' :: "('a, 'b) disp"
    by (auto simp: disp_close_def Let_def del_channel_def split: option.split)
  have "(ERROR, message) \<in> set (dp_log (snd (disp_handle_error (disp_handle_close K) f d)))"
    by (simp add: disp_handle_error_def m disp_handle_close_def log log_info_def severity_def)
  with assms have "message \<in> set (emitted threshold (snd (disp_handle_error (disp_handle_close K) f d)))"
    by (force simp: emitted_def)
  with m show ?thesis by blast
qed

lemma disp_accept_ok: "disp_ok K d \<Longrightarrow> disp_ok K (snd (disp_handle_accept K r d))"
  by (simp add: disp_handle_accept_def disp_handle_accepted_def split: sum.split option.split)

lemma disp_ok_connected: "disp_ok K d \<Longrightarrow> disp_ok K (d\<lparr>dp_connected := True, dp_connecting := False\<rparr>)"
  by (simp add: disp_ok_def registered_ok_def closable_def)

interpretation disp_events: event_object "disp_methods K r f" "disp_ok K" disp_closed for K :: "'k socket_methods" and r f
proof
  fix d d' :: "('k, 'i) disp" and x and h :: "('k, 'i) disp handler"
  assume ok: "disp_ok K d"
  show "on_close (disp_methods K r f) d = (x, d') \<Longrightarrow> x = None \<and> disp_closed d' \<and> disp_ok K d'"
    using disp_handle_close_closes [OF ok] by (simp add: disp_methods_def)
  show "on_error (disp_methods K r f) d = (x, d') \<Longrightarrow> x = None \<and> disp_closed d' \<and> disp_ok K d'"
    using disp_handle_error_closes [OF ok] by (simp add: disp_methods_def)
  show "disp_ok K (now_connected (disp_methods K r f) d)"
    using disp_ok_connected [OF ok] by (simp add: disp_methods_def)
  show "h \<in> {on_read (disp_methods K r f), on_write (disp_methods K r f), on_expt (disp_methods K r f),
      on_connect (disp_methods K r f), on_accept (disp_methods K r f)} \<Longrightarrow> disp_ok K (snd (h d))"
    using ok disp_accept_ok [OF ok] by (auto simp: disp_methods_def)
qed

text \<open>
  The class \<^verbatim>\<open>dispatcher\<close> under the loop. Whatever happens in an event of an object with the default methods, no exception
  leaves it; if the event raised one, or if the socket reports an error, the object is closed afterwards: it has no
  socket and no file number, and is not in the map.
\<close>

theorem dispatcher_event_contained:
  assumes "disp_ok K d" "asyncore_readwrite (disp_methods K r f) flags d = (x, d')"
  shows "disp_ok K d' \<and> (x = None \<longrightarrow> event_sequence (disp_methods K r f) flags d = (None, d') \<or> disp_closed d')
    \<and> (\<forall>y. x = Some y \<longrightarrow> is_exit y)"
  using disp_events.readwrite_contained [OF assms] by (auto split: option.splits)

section \<open>Sending and receiving\<close>

definition asyncore_send :: "'s methods \<Rightarrow> bool \<Rightarrow> errno + nat \<Rightarrow> 's \<Rightarrow> (raised + nat) \<times> 's" where
  "asyncore_send M do_close r s =
     (case r of
        Inr n \<Rightarrow> (Inr n, s)
      | Inl e \<Rightarrow>
          if e = EWOULDBLOCK then (Inr 0, s)
          else if disconnected e
          then if do_close
               then (case on_close M s of (None, s1) \<Rightarrow> (Inr 0, s1) | (Some x, s1) \<Rightarrow> (Inl x, s1))
               else (Inr 0, s)
          else (Inl (OSErr e), s))"

text \<open>The call of \<^verbatim>\<open>handle_close\<close> for an empty answer is inside the \<^verbatim>\<open>try\<close>.\<close>

definition asyncore_recv :: "'s methods \<Rightarrow> errno + bytes \<Rightarrow> 's \<Rightarrow> (raised + bytes) \<times> 's" where
  "asyncore_recv M r s =
     (case (case r of Inl e \<Rightarrow> (Some (OSErr e), s) | Inr data \<Rightarrow> if data = [] then on_close M s else (None, s)) of
        (None, s1) \<Rightarrow> (Inr (case r of Inl e \<Rightarrow> [] | Inr data \<Rightarrow> data), s1)
      | (Some (OSErr e), s1) \<Rightarrow>
          if disconnected e
          then (case on_close M s1 of (None, s2) \<Rightarrow> (Inr [], s2) | (Some x, s2) \<Rightarrow> (Inl x, s2))
          else (Inl (OSErr e), s1)
      | (Some x, s1) \<Rightarrow> (Inl x, s1))"

section \<open>close_all\<close>

text \<open>The objects of the map, by their \<^verbatim>\<open>close\<close>; the map is only cleared when the loop comes to its end.\<close>

fun close_objects :: "bool \<Rightarrow> 's handler list \<Rightarrow> 's handler" where
  "close_objects ignore_all [] s = (None, s)"
| "close_objects ignore_all (c # cs) s =
     (case c s of
        (None, s1) \<Rightarrow> close_objects ignore_all cs s1
      | (Some x, s1) \<Rightarrow>
          if x = OSErr EBADF \<or> (\<not> is_exit x \<and> ignore_all) then close_objects ignore_all cs s1 else (Some x, s1))"

definition close_all_map :: "bool \<Rightarrow> 's handler list \<Rightarrow> ('s \<Rightarrow> 's) \<Rightarrow> 's handler" where
  "close_all_map ignore_all cs clear = seq (close_objects ignore_all cs) (\<lambda>s. (None, clear s))"

lemma close_objects_append:
  "close_objects ig (cs @ ds) s =
     (case close_objects ig cs s of (None, s1) \<Rightarrow> close_objects ig ds s1 | (Some x, s1) \<Rightarrow> (Some x, s1))"
  by (induction cs arbitrary: s) (auto split: prod.split option.split)

text \<open>With \<^verbatim>\<open>ignore_all\<close> every object is closed and the map is cleared, unless an exception ends the program.\<close>

theorem close_all_ignoring:
  assumes "\<forall>c \<in> set cs. \<forall>s x. fst (c s) = Some x \<longrightarrow> \<not> is_exit x"
  shows "close_all_map True cs clear s = (None, clear (fold (\<lambda>c. snd \<circ> c) cs s))"
proof -
  have "close_objects True cs s = (None, fold (\<lambda>c. snd \<circ> c) cs s)"
    using assms
  proof (induction cs arbitrary: s)
    case (Cons c cs)
    obtain x s1 where c: "c s = (x, s1)" by fastforce
    with Cons.prems have "\<And>y. x = Some y \<Longrightarrow> \<not> is_exit y" by (metis fst_conv list.set_intros(1))
    with c Cons show ?case by (cases x) simp_all
  qed simp
  then show ?thesis by (simp add: close_all_map_def seq_def)
qed

text \<open>Without it the first other error leaves the remaining objects open, and all of them in the map.\<close>

theorem close_all_stops:
  assumes "close_objects False cs s = (None, s1)" "c s1 = (Some x, s2)" "x \<noteq> OSErr EBADF"
  shows "close_all_map False (cs @ c # ds) clear s = (Some x, s2)"
  using assms by (simp add: close_all_map_def seq_def close_objects_append)

section \<open>Files\<close>

text \<open>
  \<^verbatim>\<open>file_wrapper\<close>: a duplicated descriptor that looks like a socket. \<open>fw_closed\<close> lists the descriptors that were
  given to \<^verbatim>\<open>os.close\<close>, \<open>fw_warnings\<close> counts the warnings of an unclosed file. The numbers are those of Linux.
\<close>

record file_wrapper =
  fw_fd :: int
  fw_closed :: "int list"
  fw_warnings :: nat

definition fw_init :: "int \<Rightarrow> file_wrapper" where
  "fw_init dup_fd = \<lparr>fw_fd = dup_fd, fw_closed = [], fw_warnings = 0\<rparr>"

definition fw_close :: "file_wrapper \<Rightarrow> file_wrapper" where
  "fw_close w = (if fw_fd w < 0 then w else w\<lparr>fw_fd := -1, fw_closed := fw_closed w @ [fw_fd w]\<rparr>)"

definition fw_del :: "file_wrapper \<Rightarrow> file_wrapper" where
  "fw_del w = fw_close (if 0 \<le> fw_fd w then w\<lparr>fw_warnings := fw_warnings w + 1\<rparr> else w)"

text \<open>\<^verbatim>\<open>recv\<close> and \<^verbatim>\<open>send\<close> are \<^verbatim>\<open>os.read\<close> and \<^verbatim>\<open>os.write\<close> on the descriptor, the arguments here.\<close>

definition fw_recv :: "(int \<Rightarrow> int \<Rightarrow> errno + bytes) \<Rightarrow> int \<Rightarrow> file_wrapper \<Rightarrow> errno + bytes" where
  "fw_recv os_read n w = os_read (fw_fd w) n"

definition fw_send :: "(int \<Rightarrow> bytes \<Rightarrow> errno + nat) \<Rightarrow> bytes \<Rightarrow> file_wrapper \<Rightarrow> errno + nat" where
  "fw_send os_write data w = os_write (fw_fd w) data"

definition SOL_SOCKET :: int where
  "SOL_SOCKET = 1"

definition SO_ERROR :: int where
  "SO_ERROR = 4"

definition fw_getsockopt :: "int \<Rightarrow> int \<Rightarrow> int option \<Rightarrow> file_wrapper \<Rightarrow> exn + int" where
  "fw_getsockopt level optname buflen w =
     (if level = SOL_SOCKET \<and> optname = SO_ERROR \<and> (buflen = None \<or> buflen = Some 0) then Inr 0
      else Inl NotImplementedError)"

definition file_methods :: "file_wrapper socket_methods" where
  "file_methods = \<lparr>k_fileno = (\<lambda>w. nat (fw_fd w)),
     k_error = (\<lambda>w. case fw_getsockopt SOL_SOCKET SO_ERROR None w of Inl e \<Rightarrow> Inl (Raised e)
                  | Inr n \<Rightarrow> if n = 0 then Inr None else Inr (Some (Errno (nat n)))),
     k_close = (\<lambda>w. None)\<rparr>"

text \<open>\<^verbatim>\<open>file_dispatcher\<close>: the file is wrapped and made non-blocking; \<open>dup_fd\<close> is what \<^verbatim>\<open>os.dup\<close> returns.\<close>

definition set_file :: "int \<Rightarrow> (file_wrapper, 'i) disp \<Rightarrow> (file_wrapper, 'i) disp" where
  "set_file dup_fd d = set_socket file_methods (fw_init dup_fd) d"

definition file_dispatcher_init :: "string \<Rightarrow> 'i \<Rightarrow> nat \<Rightarrow> (nat \<times> 'i) list \<Rightarrow> int \<Rightarrow> (file_wrapper, 'i) disp" where
  "file_dispatcher_init cls i no m dup_fd =
     set_file dup_fd ((disp_init file_methods cls i no m None)\<lparr>dp_connected := True\<rparr>)"

lemma fw_gone: "fw_fd w < 0 \<Longrightarrow> fold (\<lambda>drop. if drop then fw_del else fw_close) ops w = w"
  by (induction ops) (simp_all add: fw_close_def fw_del_def)

text \<open>Its descriptor is closed once, however often it is closed or dropped; and a warning tells of a drop without a close.\<close>

theorem file_wrapper_closed_once:
  assumes "0 \<le> fd"
  shows "let w = fold (\<lambda>drop. if drop then fw_del else fw_close) ops (fw_init fd)
    in fw_closed w = (if ops = [] then [] else [fd]) \<and> fw_warnings w = (if ops \<noteq> [] \<and> hd ops then 1 else 0)"
proof (cases ops)
  case (Cons b bs)
  let ?w = "(if b then fw_del else fw_close) (fw_init fd)"
  have "fw_fd ?w < 0" "fw_closed ?w = [fd]" "fw_warnings ?w = (if b then 1 else 0)"
    using assms by (simp_all add: fw_init_def fw_close_def fw_del_def)
  with fw_gone [of ?w bs] show ?thesis by (simp add: Cons)
qed (simp add: fw_init_def)

text \<open>A new file dispatcher is registered under the descriptor of its wrapper, and reports no error condition.\<close>

theorem file_dispatcher_registered:
  assumes "0 \<le> dup_fd" "distinct (map fst m)" "i \<notin> snd ` set m"
  shows "let d = file_dispatcher_init cls i no m dup_fd
    in disp_ok file_methods d \<and> map_of (dp_map d) (nat dup_fd) = Some i
      \<and> (\<forall>r f. handle_expt_event (disp_methods file_methods r f) d
            = (None, log_info ''unhandled incoming priority event'' ''warning'' d))"
proof -
  let ?d = "file_dispatcher_init cls i no m dup_fd"
  have "registered_ok ?d"
    unfolding file_dispatcher_init_def set_file_def set_socket_def
    by (rule add_channel_registered) (use assms in \<open>simp_all add: disp_init_def\<close>)
  then have "disp_ok file_methods ?d"
    by (simp add: disp_ok_def closable_def file_methods_def split: option.split)
  then show ?thesis
    by (simp add: Let_def handle_expt_event_def disp_methods_def file_dispatcher_init_def set_file_def set_socket_def
        disp_init_def add_channel_def update_conv' file_methods_def fw_init_def fw_getsockopt_def)
qed

end
