(* ===== verification/Trigger_Sockets.thy ===== *)
theory Trigger_Sockets
  imports Asyncore
begin

text \<open>
  The descriptors of \<^verbatim>\<open>trigger.py\<close>: the constructor and \<^verbatim>\<open>_close\<close> of the trigger over a pipe, and those of the
  variant for Windows, where two sockets are connected over the loopback interface. What is done with a trigger
  that was made is in \<open>Pipe_Trigger\<close>.
\<close>

section \<open>A pipe\<close>

text \<open>
  \<open>pt_fds\<close> is \<^verbatim>\<open>_fds\<close>; \<open>pt_gone\<close> lists what was given to \<^verbatim>\<open>os.close\<close>. The pipe is \<open>r\<close> and \<open>w\<close>, and \<open>dup\<close> is
  what \<^verbatim>\<open>os.dup(r)\<close> returns.
\<close>

record 'i pipe_trigger =
  pt_disp :: "(file_wrapper, 'i) disp"
  pt_fds :: "int list"
  pt_closed :: bool
  pt_gone :: "int list"

definition pipe_trigger_init :: "'i \<Rightarrow> nat \<Rightarrow> (nat \<times> 'i) list \<Rightarrow> int \<Rightarrow> int \<Rightarrow> int \<Rightarrow> 'i pipe_trigger" where
  "pipe_trigger_init i no m r w dup =
     \<lparr>pt_disp = file_dispatcher_init ''waitress.trigger.trigger'' i no m dup, pt_fds = [r, w], pt_closed = False, pt_gone = []\<rparr>"

text \<open>\<^verbatim>\<open>_close\<close>: the pipe, and then the copy, in \<^verbatim>\<open>file_dispatcher.close\<close>.\<close>

definition pipe_trigger_os_close :: "'i pipe_trigger \<Rightarrow> 'i pipe_trigger" where
  "pipe_trigger_os_close t =
     (let copy = (case dp_socket (pt_disp t) of None \<Rightarrow> [] | Some k \<Rightarrow> fw_closed (fw_close k))
      in t\<lparr>pt_fds := [], pt_gone := pt_gone t @ pt_fds t @ copy, pt_disp := snd (disp_close file_methods (pt_disp t))\<rparr>)"

definition pipe_trigger_close :: "'i pipe_trigger \<Rightarrow> 'i pipe_trigger" where
  "pipe_trigger_close t =
     (if pt_closed t then t
      else pipe_trigger_os_close (t\<lparr>pt_closed := True, pt_disp := del_channel (pt_disp t)\<rparr>))"

lemma pipe_trigger_closed: "pt_closed t \<Longrightarrow> (pipe_trigger_close ^^ n) t = t"
  by (induction n) (simp_all add: pipe_trigger_close_def)

text \<open>
  A trigger over a pipe gives back what it took. However often it is closed, each of its three descriptors is
  closed once, and it is in the map under its own copy until then and not afterwards.
\<close>

theorem pipe_trigger_closed_once:
  assumes "0 \<le> dup" "distinct (map fst m)" "i \<notin> snd ` set m"
  shows "let t = pipe_trigger_init i no m r w dup; t' = (pipe_trigger_close ^^ n) t
    in map_of (dp_map (pt_disp t)) (nat dup) = Some i
      \<and> (if n = 0 then pt_gone t' = [] else pt_gone t' = [r, w, dup] \<and> pt_fds t' = [] \<and> disp_closed (pt_disp t'))"
proof -
  let ?t = "pipe_trigger_init i no m r w dup"
  let ?d = "file_dispatcher_init ''waitress.trigger.trigger'' i no m dup"
  note made = file_dispatcher_registered [OF assms, unfolded Let_def, of "''waitress.trigger.trigger''" no]
  have ok: "disp_ok file_methods (del_channel ?d)"
    using made del_channel_registered [of ?d]
    by (auto simp: disp_ok_def closable_def file_methods_def del_channel_def split: option.split)
  have sock: "dp_socket (del_channel ?d) = Some (fw_init dup)"
    by (simp add: del_channel_def file_dispatcher_init_def set_file_def set_socket_def add_channel_def disp_init_def)
  have cl: "disp_closed (snd (disp_close file_methods (del_channel ?d)))"
    using disp_close_closes [OF ok] by (metis prod.collapse)
  let ?t1 = "pipe_trigger_close ?t"
  have t1: "pt_closed ?t1 \<and> pt_gone ?t1 = [r, w, dup] \<and> pt_fds ?t1 = [] \<and> disp_closed (pt_disp ?t1)"
    using cl sock assms(1)
    by (simp add: pipe_trigger_close_def pipe_trigger_init_def pipe_trigger_os_close_def fw_close_def fw_init_def Let_def)
  have "(pipe_trigger_close ^^ n) ?t = ?t1" if "n \<noteq> 0"
  proof -
    obtain k where "n = Suc k" using \<open>n \<noteq> 0\<close> not0_implies_Suc by blast
    then have "(pipe_trigger_close ^^ n) ?t = (pipe_trigger_close ^^ k) ?t1" by (simp only: funpow_Suc_right o_apply)
    with pipe_trigger_closed t1 show ?thesis by metis
  qed
  with t1 made show ?thesis by (simp add: pipe_trigger_init_def)
qed

theorem pipe_trigger_closed_once_witness:
  "pt_gone ((pipe_trigger_close ^^ 3) (pipe_trigger_init (7 :: nat) 0 [(3, 6)] 4 5 8)) = [4, 5, 8]"
  using pipe_trigger_closed_once [of 8 "[(3, 6)]" "7 :: nat" 0 4 5 3] by (simp add: Let_def)

section \<open>Two sockets\<close>

text \<open>
  The sockets of the process, by number: those that are open, and the next one. The answers of the system
  to one attempt: what \<^verbatim>\<open>bind\<close>, \<^verbatim>\<open>getsockname\<close> or \<^verbatim>\<open>listen\<close> raise, and the outcome of \<^verbatim>\<open>connect\<close>.
\<close>

record sockets =
  sk_open :: "nat list"
  sk_next :: nat

datatype connecting = Connects | Address_In_Use | Connect_Fails errno

record attempt =
  at_listen :: "errno option"
  at_connect :: connecting

definition new_socket :: "sockets \<Rightarrow> nat \<times> sockets" where
  "new_socket st = (sk_next st, \<lparr>sk_open = sk_next st # sk_open st, sk_next = Suc (sk_next st)\<rparr>)"

definition close_socket :: "nat \<Rightarrow> sockets \<Rightarrow> sockets" where
  "close_socket s st = st\<lparr>sk_open := removeAll s (sk_open st)\<rparr>"

text \<open>The loop: \<open>count\<close> counts the attempts that were made; \<open>w\<close> is connected to a new socket \<open>a\<close> that listens.\<close>

function connect_loop :: "(nat \<Rightarrow> attempt) \<Rightarrow> nat \<Rightarrow> nat \<Rightarrow> sockets \<Rightarrow> (raised + nat) \<times> sockets" where
  "connect_loop ask w n st =
     (let count = Suc n; (a, st1) = new_socket st
      in case at_listen (ask count) of
           Some e \<Rightarrow> (Inl (OSErr e), st1)
         | None \<Rightarrow>
             (case at_connect (ask count) of
                Connects \<Rightarrow> (Inr a, st1)
              | Connect_Fails e \<Rightarrow> (Inl (OSErr e), st1)
              | Address_In_Use \<Rightarrow>
                  if 10 \<le> count then (Inl (Raised (RuntimeError ''Cannot bind trigger!'')), close_socket w (close_socket a st1))
                  else connect_loop ask w count (close_socket a st1)))"
  by pat_completeness auto
termination by (relation "measure (\<lambda>(ask, w, n, st). 10 - n)") auto

declare connect_loop.simps [simp del]

text \<open>\<^verbatim>\<open>__init__\<close>: \<open>nodelay\<close> and \<open>refused\<close> are what \<^verbatim>\<open>setsockopt\<close> and \<^verbatim>\<open>accept\<close> raise; \<open>r\<close> and \<open>w\<close> are left.\<close>

definition loopback_init :: "(nat \<Rightarrow> attempt) \<Rightarrow> errno option \<Rightarrow> errno option \<Rightarrow> sockets \<Rightarrow> (raised + nat \<times> nat) \<times> sockets" where
  "loopback_init ask nodelay refused st =
     (let (w, st1) = new_socket st
      in case nodelay of
           Some e \<Rightarrow> (Inl (OSErr e), st1)
         | None \<Rightarrow>
             (case connect_loop ask w 0 st1 of
                (Inl x, st2) \<Rightarrow> (Inl x, st2)
              | (Inr a, st2) \<Rightarrow>
                  (case refused of
                     Some e \<Rightarrow> (Inl (OSErr e), st2)
                   | None \<Rightarrow> let (r, st3) = new_socket st2 in (Inr (r, w), close_socket a st3))))"

definition loopback_close :: "nat \<times> nat \<Rightarrow> sockets \<Rightarrow> sockets" where
  "loopback_close rw st = close_socket (snd rw) (close_socket (fst rw) st)"

definition sockets_ok :: "sockets \<Rightarrow> bool" where
  "sockets_ok st \<longleftrightarrow> distinct (sk_open st) \<and> (\<forall>s \<in> set (sk_open st). s < sk_next st)"

text \<open>The answers to the attempts before one.\<close>

definition in_use_until :: "(nat \<Rightarrow> attempt) \<Rightarrow> nat \<Rightarrow> nat \<Rightarrow> bool" where
  "in_use_until ask n k \<longleftrightarrow> (\<forall>j. n < j \<and> j < k \<longrightarrow> at_listen (ask j) = None \<and> at_connect (ask j) = Address_In_Use)"

lemma in_use_step:
  assumes "in_use_until ask (Suc n) k" "at_listen (ask (Suc n)) = None" "at_connect (ask (Suc n)) = Address_In_Use"
  shows "in_use_until ask n k"
proof -
  have "at_listen (ask j) = None \<and> at_connect (ask j) = Address_In_Use" if "n < j \<and> j < k" for j
    using assms that by (cases "j = Suc n") (simp_all add: in_use_until_def)
  then show ?thesis by (simp add: in_use_until_def)
qed

text \<open>What an attempt leaves: a new socket beside those that were open, unless it failed for the tenth time.\<close>

definition loop_left :: "nat set \<Rightarrow> nat \<Rightarrow> (raised + nat) \<Rightarrow> nat set \<Rightarrow> bool" where
  "loop_left A w x B \<longleftrightarrow>
     (case x of
        Inr a \<Rightarrow> a \<notin> A \<and> B = insert a A
      | Inl (OSErr e) \<Rightarrow> \<exists>a. a \<notin> A \<and> B = insert a A
      | Inl y \<Rightarrow> y = Raised (RuntimeError ''Cannot bind trigger!'') \<and> B = A - {w})"

definition loop_asked :: "(nat \<Rightarrow> attempt) \<Rightarrow> nat \<Rightarrow> (raised + nat) \<Rightarrow> bool" where
  "loop_asked ask n x \<longleftrightarrow>
     (case x of
        Inr a \<Rightarrow> \<exists>k. n < k \<and> k \<le> 10 \<and> in_use_until ask n k \<and> at_listen (ask k) = None \<and> at_connect (ask k) = Connects
      | Inl (OSErr e) \<Rightarrow> \<exists>k. n < k \<and> k \<le> 10 \<and> in_use_until ask n k \<and> (at_listen (ask k) = Some e \<or> at_connect (ask k) = Connect_Fails e)
      | Inl y \<Rightarrow> in_use_until ask n 11)"

lemma loop_asked_step:
  assumes "loop_asked ask (Suc n) x" "at_listen (ask (Suc n)) = None" "at_connect (ask (Suc n)) = Address_In_Use"
  shows "loop_asked ask n x"
proof -
  have *: "in_use_until ask n k" if "in_use_until ask (Suc n) k" for k by (rule in_use_step [OF that assms(2,3)])
  have ex: "\<exists>k. n < k \<and> k \<le> 10 \<and> in_use_until ask n k \<and> P k" if "\<exists>k. Suc n < k \<and> k \<le> 10 \<and> in_use_until ask (Suc n) k \<and> P k" for P
    using that * by (metis Suc_lessD)
  show ?thesis
  proof (cases x)
    case (Inl y)
    with assms(1) ex * show ?thesis by (cases y) (simp_all add: loop_asked_def)
  next
    case (Inr a)
    with assms(1) ex show ?thesis by (simp add: loop_asked_def)
  qed
qed

lemma new_socket_ok:
  assumes "sockets_ok st" "new_socket st = (a, st1)"
  shows "sockets_ok st1" "a \<notin> set (sk_open st)" "set (sk_open st1) = insert a (set (sk_open st))"
    "set (sk_open (close_socket a st1)) = set (sk_open st)" "sockets_ok (close_socket s st1)"
proof -
  have "a \<notin> set (sk_open st)" using assms by (auto simp: sockets_ok_def new_socket_def)
  with assms show "sockets_ok st1" "a \<notin> set (sk_open st)" "set (sk_open st1) = insert a (set (sk_open st))"
    "set (sk_open (close_socket a st1)) = set (sk_open st)" "sockets_ok (close_socket s st1)"
    by (auto simp: sockets_ok_def new_socket_def close_socket_def distinct_removeAll less_Suc_eq)
qed

lemma in_use_none: "in_use_until ask n (Suc n)"
  unfolding in_use_until_def by linarith

lemma connect_loop_spec:
  "sockets_ok st \<Longrightarrow> w \<in> set (sk_open st) \<Longrightarrow> n < 10 \<Longrightarrow> connect_loop ask w n st = (x, st') \<Longrightarrow>
   sockets_ok st' \<and> loop_left (set (sk_open st)) w x (set (sk_open st')) \<and> loop_asked ask n x"
proof (induction ask w n st arbitrary: x st' rule: connect_loop.induct)
  case (1 ask w n st)
  obtain a st1 where new: "new_socket st = (a, st1)" by fastforce
  note ok = new_socket_ok [OF "1.prems"(1) new]
  have step: "connect_loop ask w n st =
      (case at_listen (ask (Suc n)) of
         Some e \<Rightarrow> (Inl (OSErr e), st1)
       | None \<Rightarrow>
           (case at_connect (ask (Suc n)) of
              Connects \<Rightarrow> (Inr a, st1)
            | Connect_Fails e \<Rightarrow> (Inl (OSErr e), st1)
            | Address_In_Use \<Rightarrow>
                if 10 \<le> Suc n then (Inl (Raised (RuntimeError ''Cannot bind trigger!'')), close_socket w (close_socket a st1))
                else connect_loop ask w (Suc n) (close_socket a st1)))"
    by (subst connect_loop.simps) (simp add: new Let_def)
  show ?case
  proof (cases "at_listen (ask (Suc n)) = None \<and> at_connect (ask (Suc n)) = Address_In_Use \<and> \<not> 10 \<le> Suc n")
    case True
    then have "connect_loop ask w (Suc n) (close_socket a st1) = (x, st')" using step "1.prems"(4) by simp
    with "1.IH" [OF refl new [symmetric] refl] True ok "1.prems"(2) loop_asked_step [of ask n x] show ?thesis by simp
  next
    case False
    have "(\<exists>e. x = Inl (OSErr e) \<and> st' = st1 \<and> (at_listen (ask (Suc n)) = Some e \<or> at_connect (ask (Suc n)) = Connect_Fails e))
      \<or> (x = Inr a \<and> st' = st1 \<and> at_listen (ask (Suc n)) = None \<and> at_connect (ask (Suc n)) = Connects)
      \<or> (x = Inl (Raised (RuntimeError ''Cannot bind trigger!'')) \<and> st' = close_socket w (close_socket a st1) \<and> n = 9
          \<and> at_listen (ask (Suc n)) = None \<and> at_connect (ask (Suc n)) = Address_In_Use)"
      using step "1.prems"(3,4) False by (cases "at_listen (ask (Suc n))"; cases "at_connect (ask (Suc n))") auto
    then consider (os) e where "x = Inl (OSErr e)" "st' = st1" "at_listen (ask (Suc n)) = Some e \<or> at_connect (ask (Suc n)) = Connect_Fails e"
      | (made) "x = Inr a" "st' = st1" "at_listen (ask (Suc n)) = None" "at_connect (ask (Suc n)) = Connects"
      | (tenth) "x = Inl (Raised (RuntimeError ''Cannot bind trigger!''))" "st' = close_socket w (close_socket a st1)" "n = 9"
          "at_listen (ask (Suc n)) = None" "at_connect (ask (Suc n)) = Address_In_Use"
      by (elim disjE exE conjE) simp_all
    then show ?thesis
    proof cases
      case os
      have "loop_asked ask n x" using os(1,3) in_use_none [of ask n] "1.prems"(3) by (auto simp: loop_asked_def intro!: exI [of _ "Suc n"])
      with os ok show ?thesis by (auto simp: loop_left_def)
    next
      case made
      have "loop_asked ask n x" using made in_use_none [of ask n] "1.prems"(3) by (auto simp: loop_asked_def intro!: exI [of _ "Suc n"])
      with made ok show ?thesis by (auto simp: loop_left_def)
    next
      case tenth
      have "in_use_until ask n 11" using tenth in_use_step [OF in_use_none [of ask "Suc n"]] by simp
      with tenth ok show ?thesis
        by (auto simp: loop_left_def loop_asked_def close_socket_def sockets_ok_def distinct_removeAll)
    qed
  qed
qed

text \<open>
  The trigger over two sockets. The constructor makes at most ten attempts, the next one only when the address was in
  use. When it succeeds, exactly the two connected sockets are left open, and closing the trigger leaves what was
  open before; and when ten addresses were in use it leaves no socket behind.
\<close>

theorem loopback_trigger_sockets:
  assumes ok: "sockets_ok st" and h: "loopback_init ask None refused st = (x, st')"
  shows "case x of
      Inr (r, w) \<Rightarrow> r \<noteq> w \<and> r \<notin> set (sk_open st) \<and> w \<notin> set (sk_open st)
        \<and> set (sk_open st') = {r, w} \<union> set (sk_open st) \<and> set (sk_open (loopback_close (r, w) st')) = set (sk_open st)
        \<and> (\<exists>k. 0 < k \<and> k \<le> 10 \<and> in_use_until ask 0 k \<and> at_connect (ask k) = Connects)
    | Inl y \<Rightarrow> y = Raised (RuntimeError ''Cannot bind trigger!'') \<longrightarrow>
        in_use_until ask 0 11 \<and> set (sk_open st') = set (sk_open st)"
proof -
  obtain w st1 where w: "new_socket st = (w, st1)" by fastforce
  note ok1 = new_socket_ok [OF ok w]
  obtain y st2 where l: "connect_loop ask w 0 st1 = (y, st2)" by fastforce
  have "w \<in> set (sk_open st1)" using ok1(3) by simp
  from connect_loop_spec [OF ok1(1) this _ l] have spec: "sockets_ok st2"
    "loop_left (set (sk_open st1)) w y (set (sk_open st2))" "loop_asked ask 0 y" by simp_all
  show ?thesis
  proof (cases y)
    case (Inl z)
    with h w l have "x = Inl z" "st' = st2" by (simp_all add: loopback_init_def)
    with Inl spec ok1 show ?thesis by (cases z) (auto simp: loop_left_def loop_asked_def)
  next
    case (Inr a)
    show ?thesis
    proof (cases refused)
      case None
      obtain r st3 where r: "new_socket st2 = (r, st3)" by fastforce
      with None Inr h w l have x: "x = Inr (r, w)" "st' = close_socket a st3" by (simp_all add: loopback_init_def)
      note ok2 = new_socket_ok [OF spec(1) r]
      have "a \<notin> set (sk_open st1)" "set (sk_open st2) = insert a (set (sk_open st1))" using spec(2) Inr by (simp_all add: loop_left_def)
      moreover have "\<exists>k. 0 < k \<and> k \<le> 10 \<and> in_use_until ask 0 k \<and> at_connect (ask k) = Connects"
        using spec(3) Inr by (auto simp: loop_asked_def)
      ultimately show ?thesis using x ok1 ok2 by (auto simp: close_socket_def loopback_close_def)
    qed (use Inr h w l in \<open>auto simp: loopback_init_def\<close>)
  qed
qed

definition second_attempt :: "nat \<Rightarrow> attempt" where
  "second_attempt n = \<lparr>at_listen = None, at_connect = (if n < 2 then Address_In_Use else Connects)\<rparr>"

theorem loopback_trigger_sockets_witness:
  "loopback_init second_attempt None None \<lparr>sk_open = [0], sk_next = 1\<rparr> = (Inr (4, 1), \<lparr>sk_open = [4, 1, 0], sk_next = 5\<rparr>)
    \<and> set (sk_open (loopback_close (4, 1) \<lparr>sk_open = [4, 1, 0], sk_next = 5\<rparr>)) = {0}"
proof -
  let ?st = "\<lparr>sk_open = [0], sk_next = 1\<rparr>"
  have r: "loopback_init second_attempt None None ?st = (Inr (4, 1), \<lparr>sk_open = [4, 1, 0], sk_next = 5\<rparr>)" by code_simp
  have "sockets_ok ?st" by (simp add: sockets_ok_def)
  from loopback_trigger_sockets [OF this r] r show ?thesis by simp
qed

end
