(* ===== verification/Connections.thy ===== *)
theory Connections
  imports Server
begin

text \<open>
  What holds in every state that the main thread reaches, for all servers of the program and all connections:
  the bound on the map, that each channel stays within \<^const>\<open>reachable\<close>, the maintenance.
\<close>

section \<open>The number of connections\<close>

text \<open>
  A sequence of events, each of which makes the state grow by at most one, and only if it may. An event
  that may not make it grow cannot become one that may.
\<close>

locale growing_steps =
  fixes inv :: "'s \<Rightarrow> bool" and size_of :: "'s \<Rightarrow> nat" and step :: "'e \<Rightarrow> 's \<Rightarrow> 's"
    and may_grow :: "'e \<Rightarrow> 's \<Rightarrow> bool"
  assumes inv_step: "inv s \<Longrightarrow> inv (step e s)"
    and size_step: "inv s \<Longrightarrow> size_of (step e s) \<le> size_of s + (if may_grow e s then 1 else 0)"
    and may_grow_step: "inv s \<Longrightarrow> may_grow e' (step e s) \<Longrightarrow> may_grow e' s"
begin

lemma inv_fold: "inv s \<Longrightarrow> inv (fold step es s)"
  by (induction es arbitrary: s) (auto simp: inv_step)

lemma size_fold: "inv s \<Longrightarrow> size_of (fold step es s) \<le> size_of s + length (filter (\<lambda>e. may_grow e s) es)"
proof (induction es arbitrary: s)
  case (Cons e es)
  have "length (filter (\<lambda>e'. may_grow e' (step e s)) es) \<le> length (filter (\<lambda>e'. may_grow e' s) es)"
    using may_grow_step [OF Cons.prems]
    by (induction es) (auto simp: le_SucI)
  moreover have "size_of (fold step es (step e s)) \<le> size_of (step e s) + length (filter (\<lambda>e'. may_grow e' (step e s)) es)"
    by (rule Cons.IH [OF inv_step [OF Cons.prems]])
  ultimately show ?case using size_step [OF Cons.prems, of e] by auto
qed simp

end

text \<open>File numbers are keys, and only the listening sockets accept.\<close>

definition listener_fds :: "main \<Rightarrow> nat list" where
  "listener_fds m = map l_fd (m_listeners m)"

definition map_ok :: "main \<Rightarrow> bool" where
  "map_ok m \<longleftrightarrow> distinct (map fst (m_map m))
     \<and> (\<forall>fd i. (fd, Listener i) \<in> set (m_map m) \<longrightarrow> i < length (listener_fds m) \<and> fd = listener_fds m ! i)
     \<and> (\<forall>fd k. (fd, Conn k) \<in> set (m_map m) \<longrightarrow> k < length (m_channels m) \<and> c_socket (m_channels m ! k))"

definition listens :: "nat \<Rightarrow> main \<Rightarrow> bool" where
  "listens fd m \<longleftrightarrow> (\<exists>i. map_of (m_map m) fd = Some (Listener i))"

lemma change_listener_fields [simp]:
  "m_map (change_listener i f m) = m_map m" "m_adj (change_listener i f m) = m_adj m"
  "m_channels (change_listener i f m) = m_channels m" "m_owner (change_listener i f m) = m_owner m"
  "m_now (change_listener i f m) = m_now m" "length (m_listeners (change_listener i f m)) = length (m_listeners m)"
  by (simp_all add: change_listener_def)

lemma change_listener_fds [simp]:
  "(\<And>l. l_fd (f l) = l_fd l) \<Longrightarrow> listener_fds (change_listener i f m) = listener_fds m"
  by (cases "i < length (m_listeners m)")
    (simp_all add: change_listener_def listener_fds_def map_update list_update_same_conv list_update_beyond)

lemma listener_fds_upd [simp]:
  "listener_fds (m\<lparr>m_map := x\<rparr>) = listener_fds m" "listener_fds (m\<lparr>m_channels := cs\<rparr>) = listener_fds m"
  "listener_fds (m\<lparr>m_owner := ow\<rparr>) = listener_fds m" "listener_fds (m\<lparr>m_now := n\<rparr>) = listener_fds m"
  by (simp_all add: listener_fds_def)

lemma server_close_fields [simp]:
  "listener_fds (server_close i m) = listener_fds m" "m_adj (server_close i m) = m_adj m"
  "m_channels (server_close i m) = m_channels m" "m_owner (server_close i m) = m_owner m" "m_now (server_close i m) = m_now m"
  "length (m_listeners (server_close i m)) = length (m_listeners m)"
  "m_map (server_close i m) = filter (\<lambda>(fd, x). x \<noteq> Listener i \<and> x \<noteq> Trigger i) (m_map m)"
  by (simp_all add: server_close_def)

lemma all_channels_fields [simp]:
  "m_map (all_channels f m) = m_map m" "m_adj (all_channels f m) = m_adj m" "listener_fds (all_channels f m) = listener_fds m"
  "m_listeners (all_channels f m) = m_listeners m" "m_owner (all_channels f m) = m_owner m" "m_now (all_channels f m) = m_now m"
  "length (m_channels (all_channels f m)) = length (m_channels m)"
  "k < length (m_channels m) \<Longrightarrow> m_channels (all_channels f m) ! k = f k (m_channels m ! k)"
  by (simp_all add: all_channels_def)

lemma all_channels_sockets:
  "(\<And>k c. c_socket (f k c) = c_socket c) \<Longrightarrow> map c_socket (m_channels (all_channels f m)) = map c_socket (m_channels m)"
  by (simp add: list_eq_iff_nth_eq)

lemma change_channel_fields [simp]:
  "m_adj (change_channel k f m) = m_adj m" "m_listeners (change_channel k f m) = m_listeners m"
  "listener_fds (change_channel k f m) = listener_fds m" "m_owner (change_channel k f m) = m_owner m"
  "m_channels (change_channel k f m) = (m_channels m)[k := f (m_channels m ! k)]"
  by (simp_all add: change_channel_def drop_closed_def listener_fds_def)

text \<open>What every event but a connection that is accepted does to the map.\<close>

definition shrinks :: "main \<Rightarrow> main \<Rightarrow> bool" where
  "shrinks m m' \<longleftrightarrow> (\<exists>p. m_map m' = filter p (m_map m)) \<and> listener_fds m' = listener_fds m \<and> m_adj m' = m_adj m
     \<and> (map_ok m \<longrightarrow> map_ok m')"

lemma distinct_map_filter_fst: "distinct (map fst xs) \<Longrightarrow> distinct (map fst (filter p xs))"
  by (simp add: distinct_map_filter)

lemma map_of_filter_Some:
  "distinct (map fst xs) \<Longrightarrow> map_of (filter p xs) k = Some v \<Longrightarrow> map_of xs k = Some v"
  by (auto dest: map_of_SomeD)

lemma shrinksD:
  assumes "shrinks m m'" "map_ok m"
  shows "map_ok m'" "length (m_map m') \<le> length (m_map m)" "listens fd m' \<Longrightarrow> listens fd m"
proof -
  from assms obtain p where p: "m_map m' = filter p (m_map m)" and ok: "map_ok m'" by (auto simp: shrinks_def)
  show "map_ok m'" by (rule ok)
  show "length (m_map m') \<le> length (m_map m)" unfolding p by (rule length_filter_le)
  show "listens fd m' \<Longrightarrow> listens fd m"
    using assms(2) map_of_filter_Some [of "m_map m" p fd] by (auto simp: listens_def p map_ok_def)
qed

lemma shrinks_refl: "shrinks m m"
  by (auto simp: shrinks_def intro!: exI [of _ "\<lambda>x. True"])

lemma shrinks_trans: "shrinks m1 m2 \<Longrightarrow> shrinks m2 m3 \<Longrightarrow> shrinks m1 m3"
  unfolding shrinks_def by auto

lemma change_channel_shrinks: "shrinks m (change_channel k f m)"
  by (auto simp: shrinks_def change_channel_def drop_closed_def map_ok_def distinct_map_filter_fst split: obj.splits)

lemma server_close_shrinks: "shrinks m (server_close i m)"
  by (auto simp: shrinks_def map_ok_def distinct_map_filter_fst)

lemma trigger_close_shrinks: "shrinks m (trigger_close i m)"
  by (auto simp: shrinks_def trigger_close_def map_ok_def distinct_map_filter_fst)

lemma poll_write_shrinks: "shrinks m (poll_write io fd m)"
  by (auto simp: poll_write_def shrinks_refl change_channel_shrinks split: option.splits obj.splits)

lemma poll_exception_shrinks: "shrinks m (poll_exception io fd m)"
  by (auto simp: poll_exception_def shrinks_refl change_channel_shrinks server_close_shrinks split: option.splits obj.splits)

lemma length_update: "length (AList.update fd x al) \<le> Suc (length al)"
  by (induction al) auto

lemma handle_accept_map:
  assumes "map_ok m"
  shows "map_ok (handle_accept io i m)" "length (m_map (handle_accept io i m)) \<le> Suc (length (m_map m))"
    "listens fd (handle_accept io i m) \<Longrightarrow> listens fd m"
    "listener_fds (handle_accept io i m) = listener_fds m" "m_adj (handle_accept io i m) = m_adj m"
proof -
  have "map_ok (handle_accept io i m) \<and> length (m_map (handle_accept io i m)) \<le> Suc (length (m_map m))
    \<and> (listens fd (handle_accept io i m) \<longrightarrow> listens fd m)
    \<and> listener_fds (handle_accept io i m) = listener_fds m \<and> m_adj (handle_accept io i m) = m_adj m"
  proof (cases "io_accept io (l_fd (m_listeners m ! i))")
    case (Accepted fd' sndbuf net sched)
    have "distinct (map fst (AList.update fd' x (m_map m)))" for x
      using assms by (simp add: map_ok_def distinct_update)
    with Accepted assms show ?thesis
      by (auto simp: handle_accept_def map_ok_def length_update listens_def update_conv' nth_append channel_init_def
          dest!: set_update_keys split: if_splits)
  next
    case Channel_OSError
    then show ?thesis
      using shrinksD [OF server_close_shrinks assms] server_close_shrinks [of m i]
      by (simp add: handle_accept_def shrinks_def le_SucI)
  qed (simp_all add: handle_accept_def assms)
  then show "map_ok (handle_accept io i m)" "length (m_map (handle_accept io i m)) \<le> Suc (length (m_map m))"
    "listens fd (handle_accept io i m) \<Longrightarrow> listens fd m"
    "listener_fds (handle_accept io i m) = listener_fds m" "m_adj (handle_accept io i m) = m_adj m" by auto
qed

lemma poll_read_cases:
  "(listens fd m \<and> (\<exists>i. poll_read io fd m = handle_accept io i m)) \<or> shrinks m (poll_read io fd m)"
  by (auto simp: poll_read_def listens_def shrinks_refl change_channel_shrinks split: option.splits obj.splits)

definition pollin_of :: "nat \<times> flags \<Rightarrow> bool" where
  "pollin_of ff = pollin (snd ff)"

lemma readwrite_cases:
  "(listens (fst ff) m \<and> pollin_of ff \<and> (\<exists>i. readwrite io ff m = handle_accept io i m \<or> readwrite io ff m = server_close i (handle_accept io i m)
       \<or> readwrite io ff m = server_close i (server_close i (handle_accept io i m))))
   \<or> shrinks m (readwrite io ff m)"
proof (cases ff)
  case (Pair fd f)
  have "shrinks m (server_close i (server_close i m))" for i using server_close_shrinks shrinks_trans by blast
  then show ?thesis
    using Pair
    by (auto simp: readwrite_def Let_def listens_def pollin_of_def shrinks_refl change_channel_shrinks trigger_close_shrinks
        server_close_shrinks split: option.splits obj.splits)
qed

interpretation reads: growing_steps map_ok "\<lambda>m. length (m_map m)" "poll_read io" listens for io
proof
  fix m fd fd'
  assume ok: "map_ok m"
  show "map_ok (poll_read io fd m)"
    using poll_read_cases [of fd m io] handle_accept_map(1) [OF ok] shrinksD(1) [OF _ ok] by metis
  show "length (m_map (poll_read io fd m)) \<le> length (m_map m) + (if listens fd m then 1 else 0)"
    using poll_read_cases [of fd m io] handle_accept_map(2) [OF ok] shrinksD(2) [OF _ ok]
    by (metis Suc_eq_plus1 trans_le_add1)
  show "listens fd' (poll_read io fd m) \<Longrightarrow> listens fd' m"
    using poll_read_cases [of fd m io] handle_accept_map(3) [OF ok] shrinksD(3) [OF _ ok] by metis
qed

interpretation writes: growing_steps map_ok "\<lambda>m. length (m_map m)" "poll_write io" "\<lambda>fd m. False" for io
  by unfold_locales (simp_all add: shrinksD(1,2) [OF poll_write_shrinks])

interpretation exceptions: growing_steps map_ok "\<lambda>m. length (m_map m)" "poll_exception io" "\<lambda>fd m. False" for io
  by unfold_locales (simp_all add: shrinksD(1,2) [OF poll_exception_shrinks])

interpretation readwrites: growing_steps map_ok "\<lambda>m. length (m_map m)" "readwrite io"
  "\<lambda>ff m. listens (fst ff) m \<and> pollin_of ff" for io
proof
  fix m ff and ff' :: "nat \<times> flags"
  assume ok: "map_ok m"
  let ?m = "readwrite io ff m"
  have "map_ok ?m \<and> length (m_map ?m) \<le> length (m_map m) + (if listens (fst ff) m \<and> pollin_of ff then 1 else 0)
      \<and> (listens (fst ff') ?m \<longrightarrow> listens (fst ff') m)"
  proof (cases "shrinks m ?m")
    case True
    then show ?thesis using shrinksD [OF True ok] by auto
  next
    case False
    then obtain i where "shrinks (handle_accept io i m) ?m" "listens (fst ff) m" "pollin_of ff"
      using readwrite_cases [of ff m io] shrinks_refl server_close_shrinks shrinks_trans by metis
    with shrinksD [OF this(1) handle_accept_map(1) [OF ok]] handle_accept_map(2) [OF ok, of io i] handle_accept_map(3) [OF ok, of "fst ff'" io i]
    show ?thesis by (simp add: le_trans)
  qed
  then show "map_ok ?m" "length (m_map ?m) \<le> length (m_map m) + (if listens (fst ff) m \<and> pollin_of ff then 1 else 0)"
    "listens (fst ff') ?m \<and> pollin_of ff' \<Longrightarrow> listens (fst ff') m \<and> pollin_of ff'" by auto
qed

text \<open>Before the events: what the objects are asked.\<close>

definition asks_only :: "main \<Rightarrow> main \<Rightarrow> bool" where
  "asks_only m m' \<longleftrightarrow> m_map m' = m_map m \<and> listener_fds m' = listener_fds m \<and> m_adj m' = m_adj m
     \<and> map c_socket (m_channels m') = map c_socket (m_channels m)"

lemma asks_only_refl [simp]: "asks_only m m"
  by (simp add: asks_only_def)

lemma asks_only_trans: "asks_only m1 m2 \<Longrightarrow> asks_only m2 m3 \<Longrightarrow> asks_only m1 m3"
  by (simp add: asks_only_def)

lemma asks_only_ok: "asks_only m m' \<Longrightarrow> map_ok m \<Longrightarrow> map_ok m'"
proof -
  assume a: "asks_only m m'" and ok: "map_ok m"
  have "length (m_channels m') = length (m_channels m)" using a by (metis asks_only_def length_map)
  moreover have "k < length (m_channels m) \<Longrightarrow> c_socket (m_channels m' ! k) = c_socket (m_channels m ! k)" for k
    using a calculation unfolding asks_only_def by (metis nth_map)
  ultimately show ?thesis using a ok by (auto simp: map_ok_def asks_only_def)
qed

lemma asks_only_listens: "asks_only m m' \<Longrightarrow> listens fd m' = listens fd m"
  by (simp add: asks_only_def listens_def)

lemma set_clock_asks: "asks_only m (set_clock now m)"
  by (simp add: asks_only_def set_clock_def all_channels_sockets)

lemma maintenance_asks: "asks_only m (maintenance i now m)"
  by (simp add: asks_only_def maintenance_def all_channels_sockets)

lemma change_listener_asks: "(\<And>l. l_fd (f l) = l_fd l) \<Longrightarrow> asks_only m (change_listener i f m)"
  by (simp add: asks_only_def)

lemma server_readable_asks:
  assumes "server_readable i m = (b, m')"
  shows "asks_only m m'" "b \<Longrightarrow> int (length (m_map m)) < adj_connection_limit (m_adj m)"
proof -
  let ?m0 = "change_listener i (\<lambda>l. l\<lparr>l_next_cleanup := int (m_now m) + adj_cleanup_interval (m_adj m)\<rparr>) m"
  define m1 where "m1 = (if l_next_cleanup (m_listeners m ! i) \<le> int (m_now m) then maintenance i (m_now m) ?m0 else m)"
  have "asks_only m ?m0" by (rule change_listener_asks) simp
  then have m1: "asks_only m m1" using maintenance_asks asks_only_trans by (simp add: m1_def)
  have "asks_only m1 (change_listener i (\<lambda>l. l\<lparr>l_overflow := ov\<rparr>) m1)" for ov by (rule change_listener_asks) simp
  with m1 have c: "asks_only m (change_listener i (\<lambda>l. l\<lparr>l_overflow := ov\<rparr>) m1)" for ov by (rule asks_only_trans)
  from assms m1 c show "asks_only m m'"
    by (auto simp: server_readable_def Let_def m1_def [symmetric] split: if_splits)
  from assms m1 show "b \<Longrightarrow> int (length (m_map m)) < adj_connection_limit (m_adj m)"
    by (auto simp: server_readable_def Let_def m1_def [symmetric] asks_only_def split: if_splits)
qed

lemma obj_readable_asks:
  assumes "obj_readable x m = (b, m')"
  shows "asks_only m m'" "x = Listener i \<Longrightarrow> b \<Longrightarrow> int (length (m_map m)) < adj_connection_limit (m_adj m)"
  using assms server_readable_asks [of i m b m'] server_readable_asks(1) [of _ m b m']
  by (auto simp: obj_readable_def split: obj.splits)

definition asked_ok :: "nat set \<Rightarrow> (nat \<times> obj) list \<Rightarrow> main \<Rightarrow> bool" where
  "asked_ok r xs m \<longleftrightarrow> r \<subseteq> fst ` set xs
     \<and> (\<forall>fd \<in> r. \<forall>i. (fd, Listener i) \<in> set xs \<longrightarrow> int (length (m_map m)) < adj_connection_limit (m_adj m))"

lemma asked_ok_Cons:
  assumes "asked_ok r xs m1" "asks_only m m1" "fd \<notin> fst ` set xs"
    and "\<And>i. b \<Longrightarrow> x = Listener i \<Longrightarrow> int (length (m_map m)) < adj_connection_limit (m_adj m)"
  shows "asked_ok (if b then insert fd r else r) ((fd, x) # xs) m"
  using assms by (force simp: asked_ok_def asks_only_def)

lemma poll_ask_ok:
  "poll_ask xs m = ((r, w, e), m') \<Longrightarrow> distinct (map fst xs) \<Longrightarrow> asks_only m m' \<and> asked_ok (set r) xs m"
proof (induction xs arbitrary: m r w e m')
  case (Cons y xs)
  obtain fd x where y: "y = (fd, x)" by fastforce
  obtain b m1 where 1: "obj_readable x m = (b, m1)" by fastforce
  obtain r1 w1 e1 m2 where 2: "poll_ask xs m1 = ((r1, w1, e1), m2)" by (metis prod.exhaust)
  from Cons.IH [OF 2] Cons.prems(2) have ih: "asks_only m1 m2" "asked_ok (set r1) xs m1" by simp_all
  have "set r = (if b then insert fd (set r1) else set r1)" "m' = m2"
    using Cons.prems(1) by (auto simp: y 1 2 Let_def)
  with asked_ok_Cons [OF ih(2) obj_readable_asks(1) [OF 1], of fd b x] Cons.prems(2) obj_readable_asks [OF 1]
    asks_only_trans [OF _ ih(1)]
  show ?case by (simp add: y)
qed (simp add: asked_ok_def)

lemma poll2_ask_ok:
  "poll2_ask xs m = (fs, m') \<Longrightarrow> distinct (map fst xs) \<Longrightarrow>
     asks_only m m' \<and> asked_ok {fd. \<exists>f. (fd, f) \<in> set fs \<and> pollin f} xs m"
proof (induction xs arbitrary: m fs m')
  case (Cons y xs)
  obtain fd x where y: "y = (fd, x)" by fastforce
  obtain b m1 where 1: "obj_readable x m = (b, m1)" by fastforce
  obtain fs1 m2 where 2: "poll2_ask xs m1 = (fs1, m2)" by fastforce
  from Cons.IH [OF 2] Cons.prems(2)
  have ih: "asks_only m1 m2" "asked_ok {fd. \<exists>f. (fd, f) \<in> set fs1 \<and> pollin f} xs m1" by simp_all
  let ?r1 = "{fd. \<exists>f. (fd, f) \<in> set fs1 \<and> pollin f}"
  have "{fd. \<exists>f. (fd, f) \<in> set fs \<and> pollin f} = (if b then insert fd ?r1 else ?r1)" "m' = m2"
    using Cons.prems(1) by (auto simp: y 1 2 Let_def split: if_splits)
  with asked_ok_Cons [OF ih(2) obj_readable_asks(1) [OF 1], of fd b x] Cons.prems(2) obj_readable_asks [OF 1]
    asks_only_trans [OF _ ih(1)]
  show ?case by (simp add: y)
qed (simp add: asked_ok_def)

text \<open>
  What the operating system guarantees: \<^verbatim>\<open>select\<close> and \<^verbatim>\<open>poll\<close> answer each file number at most once, and only
  events that were asked for (besides errors).
\<close>

definition io_ok :: "io \<Rightarrow> bool" where
  "io_ok io \<longleftrightarrow>
     (\<forall>r w e r' w' e'. io_select io r w e = Selected r' w' e' \<longrightarrow> distinct r' \<and> set r' \<subseteq> set r)
     \<and> (\<forall>fs rs. io_poll io fs = Inr rs \<longrightarrow> distinct (map fst rs)
          \<and> (\<forall>(fd, f) \<in> set rs. pollin f \<longrightarrow> (\<exists>f'. (fd, f') \<in> set fs \<and> pollin f')))
     \<and> (\<forall>l fd sndbuf net sched. io_accept io l = Accepted fd sndbuf net sched \<longrightarrow> 0 < sndbuf)"

definition poll_fun :: "bool \<Rightarrow> io \<Rightarrow> main \<Rightarrow> exn option \<times> main" where
  "poll_fun use_poll io m = (if use_poll then poll2 io m else poll io m)"

definition map_limit :: "main \<Rightarrow> nat" where
  "map_limit m = (let n = length (listener_fds m) in max (2 * n) (nat (adj_connection_limit (m_adj m)) + n - 1))"

text \<open>In one pass each listening socket accepts at most one connection, and only below the limit.\<close>

lemma accepting_bound:
  assumes ok: "map_ok m" and es: "distinct (map who es)" and asked: "asked_ok r (m_map m) m"
    and may: "\<And>e. e \<in> set es \<Longrightarrow> may e \<Longrightarrow> listens (who e) m \<and> who e \<in> r"
    and size: "length (m_map m) \<le> map_limit m"
  shows "length (m_map m) + length (filter may es) \<le> map_limit m"
proof (cases "filter may es = []")
  case True
  with size show ?thesis by simp
next
  case False
  then obtain e where e: "e \<in> set es" "may e" by (metis filter_False)
  have lst: "\<exists>i. (who e, Listener i) \<in> set (m_map m)" if "e \<in> set es" "may e" for e
    using may [OF that] by (auto simp: listens_def dest: map_of_SomeD)
  then have "who x \<in> set (listener_fds m)" if "x \<in> set (filter may es)" for x
    using ok that by (fastforce simp: map_ok_def)
  then have "set (map who (filter may es)) \<subseteq> set (listener_fds m)" by auto
  then have "card (set (map who (filter may es))) \<le> card (set (listener_fds m))" by (rule card_mono [rotated]) simp
  also have "\<dots> \<le> length (listener_fds m)" by (rule card_length)
  finally have "length (filter may es) \<le> length (listener_fds m)"
    using distinct_card [of "map who (filter may es)"] es by (simp add: distinct_map_filter)
  moreover have "int (length (m_map m)) < adj_connection_limit (m_adj m)"
    using asked lst [OF e] may [OF e] by (auto simp: asked_ok_def)
  ultimately show ?thesis by (simp add: map_limit_def Let_def)
qed

lemma shrinks_limit: "asks_only m m' \<Longrightarrow> map_limit m' = map_limit m"
  by (simp add: asks_only_def map_limit_def)

lemma poll_size:
  assumes ok: "map_ok m0" and io: "io_ok io" and size: "length (m_map m0) \<le> map_limit m0"
  shows "map_ok (snd (poll_fun up io m0)) \<and> length (m_map (snd (poll_fun up io m0))) \<le> map_limit m0"
proof -
  let ?m = "set_clock (io_now io) m0"
  have c: "map_ok ?m" "asks_only m0 ?m" using set_clock_asks asks_only_ok ok by blast+
  then have dist: "distinct (map fst (m_map ?m))" by (simp add: map_ok_def)
  show ?thesis
  proof (cases up)
    case False
    obtain r w e m1 where a: "poll_ask (m_map ?m) ?m = ((r, w, e), m1)" by (metis prod.exhaust)
    from poll_ask_ok [OF a dist] have as: "asks_only ?m m1" "asked_ok (set r) (m_map ?m) ?m" by simp_all
    have m1: "map_ok m1" "asks_only m0 m1" using as(1) c asks_only_ok asks_only_trans by blast+
    have keep: "map_ok m1 \<and> length (m_map m1) \<le> map_limit m0" using m1 size by (simp add: asks_only_def)
    show ?thesis
    proof (cases "\<not> (r = [] \<and> w = [] \<and> e = []) \<and> (\<exists>r' w' e'. io_select io r w e = Selected r' w' e')")
      case True
      then obtain r' w' e' where s: "io_select io r w e = Selected r' w' e'" by blast
      have r': "distinct r'" "set r' \<subseteq> set r" using io s unfolding io_ok_def by blast+
      have p: "snd (poll_fun up io m0) =
          fold (poll_exception io) e' (fold (poll_write io) w' (fold (poll_read io) r' m1))"
        using \<open>\<not> up\<close> True s a by (auto simp: poll_fun_def poll_def Let_def)
      have "asked_ok (set r) (m_map m1) m1" using as by (simp add: asked_ok_def asks_only_def)
      then have "length (m_map m1) + length (filter (\<lambda>fd. listens fd m1) r') \<le> map_limit m1"
        by (intro accepting_bound [where who = id and r = "set r", OF m1(1)])
          (use r' keep shrinks_limit [OF m1(2)] in auto)
      with reads.size_fold [OF m1(1), of io r'] shrinks_limit [OF m1(2)]
      have a: "length (m_map (fold (poll_read io) r' m1)) \<le> map_limit m0" by simp
      note ra = reads.inv_fold [OF m1(1), of io r']
      note wa = writes.inv_fold [OF ra, of io w']
      show ?thesis
        unfolding p using a writes.size_fold [OF ra, of io w'] exceptions.size_fold [OF wa, of io e']
          exceptions.inv_fold [OF wa, of io e'] by simp
    next
      case False
      then have "snd (poll_fun up io m0) = m1"
        using \<open>\<not> up\<close> a by (auto simp: poll_fun_def poll_def Let_def split: selected.splits)
      with keep show ?thesis by simp
    qed
  next
    case True
    obtain fs m1 where a: "poll2_ask (m_map ?m) ?m = (fs, m1)" by fastforce
    let ?r = "{fd. \<exists>f. (fd, f) \<in> set fs \<and> pollin f}"
    from poll2_ask_ok [OF a dist] have as: "asks_only ?m m1" "asked_ok ?r (m_map ?m) ?m" by simp_all
    have m1: "map_ok m1" "asks_only m0 m1" using as(1) c asks_only_ok asks_only_trans by blast+
    have keep: "map_ok m1 \<and> length (m_map m1) \<le> map_limit m0" using m1 size by (simp add: asks_only_def)
    show ?thesis
    proof (cases "io_poll io fs")
      case (Inl e)
      with True a keep show ?thesis by (simp add: poll_fun_def poll2_def Let_def)
    next
      case (Inr rs)
      have rs: "distinct (map fst rs)" "\<forall>(fd, f) \<in> set rs. pollin f \<longrightarrow> fd \<in> ?r"
        using io Inr unfolding io_ok_def by blast+
      have p: "snd (poll_fun up io m0) = fold (readwrite io) rs m1"
        using True a Inr by (simp add: poll_fun_def poll2_def Let_def)
      have "asked_ok ?r (m_map m1) m1" using as by (simp add: asked_ok_def asks_only_def)
      then have "length (m_map m1) + length (filter (\<lambda>ff. listens (fst ff) m1 \<and> pollin_of ff) rs) \<le> map_limit m1"
        by (intro accepting_bound [where who = fst and r = ?r, OF m1(1) rs(1)])
          (use rs(2) keep shrinks_limit [OF m1(2)] in \<open>auto simp: pollin_of_def\<close>)
      with readwrites.size_fold [OF m1(1), of io rs] readwrites.inv_fold [OF m1(1)] shrinks_limit [OF m1(2)]
      show ?thesis unfolding p by simp
    qed
  qed
qed

section \<open>The program\<close>

text \<open>
  The states of the servers: the main thread runs passes of the loop, and a worker serves or cancels the task
  of a channel, as long as one is queued. \<open>sv\<close> gives the server's data with the address of each client.
\<close>

inductive main_reach :: "bool \<Rightarrow> (exn \<Rightarrow> string) \<Rightarrow> (nat \<Rightarrow> server_info) \<Rightarrow> adjustments \<Rightarrow> nat \<Rightarrow> main \<Rightarrow> bool"
  for use_poll tb sv adj n where
  start: "distinct (map fst (register 0 fds)) \<Longrightarrow> length fds = n \<Longrightarrow> main_reach use_poll tb sv adj n (server_start adj fds now)"
| pass: "main_reach use_poll tb sv adj n m \<Longrightarrow> io_ok io \<Longrightarrow> main_reach use_poll tb sv adj n (snd (poll_fun use_poll io m))"
| serve: "main_reach use_poll tb sv adj n m \<Longrightarrow> k < length (m_channels m) \<Longrightarrow> c_tasks (m_channels m ! k) = Suc j \<Longrightarrow>
    main_reach use_poll tb sv adj n
      (change_channel k (\<lambda>c. snd (service tb (sv k) (c\<lparr>c_tasks := j\<rparr>))) m)"
| cancel: "main_reach use_poll tb sv adj n m \<Longrightarrow> k < length (m_channels m) \<Longrightarrow> c_tasks (m_channels m ! k) = Suc j \<Longrightarrow>
    main_reach use_poll tb sv adj n (change_channel k (\<lambda>c. cancel (c\<lparr>c_tasks := j\<rparr>)) m)"

text \<open>What no event changes.\<close>

definition same_servers :: "main \<Rightarrow> main \<Rightarrow> bool" where
  "same_servers m m' \<longleftrightarrow> m_adj m' = m_adj m \<and> listener_fds m' = listener_fds m"

lemma same_servers_fold: "(\<And>e m. same_servers m (f e m)) \<Longrightarrow> same_servers m (fold f es m)"
  by (induction es arbitrary: m) (auto simp: same_servers_def)

lemma handle_accept_servers: "same_servers m (handle_accept io i m)"
  by (simp add: handle_accept_def same_servers_def split: accepted.split)

lemma poll_read_servers: "same_servers m (poll_read io fd m)"
  using handle_accept_servers [of m io]
  by (simp add: poll_read_def same_servers_def split: option.split obj.split)

lemma poll_write_servers: "same_servers m (poll_write io fd m)"
  by (simp add: poll_write_def same_servers_def split: option.split obj.split)

lemma poll_exception_servers: "same_servers m (poll_exception io fd m)"
  by (simp add: poll_exception_def same_servers_def split: option.split obj.split)

lemma readwrite_servers: "same_servers m (readwrite io ff m)"
  using handle_accept_servers [of m io]
  by (cases ff) (simp add: readwrite_def same_servers_def trigger_close_def Let_def split: option.split obj.split)

lemma asks_only_servers: "asks_only m m' \<Longrightarrow> same_servers m m'"
  by (simp add: asks_only_def same_servers_def)

lemma same_servers_trans: "same_servers m1 m2 \<Longrightarrow> same_servers m2 m3 \<Longrightarrow> same_servers m1 m3"
  by (simp add: same_servers_def)

lemmas step_servers = poll_read_servers poll_write_servers poll_exception_servers readwrite_servers

lemma set_clock_distinct: "map_ok m \<Longrightarrow> distinct (map fst (m_map (set_clock now m)))"
  using asks_only_ok [OF set_clock_asks] by (simp add: map_ok_def)

lemma poll_asks:
  assumes "map_ok m" "poll_ask (m_map (set_clock now m)) (set_clock now m) = ((r, w, e), m1)"
  shows "asks_only m m1"
  using asks_only_trans [OF set_clock_asks conjunct1 [OF poll_ask_ok [OF assms(2) set_clock_distinct [OF assms(1)]]]] .

lemma poll2_asks:
  assumes "map_ok m" "poll2_ask (m_map (set_clock now m)) (set_clock now m) = (fs, m1)"
  shows "asks_only m m1"
  using asks_only_trans [OF set_clock_asks conjunct1 [OF poll2_ask_ok [OF assms(2) set_clock_distinct [OF assms(1)]]]] .

lemma poll_fun_servers:
  assumes "map_ok m"
  shows "same_servers m (snd (poll_fun up io m))"
proof (cases up)
  case True
  obtain fs m1 where a: "poll2_ask (m_map (set_clock (io_now io) m)) (set_clock (io_now io) m) = (fs, m1)" by fastforce
  note m1 = asks_only_servers [OF poll2_asks [OF assms a]]
  have "same_servers m (fold (readwrite io) rs m1)" for rs
    by (rule same_servers_trans [OF m1 same_servers_fold [OF readwrite_servers]])
  with True m1 show ?thesis by (simp add: poll_fun_def poll2_def Let_def a split: sum.split)
next
  case False
  obtain r w e m1 where a: "poll_ask (m_map (set_clock (io_now io) m)) (set_clock (io_now io) m) = ((r, w, e), m1)"
    by (metis prod.exhaust)
  note m1 = asks_only_servers [OF poll_asks [OF assms a]]
  note rs = same_servers_trans [OF m1 same_servers_fold [OF poll_read_servers]]
  note ws = same_servers_trans [OF rs same_servers_fold [OF poll_write_servers]]
  have "same_servers m (fold (poll_exception io) e' (fold (poll_write io) w' (fold (poll_read io) r' m1)))" for r' w' e'
    by (rule same_servers_trans [OF ws same_servers_fold [OF poll_exception_servers]])
  with False m1 show ?thesis by (simp add: poll_fun_def poll_def Let_def a split: selected.split)
qed

lemma change_channel_size:
  assumes "map_ok m" "length (m_map m) \<le> map_limit m"
  shows "map_ok (change_channel k f m) \<and> length (m_map (change_channel k f m)) \<le> map_limit (change_channel k f m)"
  using shrinksD(1,2) [OF change_channel_shrinks assms(1)] assms(2) le_trans
  unfolding map_limit_def change_channel_fields by blast

lemma register_listener:
  "(fd, Listener i) \<in> set (register j fds) \<Longrightarrow> j \<le> i \<and> i - j < length fds \<and> fd = snd (fds ! (i - j))"
  by (induction j fds rule: register.induct) (auto simp: Suc_diff_le nth_Cons' Suc_diff_Suc)

lemma register_no_conn: "(fd, Conn k) \<notin> set (register j fds)"
  by (induction j fds rule: register.induct) auto

lemma length_register: "length (register j fds) = 2 * length fds"
  by (induction j fds rule: register.induct) auto

lemma server_start_ok:
  assumes "distinct (map fst (register 0 fds))"
  shows "map_ok (server_start adj fds now) \<and> listener_fds (server_start adj fds now) = map snd fds"
  using assms register_listener [of _ _ 0 fds] register_no_conn [of _ _ 0 fds]
  by (auto simp: server_start_def map_ok_def listener_fds_def listener_init_def comp_def)

lemma main_reach_size:
  assumes "main_reach up tb sv adj n m"
  shows "map_ok m \<and> m_adj m = adj \<and> length (listener_fds m) = n \<and> length (m_map m) \<le> map_limit m"
  using assms
proof induction
  case (start fds now)
  from server_start_ok [OF start(1)] start(2) show ?case
    by (simp add: map_limit_def Let_def) (simp add: server_start_def length_register)
next
  case (pass m io)
  then have ok: "map_ok m" "length (m_map m) \<le> map_limit m" by simp_all
  note ss = poll_fun_servers [OF ok(1), of up io, unfolded same_servers_def]
  then have "map_limit (snd (poll_fun up io m)) = map_limit m" by (simp add: map_limit_def)
  with poll_size [OF ok(1) pass(2) ok(2), of up] pass(3) ss show ?case by simp
next
  case (serve m k j)
  then show ?case using change_channel_size by simp
next
  case (cancel m k j)
  then show ?case using change_channel_size by simp
qed

subsection \<open>An example\<close>

text \<open>The first pass of a server with the default settings accepts a connection.\<close>

definition sample_io :: io where
  "sample_io = \<lparr>io_now = 5, io_select = (\<lambda>r w e. Selected (filter (\<lambda>fd. fd \<in> {4, 6}) (remdups r)) [] []),
     io_poll = (\<lambda>fs. Inr []), io_recv = (\<lambda>fd. RecvGone), io_accept = (\<lambda>l. Accepted (l + 5) 65536 [] []),
     io_lockable = (\<lambda>fd. True), io_error = (\<lambda>fd. False)\<rparr>"

definition sample_main :: main where
  "sample_main = snd (poll_fun False sample_io (server_start default_adjustments [(3, 4)] 0))"

lemma sample_io_ok: "io_ok sample_io"
  by (auto simp: io_ok_def sample_io_def)

lemma sample_main_reach: "main_reach False tb sv default_adjustments 1 sample_main"
  unfolding sample_main_def by (intro main_reach.pass main_reach.start sample_io_ok) simp_all

lemma sample_main_map: "m_map sample_main = [(3, Trigger 0), (4, Listener 0), (9, Conn 0)]"
  by code_simp

lemma sample_main_channels: "m_channels sample_main = [channel_init default_adjustments 65536 [] [] 5]"
  by code_simp





subsection \<open>Properties\<close>






definition channels_ok :: "(exn \<Rightarrow> string) \<Rightarrow> (nat \<Rightarrow> server_info) \<Rightarrow> main \<Rightarrow> bool" where
  "channels_ok tb sv m \<longleftrightarrow> (\<forall>k < length (m_channels m). reachable tb (sv k) (m_channels m ! k))"

lemma channels_ok_all:
  assumes "channels_ok tb sv m" "\<And>k c. reachable tb (sv k) c \<Longrightarrow> reachable tb (sv k) (f k c)"
  shows "channels_ok tb sv (all_channels f m)"
  using assms by (simp add: channels_ok_def)

lemma channels_ok_change:
  assumes ok: "channels_ok tb sv m"
    and f: "k < length (m_channels m) \<Longrightarrow> reachable tb (sv k) (m_channels m ! k) \<Longrightarrow> reachable tb (sv k) (f (m_channels m ! k))"
  shows "channels_ok tb sv (change_channel k f m)"
  unfolding channels_ok_def
proof (intro allI impI)
  fix j
  assume "j < length (m_channels (change_channel k f m))"
  then have j: "j < length (m_channels m)" by simp
  with ok have "reachable tb (sv j) (m_channels m ! j)" by (simp add: channels_ok_def)
  with f j show "reachable tb (sv j) (m_channels (change_channel k f m) ! j)"
    by (cases "j = k") simp_all
qed

lemma channels_ok_cong: "m_channels m' = m_channels m \<Longrightarrow> channels_ok tb sv m' = channels_ok tb sv m"
  by (simp add: channels_ok_def)

lemma channels_ok_accept:
  assumes "channels_ok tb sv m" "io_ok io" "\<And>k. sv_adj (sv k) = m_adj m"
  shows "channels_ok tb sv (handle_accept io i m)"
proof (cases "io_accept io (l_fd (m_listeners m ! i))")
  case (Accepted fd sndbuf net sched)
  with assms(2) have "0 < sndbuf" unfolding io_ok_def by blast
  from reachable.init [OF this, of tb "sv (length (m_channels m))" net sched "m_now m"] assms(1,3) Accepted
  show ?thesis by (auto simp: channels_ok_def handle_accept_def nth_append less_Suc_eq)
qed (use assms(1) in \<open>simp_all add: handle_accept_def channels_ok_def\<close>)

lemma channels_ok_read:
  assumes "channels_ok tb sv m" "io_ok io" "\<And>k. sv_adj (sv k) = m_adj m"
  shows "channels_ok tb sv (poll_read io fd m)"
  using assms channels_ok_accept [OF assms]
  by (auto simp: poll_read_def intro!: channels_ok_change reachable.main split: option.splits obj.splits)

lemma channels_ok_write: "channels_ok tb sv m \<Longrightarrow> channels_ok tb sv (poll_write io fd m)"
  by (auto simp: poll_write_def intro!: channels_ok_change reachable.main split: option.splits obj.splits)

lemma channels_ok_exception: "channels_ok tb sv m \<Longrightarrow> channels_ok tb sv (poll_exception io fd m)"
  using channels_ok_cong [of "server_close i m" m for i]
  by (auto simp: poll_exception_def intro!: channels_ok_change reachable.main split: option.splits obj.splits)

text \<open>The events of one answer of \<^verbatim>\<open>poll()\<close> are events of the main thread, one after the other.\<close>

lemma channel_readwrite_reachable:
  assumes c: "reachable tb sv c" and "c_socket c"
  shows "reachable tb sv (channel_readwrite r lockable err f c)"
proof -
  have close: "reachable tb sv (handle_close d)" if "reachable tb sv d" for d
    using reachable.main [OF that, of PollError] reachable.main [OF that, of LateError] by (cases "c_socket d") simp_all
  have wr: "reachable tb sv (handle_write lockable d)" if "reachable tb sv d" for d
    using reachable.main [OF that, of "PollWrite lockable"] reachable.main [OF that, of "LateWrite lockable"]
    by (cases "c_socket d") simp_all
  obtain e c1 where h: "handle_read r c = (e, c1)" by fastforce
  have "reachable tb sv (main_step (PollRead r) c)" by (rule reachable.main [OF c])
  then have "reachable tb sv (case e of None \<Rightarrow> c1 | Some x \<Rightarrow> handle_close c1)"
    using assms(2) h by (simp split: option.split)
  with c h show ?thesis
    by (cases e) (simp_all add: channel_readwrite_def Let_def close wr)
qed

lemma channels_ok_readwrite:
  assumes "channels_ok tb sv m" "io_ok io" "\<And>k. sv_adj (sv k) = m_adj m" "map_ok m"
  shows "channels_ok tb sv (readwrite io ff m)"
proof -
  obtain fd f where ff: "ff = (fd, f)" by fastforce
  show ?thesis
  proof (cases "map_of (m_map m) fd")
    case (Some x)
    show ?thesis
    proof (cases x)
      case (Conn k)
      with Some assms(4) have "c_socket (m_channels m ! k)" by (auto simp: map_ok_def dest: map_of_SomeD)
      then show ?thesis
        using Some Conn assms(1) by (simp add: readwrite_def ff channels_ok_change channel_readwrite_reachable)
    next
      case (Listener i)
      have "channels_ok tb sv m'" if "m_channels m' = m_channels (handle_accept io i m) \<or> m_channels m' = m_channels m" for m'
        using that channels_ok_accept [OF assms(1-3), of i] channels_ok_cong assms(1) by metis
      then show ?thesis using Some Listener by (simp add: readwrite_def ff Let_def)
    qed (use Some assms(1) channels_ok_cong [of "trigger_close i m" m for i] in \<open>simp add: readwrite_def ff trigger_close_def\<close>)
  qed (use assms(1) in \<open>simp add: readwrite_def ff\<close>)
qed

lemma server_readable_channels:
  "m_channels (snd (server_readable i m)) =
     (if l_next_cleanup (m_listeners m ! i) \<le> int (m_now m)
      then map (\<lambda>k. let c = m_channels m ! k in
          if m_owner m ! k = i then main_step (Maintenance (nat (int (m_now m) - adj_channel_timeout (m_adj m)))) c else c)
        [0..<length (m_channels m)]
      else m_channels m)"
  by (simp add: server_readable_def maintenance_def all_channels_def Let_def del: main_step.simps)

lemma channels_ok_readable:
  assumes "channels_ok tb sv m"
  shows "channels_ok tb sv (snd (obj_readable x m))"
proof -
  have "channels_ok tb sv (snd (server_readable i m))" for i
    using assms by (auto simp: channels_ok_def server_readable_channels Let_def reachable.main simp del: main_step.simps)
  with assms show ?thesis by (simp add: obj_readable_def split: obj.split)
qed

lemma channels_ok_ask: "channels_ok tb sv m \<Longrightarrow> channels_ok tb sv (snd (poll_ask xs m))"
proof (induction xs arbitrary: m)
  case (Cons y xs)
  obtain fd x where y: "y = (fd, x)" by fastforce
  obtain b m1 where 1: "obj_readable x m = (b, m1)" by fastforce
  with channels_ok_readable [OF Cons.prems, of x] have "channels_ok tb sv m1" by simp
  from Cons.IH [OF this] show ?case
    by (cases "poll_ask xs m1"; cases "fst (poll_ask xs m1)") (auto simp: y 1 Let_def split: prod.split)
qed simp

lemma channels_ok_ask2: "channels_ok tb sv m \<Longrightarrow> channels_ok tb sv (snd (poll2_ask xs m))"
proof (induction xs arbitrary: m)
  case (Cons y xs)
  obtain fd x where y: "y = (fd, x)" by fastforce
  obtain b m1 where 1: "obj_readable x m = (b, m1)" by fastforce
  with channels_ok_readable [OF Cons.prems, of x] have "channels_ok tb sv m1" by simp
  from Cons.IH [OF this] show ?case by (cases "poll2_ask xs m1") (auto simp: y 1 Let_def)
qed simp

definition all_ok :: "(exn \<Rightarrow> string) \<Rightarrow> (nat \<Rightarrow> server_info) \<Rightarrow> main \<Rightarrow> bool" where
  "all_ok tb sv m \<longleftrightarrow> channels_ok tb sv m \<and> map_ok m \<and> (\<forall>k. sv_adj (sv k) = m_adj m)"

lemma all_ok_fold: "(\<And>e m. all_ok tb sv m \<Longrightarrow> all_ok tb sv (f e m)) \<Longrightarrow> all_ok tb sv m \<Longrightarrow> all_ok tb sv (fold f es m)"
  by (induction es arbitrary: m) simp_all

lemma all_ok_steps:
  assumes "all_ok tb sv m" "io_ok io"
  shows "all_ok tb sv (poll_read io fd m)" "all_ok tb sv (poll_write io fd m)" "all_ok tb sv (poll_exception io fd m)"
    "all_ok tb sv (readwrite io ff m)"
  using assms channels_ok_read [of tb sv m io] channels_ok_write [of tb sv m io] channels_ok_exception [of tb sv m io]
    channels_ok_readwrite [of tb sv m io] reads.inv_step [of m io] writes.inv_step [of m io] exceptions.inv_step [of m io]
    readwrites.inv_step [of m io] step_servers [of m io]
  by (simp_all add: all_ok_def same_servers_def)

lemma channels_ok_poll:
  assumes ok: "all_ok tb sv m" and io: "io_ok io"
  shows "channels_ok tb sv (snd (poll_fun up io m))"
proof -
  let ?m = "set_clock (io_now io) m"
  have mp: "map_ok m" using ok by (simp add: all_ok_def)
  have "channels_ok tb sv ?m"
    using ok unfolding set_clock_def by (intro channels_ok_all reachable.main) (simp_all add: all_ok_def channels_ok_def)
  then have asked: "channels_ok tb sv (snd (poll_ask xs ?m))" "channels_ok tb sv (snd (poll2_ask xs ?m))" for xs
    by (rule channels_ok_ask, rule channels_ok_ask2)
  have all: "all_ok tb sv m1" if "asks_only m m1" "channels_ok tb sv m1" for m1
    using that ok asks_only_ok [OF that(1)] asks_only_servers [OF that(1)] by (simp add: all_ok_def same_servers_def)
  show ?thesis
  proof (cases up)
    case True
    obtain fs m1 where a: "poll2_ask (m_map ?m) ?m = (fs, m1)" by fastforce
    have m1: "all_ok tb sv m1" using all [OF poll2_asks [OF mp a]] asked(2) [of "m_map ?m"] by (simp add: a)
    have "all_ok tb sv (fold (readwrite io) rs m1)" for rs by (rule all_ok_fold [OF all_ok_steps(4) [OF _ io] m1])
    with True m1 show ?thesis by (simp add: poll_fun_def poll2_def Let_def a all_ok_def split: sum.split)
  next
    case False
    obtain r w e m1 where a: "poll_ask (m_map ?m) ?m = ((r, w, e), m1)" by (metis prod.exhaust)
    have m1: "all_ok tb sv m1" using all [OF poll_asks [OF mp a]] asked(1) [of "m_map ?m"] by (simp add: a)
    have "all_ok tb sv (fold (poll_exception io) e' (fold (poll_write io) w' (fold (poll_read io) r' m1)))" for r' w' e'
      by (intro all_ok_fold all_ok_steps io m1)
    with False m1 show ?thesis by (simp add: poll_fun_def poll_def Let_def a all_ok_def split: selected.split)
  qed
qed

text \<open>
  C7: The parts fit together. In every state that the servers reach, with the loop on \<^verbatim>\<open>select\<close> or on \<^verbatim>\<open>poll()\<close>, every
  channel they created is in a state that \<^const>\<open>reachable\<close> describes, which only knows one connection: so all that is
  proved of such channels holds for each connection of the server, among them that the counts of the output
  buffers are right and that there is at most one task.
\<close>

theorem server_channels_reachable:
  assumes "main_reach use_poll tb sv adj n m" "\<And>k. sv_adj (sv k) = adj" "k < length (m_channels m)"
  shows "reachable tb (sv k) (m_channels m ! k)"
proof -
  from assms(1) have "channels_ok tb sv m"
  proof induction
    case (start fds now)
    show ?case by (simp add: channels_ok_def server_start_def)
  next
    case (pass m io)
    with main_reach_size [OF pass(1)] assms(2) channels_ok_poll show ?case by (simp add: all_ok_def)
  next
    case (serve m k j)
    then show ?case by (intro channels_ok_change) (auto intro: reachable.serve)
  next
    case (cancel m k j)
    then show ?case by (intro channels_ok_change) (auto intro: reachable.cancel)
  qed
  with assms(3) show ?thesis by (simp add: channels_ok_def)
qed

theorem server_channels_reachable_witness:
  "reachable (\<lambda>e. []) sample_server (m_channels sample_main ! 0)"
  by (rule server_channels_reachable [where sv = "\<lambda>k. sample_server", OF sample_main_reach])
    (simp_all add: sample_main_channels, simp add: sample_server_def)





end
