(* ===== verification/Events.thy ===== *)
theory Events
  imports Asyncore Connections
begin

text \<open>
  The objects of the program as objects of \<^verbatim>\<open>wasyncore.py\<close>: the methods that \<^verbatim>\<open>HTTPChannel\<close>, \<^verbatim>\<open>BaseWSGIServer\<close> and the
  trigger give to the loop, as they are in \<open>Channel\<close> and \<open>Server\<close>. The events that these theories write out are
  those of the class, so what is proved of the class holds for each object.
\<close>

section \<open>The channel\<close>

definition channel_methods :: "recv_result \<Rightarrow> bool \<Rightarrow> bool \<Rightarrow> channel methods" where
  "channel_methods r lockable err =
     \<lparr>is_accepting = (\<lambda>c. False), is_connected = c_connected, is_connecting = (\<lambda>c. False), has_socket = c_socket,
      so_error = (\<lambda>c. Inr (if err then Some (Errno 1) else None)),
      now_connected = (\<lambda>c. c\<lparr>c_connected := True\<rparr>),
      on_read = (\<lambda>c. (map_option Raised (fst (handle_read r c)), snd (handle_read r c))),
      on_write = (\<lambda>c. (None, handle_write lockable c)),
      on_expt = skip_event, on_connect = skip_event, on_accept = skip_event,
      on_close = (\<lambda>c. (None, handle_close c)), on_error = (\<lambda>c. (None, handle_close c))\<rparr>"

definition channel_closed :: "channel \<Rightarrow> bool" where
  "channel_closed c \<longleftrightarrow> \<not> c_socket c \<and> \<not> c_connected c"

interpretation channel_events: event_object "channel_methods r lockable err" "\<lambda>c. True" channel_closed for r lockable err
  by unfold_locales (auto simp: channel_methods_def channel_closed_def handle_close_def)






section \<open>Sockets of a channel\<close>

text \<open>How the answers of the operating system are sorted in \<^typ>\<open>net_result\<close> and \<^typ>\<open>recv_result\<close>.\<close>

definition net_of_errno :: "errno \<Rightarrow> net_result" where
  "net_of_errno e = (if e = EWOULDBLOCK then WouldBlock else if disconnected e then Gone else NetError)"

definition recv_of :: "errno + bytes \<Rightarrow> recv_result" where
  "recv_of r = (case r of Inl e \<Rightarrow> if disconnected e then RecvGone else RecvError | Inr d \<Rightarrow> Recv d)"

lemma channel_send_error:
  assumes "c_socket c"
  shows "sock_send do_close data (c\<lparr>c_net := net_of_errno e # rs\<rparr>) =
    (case asyncore_send (channel_methods r lockable err) do_close (Inl e) (c\<lparr>c_net := rs\<rparr>) of
       (Inl x, c1) \<Rightarrow> (Inl OSError, c1) | (Inr n, c1) \<Rightarrow> (Inr n, c1))"
  using assms by (simp add: sock_send_def net_of_errno_def asyncore_send_def channel_methods_def Let_def)

text \<open>\<^verbatim>\<open>HTTPChannel.handle_read\<close> over \<^verbatim>\<open>dispatcher.recv\<close>.\<close>

definition recv_and_handle :: "channel methods \<Rightarrow> errno + bytes \<Rightarrow> channel \<Rightarrow> exn option \<times> channel" where
  "recv_and_handle M r c =
     (case asyncore_recv M r c of
        (Inl x, c1) \<Rightarrow> (None, handle_close c1)
      | (Inr data, c1) \<Rightarrow>
          if data \<noteq> [] then received data (c1\<lparr>c_last_activity := c_now c1\<rparr>) else (None, c1\<lparr>c_connected := False\<rparr>))"

lemma channel_recv:
  assumes "\<And>d. r = Inr d \<Longrightarrow> length d \<le> nat (adj_recv_bytes (c_adj c))"
  shows "handle_read (recv_of r) c = recv_and_handle (channel_methods x lockable err) r c"
  using assms
  by (cases r) (auto simp: recv_and_handle_def recv_of_def asyncore_recv_def handle_read_def channel_methods_def Let_def)

section \<open>The server and its trigger\<close>

text \<open>
  The listening socket, an object over the state of the main thread. \<^verbatim>\<open>handle_accept\<close> catches an \<^verbatim>\<open>OSError\<close> of
  \<^verbatim>\<open>accept\<close>, but not one of the constructor of the channel.
\<close>

definition listener_error :: "io \<Rightarrow> nat \<Rightarrow> main \<Rightarrow> bool" where
  "listener_error io i m \<longleftrightarrow> io_error io (l_fd (m_listeners m ! i))"

definition accept_event :: "io \<Rightarrow> nat \<Rightarrow> main handler" where
  "accept_event io i m =
     (case io_accept io (l_fd (m_listeners m ! i)) of
        Channel_OSError \<Rightarrow> (Some (OSErr (Errno 1)), m)
      | _ \<Rightarrow> (None, handle_accept io i m))"

definition server_methods :: "io \<Rightarrow> nat \<Rightarrow> main methods" where
  "server_methods io i =
     \<lparr>is_accepting = listening i, is_connected = (\<lambda>m. False), is_connecting = (\<lambda>m. False), has_socket = listening i,
      so_error = (\<lambda>m. Inr (if listener_error io i m then Some (Errno 1) else None)),
      now_connected = id, on_read = skip_event, on_write = skip_event, on_expt = skip_event, on_connect = skip_event,
      on_accept = accept_event io i,
      on_close = (\<lambda>m. (None, server_close i m)), on_error = (\<lambda>m. (None, server_close i m))\<rparr>"

definition server_ok :: "nat \<Rightarrow> main \<Rightarrow> bool" where
  "server_ok i m \<longleftrightarrow> i < length (m_listeners m)"

definition server_closed :: "nat \<Rightarrow> main \<Rightarrow> bool" where
  "server_closed i m \<longleftrightarrow> \<not> listening i m \<and> Listener i \<notin> snd ` set (m_map m) \<and> Trigger i \<notin> snd ` set (m_map m)"

lemma server_close_closed: "server_ok i m \<Longrightarrow> server_closed i (server_close i m) \<and> server_ok i (server_close i m)"
  by (auto simp: server_closed_def server_ok_def listening_def server_close_def change_listener_def)

lemma accept_event_ok: "server_ok i m \<Longrightarrow> server_ok i (snd (accept_event io i m))"
  by (simp add: accept_event_def handle_accept_def server_ok_def split: accepted.split)

interpretation server_events: event_object "server_methods io i" "server_ok i" "server_closed i" for io i
  by unfold_locales (auto simp: server_methods_def server_close_closed skip_event_def accept_event_ok)




text \<open>The trigger, of which the loop only sees that it may be closed; what it reads is in \<open>Pipe_Trigger\<close>.\<close>

definition trigger_methods :: "nat \<Rightarrow> main methods" where
  "trigger_methods i =
     \<lparr>is_accepting = (\<lambda>m. False), is_connected = (\<lambda>m. True), is_connecting = (\<lambda>m. False),
      has_socket = (\<lambda>m. Trigger i \<in> snd ` set (m_map m)), so_error = (\<lambda>m. Inr None),
      now_connected = id, on_read = skip_event, on_write = skip_event, on_expt = skip_event, on_connect = skip_event,
      on_accept = skip_event,
      on_close = (\<lambda>m. (None, trigger_close i m)), on_error = (\<lambda>m. (None, trigger_close i m))\<rparr>"

interpretation trigger_events: event_object "trigger_methods i" "\<lambda>m. True" "\<lambda>m. Trigger i \<notin> snd ` set (m_map m)" for i
  by unfold_locales (auto simp: trigger_methods_def trigger_close_def)


section \<open>All objects\<close>















end
