(* ===== verification/Sockets.thy ===== *)
theory Sockets
  imports Startup Events
begin

text \<open>
  How a server gets its socket: the constructors of \<^verbatim>\<open>BaseWSGIServer\<close>, \<^verbatim>\<open>TcpWSGIServer\<close> and \<^verbatim>\<open>UnixWSGIServer\<close> over the
  socket methods of \<^verbatim>\<open>wasyncore.dispatcher\<close>, \<^verbatim>\<open>cleanup_unix_socket\<close>, the servers of \<^verbatim>\<open>create_server\<close> in one map; and
  \<^verbatim>\<open>run\<close> and \<^verbatim>\<open>close\<close>. What a call of the operating system answers is in a record \<open>os\<close>; the file system is a list
  of paths. Numbers of options are those of Linux.
\<close>

section \<open>Sockets and files\<close>

datatype bind_address = Tcp_Address addrinfo | Unix_Address string

record os_socket =
  so_fd :: nat
  so_family :: family
  so_type :: int
  so_blocking :: bool
  so_options :: "((int \<times> int) \<times> int) list"
  so_bound :: "bind_address option"
  so_backlog :: "int option"

record inode =
  in_socket :: bool     \<comment> \<open>\<^verbatim>\<open>stat.S_ISSOCK\<close>\<close>
  in_mode :: int

type_synonym fs = "(string \<times> inode) list"

record os =
  os_pipe :: "errno + nat"                        \<comment> \<open>the descriptor under which the trigger is registered\<close>
  os_socket :: "family \<Rightarrow> int \<Rightarrow> errno + nat"
  os_sockopt :: "int \<Rightarrow> int \<Rightarrow> errno option"        \<comment> \<open>raised by \<^verbatim>\<open>getsockopt\<close> or \<^verbatim>\<open>setsockopt\<close>\<close>
  os_bind :: "bind_address \<Rightarrow> errno option"
  os_listen :: "errno option"
  os_stat :: "string \<Rightarrow> errno option"             \<comment> \<open>besides that there is no file\<close>
  os_remove :: "string \<Rightarrow> errno option"
  os_chmod :: "string \<Rightarrow> errno option"
  os_mode :: int                                  \<comment> \<open>of a new socket in the file system, by the \<^verbatim>\<open>umask\<close>\<close>
  os_name :: "bind_address option \<Rightarrow> raised + string \<times> string"    \<comment> \<open>\<^verbatim>\<open>getsockname\<close>, and \<^verbatim>\<open>getnameinfo\<close> of it\<close>
  os_nt :: bool

text \<open>
  \<^verbatim>\<open>compat.py\<close>: the two constants of IPv6, where Python does not know them, and whether IPv6 is used. Then
  \<^verbatim>\<open>server.py\<close> imports both names, which fails when \<^verbatim>\<open>compat.py\<close> gave them no value.
\<close>

definition compat :: "bool \<Rightarrow> (int \<times> int) option \<Rightarrow> bool \<Rightarrow> bool \<times> (int \<times> int) option" where
  "compat win known has_ipv6 =
     (case known of
        Some c \<Rightarrow> (has_ipv6, Some c)
      | None \<Rightarrow> if win then (has_ipv6, Some (41, 27)) else (False, None))"

definition import_compat :: "bool \<times> (int \<times> int) option \<Rightarrow> exn + int \<times> int" where
  "import_compat c = (case snd c of None \<Rightarrow> Inl (AppError ''ImportError'') | Some v \<Rightarrow> Inr v)"

definition IPPROTO_IPV6 :: int where "IPPROTO_IPV6 = 41"
definition IPV6_V6ONLY :: int where "IPV6_V6ONLY = 26"
definition SO_REUSEADDR :: int where "SO_REUSEADDR = 2"
definition SOCK_STREAM :: int where "SOCK_STREAM = 1"

definition get_option :: "int \<Rightarrow> int \<Rightarrow> os_socket \<Rightarrow> int" where
  "get_option level opt s = (case map_of (so_options s) (level, opt) of None \<Rightarrow> 0 | Some v \<Rightarrow> v)"

definition put_option :: "int \<Rightarrow> int \<Rightarrow> int \<Rightarrow> os_socket \<Rightarrow> os_socket" where
  "put_option level opt v s = s\<lparr>so_options := AList.update (level, opt) v (so_options s)\<rparr>"

definition sock_methods :: "os_socket socket_methods" where
  "sock_methods = \<lparr>k_fileno = so_fd, k_error = (\<lambda>s. Inr None), k_close = (\<lambda>s. None)\<rparr>"

text \<open>That IPv6 is switched off for a system without the constants is never seen: the server can not be imported there.\<close>

theorem ipv6_fallback_unreachable:
  "import_compat (compat win known has_ipv6) = Inr c \<longrightarrow> fst (compat win known has_ipv6) = has_ipv6"
  "import_compat (compat win known has_ipv6) = Inl e \<longleftrightarrow> e = AppError ''ImportError'' \<and> \<not> win \<and> known = None"
  by (auto simp: import_compat_def compat_def split: option.splits)

text \<open>\<^verbatim>\<open>cleanup_unix_socket\<close>: only a socket is removed, and that this fails is ignored.\<close>

definition path_stat :: "os \<Rightarrow> string \<Rightarrow> fs \<Rightarrow> errno + inode" where
  "path_stat os path fs =
     (case os_stat os path of
        Some e \<Rightarrow> Inl e
      | None \<Rightarrow> (case map_of fs path of None \<Rightarrow> Inl ENOENT | Some n \<Rightarrow> Inr n))"

definition cleanup_unix_socket :: "os \<Rightarrow> string \<Rightarrow> fs handler" where
  "cleanup_unix_socket os path fs =
     (case path_stat os path fs of
        Inl e \<Rightarrow> if e \<noteq> ENOENT then (Some (OSErr e), fs) else (None, fs)
      | Inr st \<Rightarrow>
          if in_socket st
          then (case os_remove os path of Some e \<Rightarrow> (None, fs) | None \<Rightarrow> (None, AList.delete path fs))
          else (None, fs))"

text \<open>\<^verbatim>\<open>bind\<close> of a path makes a socket there, unless there is something.\<close>

definition bind_path :: "os \<Rightarrow> string \<Rightarrow> fs handler" where
  "bind_path os path fs =
     (if map_of fs path \<noteq> None then (Some (OSErr EADDRINUSE), fs)
      else case os_bind os (Unix_Address path) of
             Some e \<Rightarrow> (Some (OSErr e), fs)
           | None \<Rightarrow> (None, AList.update path \<lparr>in_socket = True, in_mode = os_mode os\<rparr> fs))"

definition chmod_existing :: "os \<Rightarrow> string \<Rightarrow> int \<Rightarrow> fs handler" where
  "chmod_existing os path mode fs =
     (case map_of fs path of
        None \<Rightarrow> (None, fs)
      | Some n \<Rightarrow>
          (case os_chmod os path of
             Some e \<Rightarrow> (Some (OSErr e), fs)
           | None \<Rightarrow> (None, AList.update path (n\<lparr>in_mode := mode\<rparr>) fs)))"

section \<open>The socket methods of dispatcher\<close>

type_synonym server_disp = "(os_socket, obj) disp"

definition on_socket :: "(os_socket \<Rightarrow> errno option \<times> os_socket) \<Rightarrow> server_disp handler" where
  "on_socket f d =
     (case dp_socket d of
        None \<Rightarrow> (Some (Raised attribute_error), d)
      | Some s \<Rightarrow> (map_option OSErr (fst (f s)), d\<lparr>dp_socket := Some (snd (f s))\<rparr>))"

definition setsockopt :: "os \<Rightarrow> int \<Rightarrow> int \<Rightarrow> int \<Rightarrow> os_socket \<Rightarrow> errno option \<times> os_socket" where
  "setsockopt os level opt v s =
     (case os_sockopt os level opt of Some e \<Rightarrow> (Some e, s) | None \<Rightarrow> (None, put_option level opt v s))"

definition create_socket :: "os \<Rightarrow> family \<Rightarrow> int \<Rightarrow> server_disp handler" where
  "create_socket os fam type d =
     (case os_socket os fam type of
        Inl e \<Rightarrow> (Some (OSErr e), d)
      | Inr fd \<Rightarrow>
          (None, set_socket sock_methods
             \<lparr>so_fd = fd, so_family = fam, so_type = type, so_blocking = False, so_options = [], so_bound = None,
              so_backlog = None\<rparr> d))"

definition set_reuse_addr :: "os \<Rightarrow> server_disp handler" where
  "set_reuse_addr os =
     on_socket (\<lambda>s. (None, snd (setsockopt os SOL_SOCKET SO_REUSEADDR (or (get_option SOL_SOCKET SO_REUSEADDR s) 1) s)))"

definition disp_listen :: "os \<Rightarrow> int \<Rightarrow> server_disp handler" where
  "disp_listen os num d =
     on_socket (\<lambda>s. case os_listen os of Some e \<Rightarrow> (Some e, s)
         | None \<Rightarrow> (None, s\<lparr>so_backlog := Some (if os_nt os \<and> 5 < num then 5 else num)\<rparr>))
       (d\<lparr>dp_accepting := True\<rparr>)"

text \<open>
  The address for messages: a pair for IPv4; anything else by its \<^verbatim>\<open>repr\<close>, here of strings without quotes,
  backslashes and control characters.
\<close>

definition py_quoted :: "string \<Rightarrow> string" where
  "py_quoted s = CHR 0x27 # s @ [CHR 0x27]"

definition address_of :: "bind_address \<Rightarrow> address" where
  "address_of a =
     (case a of
        Tcp_Address ai \<Rightarrow>
          if ai_rest ai = [] then Inet (ai_host ai) (ai_port ai)
          else Opaque (''('' @ py_quoted (ai_host ai) @ '', '' @ str_of_int (ai_port ai)
                 @ concat (map (\<lambda>n. '', '' @ str_of_int n) (ai_rest ai)) @ '')'')
      | Unix_Address p \<Rightarrow> Opaque (py_quoted p))"

definition disp_bind :: "(bind_address \<Rightarrow> errno option) \<Rightarrow> bind_address \<Rightarrow> server_disp handler" where
  "disp_bind result a d =
     on_socket (\<lambda>s. case result a of Some e \<Rightarrow> (Some e, s) | None \<Rightarrow> (None, s\<lparr>so_bound := Some a\<rparr>))
       (d\<lparr>dp_addr := Some (address_of a)\<rparr>)"

section \<open>The constructor of a server\<close>

datatype server_kind = Tcp_Server | Unix_Server

record srv =
  su_disp :: server_disp
  su_fs :: fs
  su_trigger :: "nat option"
  su_name :: "(string \<times> string) option"   \<comment> \<open>\<^verbatim>\<open>effective_host\<close> and \<^verbatim>\<open>effective_port\<close>\<close>

definition on_disp :: "server_disp handler \<Rightarrow> srv handler" where
  "on_disp h st = (fst (h (su_disp st)), st\<lparr>su_disp := snd (h (su_disp st))\<rparr>)"

definition on_fs :: "fs handler \<Rightarrow> srv handler" where
  "on_fs h st = (fst (h (su_fs st)), st\<lparr>su_fs := snd (h (su_fs st))\<rparr>)"

text \<open>\<^verbatim>\<open>trigger.trigger(map)\<close>.\<close>

definition open_trigger :: "os \<Rightarrow> nat \<Rightarrow> srv handler" where
  "open_trigger os i st =
     (case os_pipe os of
        Inl e \<Rightarrow> (Some (OSErr e), st)
      | Inr t \<Rightarrow>
          (None, st\<lparr>su_trigger := Some t,
                    su_disp := (su_disp st)\<lparr>dp_map := AList.update t (Trigger i) (dp_map (su_disp st))\<rparr>\<rparr>))"

definition init_socket :: "os \<Rightarrow> os_socket option \<Rightarrow> family \<Rightarrow> int \<Rightarrow> server_disp handler" where
  "init_socket os sock fam type =
     (case sock of
        Some s \<Rightarrow> (\<lambda>d. (None, set_socket sock_methods (s\<lparr>so_blocking := False\<rparr>) d))
      | None \<Rightarrow>
          seq (create_socket os fam type)
            (if fam = AF_INET6 then on_socket (setsockopt os IPPROTO_IPV6 IPV6_V6ONLY 1) else skip_event))"

text \<open>\<^verbatim>\<open>self.bind(path)\<close>: the address is noted before the call.\<close>

definition bind_unix :: "os \<Rightarrow> string \<Rightarrow> srv handler" where
  "bind_unix os path st =
     (let a = Unix_Address path;
          st1 = st\<lparr>su_disp := (su_disp st)\<lparr>dp_addr := Some (address_of a)\<rparr>\<rparr>
      in seq (on_fs (bind_path os path)) (on_disp (disp_bind (\<lambda>a. None) a)) st1)"

definition bind_server_socket :: "os \<Rightarrow> config \<Rightarrow> bind_address \<Rightarrow> srv handler" where
  "bind_server_socket os c a =
     (case a of
        Tcp_Address ai \<Rightarrow> on_disp (disp_bind (os_bind os) a)
      | Unix_Address path \<Rightarrow>
          seq (on_fs (cleanup_unix_socket os path))
            (seq (bind_unix os path)
              (on_fs (chmod_existing os path (cf_unix_socket_perms c)))))"

definition get_name :: "os \<Rightarrow> server_kind \<Rightarrow> srv handler" where
  "get_name os kind st =
     (case dp_socket (su_disp st) of
        None \<Rightarrow> (Some (Raised attribute_error), st)
      | Some s \<Rightarrow>
          (case os_name os (so_bound s) of
             Inl x \<Rightarrow> (Some x, st)
           | Inr (host, port) \<Rightarrow>
               (None, st\<lparr>su_name := Some (case kind of Tcp_Server \<Rightarrow> (host, port) | Unix_Server \<Rightarrow> (''unix'', port))\<rparr>)))"

definition accept_connections :: "os \<Rightarrow> config \<Rightarrow> server_disp handler" where
  "accept_connections os c d =
     on_socket (\<lambda>s. case os_listen os of Some e \<Rightarrow> (Some e, s) | None \<Rightarrow> (None, s\<lparr>so_backlog := Some (cf_backlog c)\<rparr>))
       (d\<lparr>dp_accepting := True\<rparr>)"

text \<open>\<^verbatim>\<open>__init__\<close> with a socket of its own or a given one, and an address to bind unless \<^verbatim>\<open>bind_socket\<close> is false.\<close>

definition init_server ::
  "os \<Rightarrow> server_kind \<Rightarrow> config \<Rightarrow> nat \<Rightarrow> os_socket option \<Rightarrow> family \<Rightarrow> int \<Rightarrow> bind_address option \<Rightarrow> bool \<Rightarrow> srv handler" where
  "init_server os kind c i sock fam type addr start =
     seq (open_trigger os i)
       (seq (on_disp (init_socket os sock fam type))
         (seq (on_disp (set_reuse_addr os))
           (seq (case addr of None \<Rightarrow> skip_event | Some a \<Rightarrow> bind_server_socket os c a)
             (seq (get_name os kind)
               (if start then on_disp (accept_connections os c) else skip_event)))))"

section \<open>The servers of create_server\<close>

definition given_socket :: "sock \<Rightarrow> os_socket" where
  "given_socket s =
     \<lparr>so_fd = sk_fileno s, so_family = sk_family s, so_type = (if sk_stream s then SOCK_STREAM else 0), so_blocking = True,
      so_options = [], so_bound = None, so_backlog = None\<rparr>"

definition init_endpoint :: "os \<Rightarrow> config \<Rightarrow> nat \<Rightarrow> endpoint \<Rightarrow> srv handler" where
  "init_endpoint os c i e =
     (case e of
        Tcp a \<Rightarrow> init_server os Tcp_Server c i None (ai_family a) (ai_type a) (Some (Tcp_Address a)) True
      | Unix_Path p \<Rightarrow> init_server os Unix_Server c i None AF_UNIX SOCK_STREAM (Some (Unix_Address p)) True
      | Tcp_Socket s \<Rightarrow> init_server os Tcp_Server c i (Some (given_socket s)) (sk_family s) SOCK_STREAM None True
      | Unix_Socket s \<Rightarrow> init_server os Unix_Server c i (Some (given_socket s)) (sk_family s) SOCK_STREAM None True)"

definition srv_init :: "nat \<Rightarrow> (nat \<times> obj) list \<Rightarrow> fs \<Rightarrow> srv" where
  "srv_init i mp fs =
     \<lparr>su_disp = disp_init sock_methods ''waitress.server.WSGIServer'' (Listener i) 0 mp None, su_fs = fs,
      su_trigger = None, su_name = None\<rparr>"

text \<open>The map and the file system are passed on; an exception leaves what was registered before.\<close>

fun open_servers ::
  "config \<Rightarrow> nat \<Rightarrow> (os \<times> endpoint) list \<Rightarrow> (nat \<times> obj) list \<times> fs \<Rightarrow> (raised + srv list) \<times> (nat \<times> obj) list \<times> fs" where
  "open_servers c i [] mf = (Inr [], mf)"
| "open_servers c i ((os, e) # es) mf =
     (case init_endpoint os c i e (srv_init i (fst mf) (snd mf)) of
        (Some x, st) \<Rightarrow> (Inl x, dp_map (su_disp st), su_fs st)
      | (None, st) \<Rightarrow>
          (case open_servers c (Suc i) es (dp_map (su_disp st), su_fs st) of
             (Inl x, mf1) \<Rightarrow> (Inl x, mf1)
           | (Inr sts, mf1) \<Rightarrow> (Inr (st # sts), mf1)))"

section \<open>Files that are not sockets\<close>

definition files_kept :: "fs \<Rightarrow> fs \<Rightarrow> bool" where
  "files_kept fs fs' \<longleftrightarrow> (\<forall>p n. map_of fs p = Some n \<and> \<not> in_socket n \<longrightarrow> map_of fs' p = Some n)"

definition keeps_files :: "srv handler \<Rightarrow> bool" where
  "keeps_files h \<longleftrightarrow> (\<forall>st. files_kept (su_fs st) (su_fs (snd (h st))))"

lemma files_kept_refl: "files_kept fs fs"
  by (simp add: files_kept_def)

lemma files_kept_trans: "files_kept a b \<Longrightarrow> files_kept b c \<Longrightarrow> files_kept a c"
  by (simp add: files_kept_def)

lemma keeps_files_seq:
  assumes "keeps_files f" "keeps_files g"
  shows "keeps_files (seq f g)"
  unfolding keeps_files_def
proof
  fix st
  obtain x st1 where f: "f st = (x, st1)" by fastforce
  then have "files_kept (su_fs st) (su_fs st1)" using assms(1) by (metis keeps_files_def snd_conv)
  moreover have "files_kept (su_fs st1) (su_fs (snd (g st1)))" using assms(2) by (simp add: keeps_files_def)
  ultimately show "files_kept (su_fs st) (su_fs (snd (seq f g st)))"
    using f by (auto simp: seq_def intro: files_kept_trans split: option.split)
qed

lemma keeps_files_same: "(\<And>st. su_fs (snd (h st)) = su_fs st) \<Longrightarrow> keeps_files h"
  by (simp add: keeps_files_def files_kept_refl)

lemma on_disp_fs [simp]: "su_fs (snd (on_disp h st)) = su_fs st"
  by (simp add: on_disp_def)

lemma cleanup_keeps: "files_kept fs (snd (cleanup_unix_socket os path fs))"
  by (auto simp: cleanup_unix_socket_def path_stat_def files_kept_def delete_conv' split: sum.splits option.splits)

lemma bind_unix_fs:
  "bind_unix os path st = (x, st') \<Longrightarrow> files_kept (su_fs st) (su_fs st')
     \<and> (x = None \<longrightarrow> map_of (su_fs st) path = None \<and> su_fs st' = AList.update path \<lparr>in_socket = True, in_mode = os_mode os\<rparr> (su_fs st))"
  by (auto simp: bind_unix_def Let_def seq_def on_fs_def bind_path_def files_kept_def update_conv' on_disp_def
      split: option.splits if_splits)

lemma bind_and_chmod_keeps:
  "keeps_files (seq (bind_unix os path) (on_fs (chmod_existing os path mode)))"
  unfolding keeps_files_def
proof
  fix st
  obtain x st1 where b: "bind_unix os path st = (x, st1)" by fastforce
  note k = bind_unix_fs [OF b]
  show "files_kept (su_fs st) (su_fs (snd (seq (bind_unix os path) (on_fs (chmod_existing os path mode)) st)))"
  proof (cases x)
    case None
    then have "map_of (su_fs st) path = None"
      "su_fs st1 = AList.update path \<lparr>in_socket = True, in_mode = os_mode os\<rparr> (su_fs st)" using k by simp_all
    then show ?thesis using b None k
      by (auto simp: seq_def on_fs_def chmod_existing_def update_conv' files_kept_def split: option.split)
  qed (use b k in \<open>simp add: seq_def\<close>)
qed

lemma init_server_keeps_files: "keeps_files (init_server os kind c i sock fam type addr start)"
proof -
  have t: "keeps_files (open_trigger os i)"
    by (rule keeps_files_same) (simp add: open_trigger_def split: sum.split)
  have n: "keeps_files (get_name os kind)"
    by (rule keeps_files_same) (auto simp: get_name_def split: option.split sum.split)
  have d: "keeps_files (on_disp h)" for h by (rule keeps_files_same) simp
  have s: "keeps_files skip_event" by (rule keeps_files_same) (simp add: skip_event_def)
  have cl: "keeps_files (on_fs (cleanup_unix_socket os path))" for path
    using cleanup_keeps by (simp add: keeps_files_def on_fs_def)
  have "keeps_files (bind_server_socket os c a)" for a
    by (cases a) (auto simp: bind_server_socket_def intro!: keeps_files_seq cl bind_and_chmod_keeps d)
  with t n d s show ?thesis
    unfolding init_server_def by (intro keeps_files_seq) (auto split: option.split)
qed

lemma init_endpoint_keeps_files: "keeps_files (init_endpoint os c i e)"
  by (cases e) (simp_all add: init_endpoint_def init_server_keeps_files)

text \<open>
  C30: No file is lost to a server. Whatever the addresses and paths to listen on, and whether the servers can
  be made or the attempt fails at any point, every file that was there and is not a socket is there afterwards
  with its mode: \<^verbatim>\<open>unix_socket\<close> only replaces sockets.
\<close>

theorem non_socket_files_survive:
  assumes "map_of fs p = Some n" "\<not> in_socket n"
  shows "map_of (snd (snd (open_servers c i es (mp, fs)))) p = Some n"
proof -
  have "files_kept fs (snd (snd (open_servers c i es (mp, fs))))"
  proof (induction es arbitrary: i mp fs)
    case (Cons y es)
    obtain os e where y: "y = (os, e)" by fastforce
    obtain x st where h: "init_endpoint os c i e (srv_init i mp fs) = (x, st)" by fastforce
    have "files_kept fs (su_fs st)"
      using init_endpoint_keeps_files [of os c i e, unfolded keeps_files_def, rule_format, of "srv_init i mp fs"] h
      by (simp add: srv_init_def)
    moreover have "files_kept (su_fs st) (snd (snd (open_servers c (Suc i) es (dp_map (su_disp st), su_fs st))))"
      by (rule Cons.IH)
    ultimately have "files_kept fs (snd (snd (open_servers c (Suc i) es (dp_map (su_disp st), su_fs st))))"
      by (rule files_kept_trans)
    with \<open>files_kept fs (su_fs st)\<close> h show ?case
      by (cases x) (auto simp: y split: prod.split sum.split)
  qed (simp add: files_kept_refl)
  with assms show ?thesis by (simp add: files_kept_def)
qed

section \<open>Servers that were made\<close>

lemma seq_None: "seq f g s = (None, s') \<longleftrightarrow> (\<exists>s1. f s = (None, s1) \<and> g s1 = (None, s'))"
  by (auto simp: seq_def split: prod.splits option.splits)

text \<open>The state of the dispatcher of a server: its socket, non-blocking, under \<open>fd\<close>, bound as \<open>b\<close>, and the map.\<close>

definition socket_as :: "nat \<Rightarrow> bind_address option \<Rightarrow> (nat \<times> obj) list \<Rightarrow> server_disp \<Rightarrow> bool" where
  "socket_as fd b mp d \<longleftrightarrow> dp_map d = mp \<and>
     (\<exists>s. dp_socket d = Some s \<and> so_fd s = fd \<and> \<not> so_blocking s \<and> so_bound s = b)"

lemma on_socket_as:
  assumes "socket_as fd b mp d" "\<And>s. so_fd (snd (f s)) = so_fd s \<and> so_blocking (snd (f s)) = so_blocking s"
    and "\<And>s. so_bound s = b \<Longrightarrow> fst (f s) = None \<Longrightarrow> so_bound (snd (f s)) = b'" "on_socket f d = (None, d')"
  shows "socket_as fd b' mp d'"
  using assms by (auto simp: socket_as_def on_socket_def)

lemma set_reuse_addr_as:
  "socket_as fd b mp d \<Longrightarrow> set_reuse_addr os d = (x, d') \<Longrightarrow> x = None \<and> socket_as fd b mp d'"
  by (auto simp: set_reuse_addr_def on_socket_def socket_as_def setsockopt_def put_option_def split: option.splits)

lemma disp_bind_as:
  "socket_as fd b mp d \<Longrightarrow> disp_bind r a d = (None, d') \<Longrightarrow> socket_as fd (Some a) mp d'"
  by (auto simp: disp_bind_def on_socket_def socket_as_def split: option.splits)

definition own_fd :: "os \<Rightarrow> os_socket option \<Rightarrow> family \<Rightarrow> int \<Rightarrow> nat" where
  "own_fd os sock fam type = (case sock of Some s \<Rightarrow> so_fd s | None \<Rightarrow> projr (os_socket os fam type))"

lemma init_socket_as:
  assumes "init_socket os sock fam type d = (None, d')"
  shows "\<exists>b. socket_as (own_fd os sock fam type) b (AList.update (own_fd os sock fam type) (dp_id d) (dp_map d)) d'
    \<and> (sock = None \<longrightarrow> b = None)"
proof (cases sock)
  case None
  then obtain d1 where 1: "create_socket os fam type d = (None, d1)"
    and 2: "(if fam = AF_INET6 then on_socket (setsockopt os IPPROTO_IPV6 IPV6_V6ONLY 1) else skip_event) d1 = (None, d')"
    using assms by (auto simp: init_socket_def seq_None)
  from 1 have s: "socket_as (own_fd os None fam type) None (AList.update (own_fd os None fam type) (dp_id d) (dp_map d)) d1"
    by (auto simp: create_socket_def set_socket_def add_channel_def sock_methods_def socket_as_def own_fd_def split: sum.splits)
  show ?thesis
  proof (cases "fam = AF_INET6")
    case True
    with 2 have "on_socket (setsockopt os IPPROTO_IPV6 IPV6_V6ONLY 1) d1 = (None, d')" by simp
    from on_socket_as [OF s _ _ this, of None] show ?thesis
      by (auto simp: None setsockopt_def put_option_def split: option.splits)
  next
    case False
    with 2 s None show ?thesis by (auto simp: skip_event_def)
  qed
next
  case (Some s)
  with assms show ?thesis
    by (auto simp: init_socket_def set_socket_def add_channel_def sock_methods_def socket_as_def own_fd_def)
qed

lemma bind_server_socket_as:
  assumes "socket_as fd b mp (su_disp st)" "bind_server_socket os c a st = (None, st')"
  shows "socket_as fd (Some a) mp (su_disp st')"
proof (cases a)
  case (Tcp_Address ai)
  with assms disp_bind_as [of fd b mp "su_disp st" "os_bind os" a] show ?thesis
    by (cases "disp_bind (os_bind os) a (su_disp st)") (auto simp: bind_server_socket_def on_disp_def)
next
  case (Unix_Address path)
  then obtain st1 st2 where 1: "on_fs (cleanup_unix_socket os path) st = (None, st1)" and 2: "bind_unix os path st1 = (None, st2)"
    and 3: "on_fs (chmod_existing os path (cf_unix_socket_perms c)) st2 = (None, st')"
    using assms(2) by (auto simp: bind_server_socket_def seq_None)
  have d: "su_disp st1 = su_disp st" "su_disp st' = su_disp st2" using 1 3 by (auto simp: on_fs_def)
  with assms(1) have "socket_as fd b mp ((su_disp st1)\<lparr>dp_addr := Some (address_of a)\<rparr>)" by (simp add: socket_as_def)
  moreover have "disp_bind (\<lambda>a. None) a ((su_disp st1)\<lparr>dp_addr := Some (address_of a)\<rparr>) = (None, su_disp st2)"
    using 2 Unix_Address by (auto simp: bind_unix_def Let_def seq_def on_fs_def on_disp_def prod_eq_iff split: prod.splits option.splits)
  ultimately show ?thesis using disp_bind_as d(2) by simp
qed

text \<open>The description of a server that listens.\<close>

definition server_listens :: "config \<Rightarrow> bind_address option \<Rightarrow> srv \<Rightarrow> bool" where
  "server_listens c addr st \<longleftrightarrow> dp_accepting (su_disp st) \<and> su_name st \<noteq> None
     \<and> (\<exists>s. dp_socket (su_disp st) = Some s \<and> \<not> so_blocking s \<and> so_backlog s = Some (cf_backlog c)
          \<and> (addr \<noteq> None \<longrightarrow> so_bound s = addr))"

lemma accept_connections_as:
  "socket_as fd b mp d \<Longrightarrow> accept_connections os c d = (None, d') \<Longrightarrow> dp_map d' = mp \<and> dp_accepting d'
     \<and> (\<exists>s. dp_socket d' = Some s \<and> \<not> so_blocking s \<and> so_backlog s = Some (cf_backlog c) \<and> so_bound s = b)"
  by (auto simp: accept_connections_def on_socket_def socket_as_def split: option.splits)

lemma init_server_made:
  assumes h: "init_server os kind c i sock fam type addr True st = (None, st')"
  shows "server_listens c addr st' \<and>
    dp_map (su_disp st') = AList.update (own_fd os sock fam type) (dp_id (su_disp st))
      (AList.update (projr (os_pipe os)) (Trigger i) (dp_map (su_disp st)))"
proof -
  let ?fd = "own_fd os sock fam type"
  from h obtain st1 st2 st3 st4 st5 where 1: "open_trigger os i st = (None, st1)"
    and 2: "on_disp (init_socket os sock fam type) st1 = (None, st2)" and 3: "on_disp (set_reuse_addr os) st2 = (None, st3)"
    and 4: "(case addr of None \<Rightarrow> skip_event | Some a \<Rightarrow> bind_server_socket os c a) st3 = (None, st4)"
    and 5: "get_name os kind st4 = (None, st5)" and 6: "on_disp (accept_connections os c) st5 = (None, st')"
    by (auto simp: init_server_def seq_None)
  let ?mp1 = "AList.update (projr (os_pipe os)) (Trigger i) (dp_map (su_disp st))"
  let ?mp = "AList.update ?fd (dp_id (su_disp st)) ?mp1"
  have d1: "dp_map (su_disp st1) = ?mp1" "dp_id (su_disp st1) = dp_id (su_disp st)"
    using 1 by (auto simp: open_trigger_def split: sum.splits)
  have "init_socket os sock fam type (su_disp st1) = (None, su_disp st2)" using 2 by (auto simp: on_disp_def prod_eq_iff)
  from init_socket_as [OF this] obtain b where d2: "socket_as ?fd b ?mp (su_disp st2)" unfolding d1 by blast
  have "set_reuse_addr os (su_disp st2) = (None, su_disp st3)" using 3 by (auto simp: on_disp_def prod_eq_iff)
  from set_reuse_addr_as [OF d2 this] have d3: "socket_as ?fd b ?mp (su_disp st3)" by simp
  obtain b' where d4: "socket_as ?fd b' ?mp (su_disp st4)" "addr \<noteq> None \<longrightarrow> b' = addr"
    using 4 d3 bind_server_socket_as [OF d3] by (cases addr) (auto simp: skip_event_def)
  have d5: "su_disp st5 = su_disp st4" "su_name st5 \<noteq> None"
    using 5 by (auto simp: get_name_def split: option.splits sum.splits server_kind.splits)
  have a: "accept_connections os c (su_disp st4) = (None, su_disp st')" "su_name st' = su_name st5"
    using 6 d5(1) by (auto simp: on_disp_def prod_eq_iff)
  from accept_connections_as [OF d4(1) a(1)] d4(2) d5(2) a(2) show ?thesis by (auto simp: server_listens_def)
qed

section \<open>The start of the main thread\<close>

definition endpoint_address :: "endpoint \<Rightarrow> bind_address option" where
  "endpoint_address e = (case e of Tcp a \<Rightarrow> Some (Tcp_Address a) | Unix_Path p \<Rightarrow> Some (Unix_Address p) | _ \<Rightarrow> None)"

text \<open>The descriptors of a server: of its trigger and of its socket.\<close>

definition endpoint_fds :: "os \<times> endpoint \<Rightarrow> nat \<times> nat" where
  "endpoint_fds x =
     (projr (os_pipe (fst x)),
      case snd x of
        Tcp a \<Rightarrow> projr (os_socket (fst x) (ai_family a) (ai_type a))
      | Unix_Path p \<Rightarrow> projr (os_socket (fst x) AF_UNIX SOCK_STREAM)
      | Tcp_Socket s \<Rightarrow> sk_fileno s
      | Unix_Socket s \<Rightarrow> sk_fileno s)"

lemma init_endpoint_made:
  assumes "init_endpoint os c i e (srv_init i mp fs) = (None, st)"
  shows "server_listens c (endpoint_address e) st \<and>
    dp_map (su_disp st) = AList.update (snd (endpoint_fds (os, e))) (Listener i)
      (AList.update (fst (endpoint_fds (os, e))) (Trigger i) mp)"
  using assms
  by (cases e) (auto simp: init_endpoint_def endpoint_address_def endpoint_fds_def own_fd_def given_socket_def srv_init_def
      disp_init_def dest!: init_server_made)

lemma update_fresh: "k \<notin> fst ` set al \<Longrightarrow> AList.update k v al = al @ [(k, v)]"
  by (induction al) auto

lemma open_servers_made:
  "open_servers c i es (mp, fs) = (Inr sts, mp', fs') \<Longrightarrow> distinct (map fst (mp @ register i (map endpoint_fds es))) \<Longrightarrow>
   mp' = mp @ register i (map endpoint_fds es) \<and> list_all2 (\<lambda>x st. server_listens c (endpoint_address (snd x)) st) es sts"
proof (induction es arbitrary: i mp fs sts)
  case (Cons y es)
  obtain os e where y: "y = (os, e)" by fastforce
  obtain t l where f: "endpoint_fds (os, e) = (t, l)" by fastforce
  from Cons.prems(1) obtain st sts1 where st: "init_endpoint os c i e (srv_init i mp fs) = (None, st)"
    and r: "open_servers c (Suc i) es (dp_map (su_disp st), su_fs st) = (Inr sts1, mp', fs')" "sts = st # sts1"
    by (auto simp: y split: prod.splits option.splits sum.splits)
  note m = init_endpoint_made [OF st, unfolded f fst_conv snd_conv]
  have u: "dp_map (su_disp st) = mp @ [(t, Trigger i), (l, Listener i)]"
    using m Cons.prems(2) by (simp add: y f update_fresh)
  have "distinct (map fst ((mp @ [(t, Trigger i), (l, Listener i)]) @ register (Suc i) (map endpoint_fds es)))"
    using Cons.prems(2) by (simp add: y f)
  from Cons.IH [OF r(1) [unfolded u] this] conjunct1 [OF m] r(2) show ?case by (simp add: y f)
qed simp

text \<open>
  C22: From the settings to the loop. If the servers of \<^verbatim>\<open>create_server\<close> can be made, each is non-blocking, bound to its address and
  listens with the backlog that is configured, and the map they registered in is the one from which the main thread starts:
  what is proved of the states that it reaches holds for them, with their number as the number of listening sockets.
\<close>

theorem servers_start_the_loop:
  assumes made: "open_servers c 0 es ([], fs) = (Inr sts, mp, fs')"
    and fresh: "distinct (map fst (register 0 (map endpoint_fds es)))"
  shows "list_all2 (\<lambda>x st. server_listens c (endpoint_address (snd x)) st) es sts
    \<and> m_map (server_start adj (map endpoint_fds es) now) = mp
    \<and> main_reach use_poll tb sv adj (length es) (server_start adj (map endpoint_fds es) now)"
proof -
  from open_servers_made [OF made] fresh
  have "mp = register 0 (map endpoint_fds es)" "list_all2 (\<lambda>x st. server_listens c (endpoint_address (snd x)) st) es sts"
    by simp_all
  moreover have "main_reach use_poll tb sv adj (length es) (server_start adj (map endpoint_fds es) now)"
    by (rule main_reach.start [OF fresh]) simp
  ultimately show ?thesis by (simp add: server_start_def)
qed

definition sample_os :: "nat \<Rightarrow> os" where
  "sample_os n = \<lparr>os_pipe = Inr n, os_socket = (\<lambda>f t. Inr (n + 1)), os_sockopt = (\<lambda>l k. None), os_bind = (\<lambda>a. None),
     os_listen = None, os_stat = (\<lambda>p. None), os_remove = (\<lambda>p. None), os_chmod = (\<lambda>p. None), os_mode = 493,
     os_name = (\<lambda>b. Inr (''127.0.0.1'', ''80'')), os_nt = False\<rparr>"

definition sample_endpoints :: "(os \<times> endpoint) list" where
  "sample_endpoints =
     [(sample_os 3, Tcp \<lparr>ai_family = AF_INET, ai_type = 1, ai_proto = 6, ai_host = ''127.0.0.1'', ai_port = 80, ai_rest = []\<rparr>),
      (sample_os 5, Tcp \<lparr>ai_family = AF_INET6, ai_type = 1, ai_proto = 6, ai_host = ''::1'', ai_port = 80, ai_rest = [0, 0]\<rparr>)]"

lemma sample_endpoints_made:
  "open_servers default_config 0 sample_endpoints ([], []) =
     (Inr (projr (fst (open_servers default_config 0 sample_endpoints ([], [])))),
      [(3, Trigger 0), (4, Listener 0), (5, Trigger 1), (6, Listener 1)], [])"
proof -
  have "\<not> isl (fst (open_servers default_config 0 sample_endpoints ([], [])))"
    "snd (open_servers default_config 0 sample_endpoints ([], [])) =
      ([(3, Trigger 0), (4, Listener 0), (5, Trigger 1), (6, Listener 1)], [])"
    by code_simp+
  then show ?thesis by (simp add: prod_eq_iff)
qed

lemma sample_endpoints_fds: "map endpoint_fds sample_endpoints = [(3, 4), (5, 6)]" "length sample_endpoints = 2"
  by code_simp+

theorem servers_start_the_loop_witness:
  "main_reach True (\<lambda>e. []) (\<lambda>k. sample_server) default_adjustments 2 (server_start default_adjustments [(3, 4), (5, 6)] 0)"
  using servers_start_the_loop [OF sample_endpoints_made, of default_adjustments 0 True "\<lambda>e. []" "\<lambda>k. sample_server"]
  by (simp add: sample_endpoints_fds)

definition free_path :: "string \<Rightarrow> fs \<Rightarrow> bool" where
  "free_path path fs \<longleftrightarrow> (case map_of fs path of None \<Rightarrow> True | Some n \<Rightarrow> in_socket n)"

lemma cleanup_free:
  assumes "os_stat os path = None" "os_remove os path = None"
  shows "cleanup_unix_socket os path fs = (None, if free_path path fs then AList.delete path fs else fs)"
  using assms by (auto simp: cleanup_unix_socket_def path_stat_def free_path_def map_of_eq_None_iff split: option.split)

text \<open>
  The path of a UNIX socket. A socket that an earlier process left there is replaced by one with the configured mode,
  and no other path changes; a file that is not a socket stays, and the server is not made: the address is in use.
\<close>

theorem unix_socket_replaced:
  assumes os: "os_stat os path = None" "os_remove os path = None" "os_bind os (Unix_Address path) = None" "os_chmod os path = None"
    and d: "dp_socket (su_disp st) = Some s" and r: "bind_server_socket os c (Unix_Address path) st = (x, st')"
  shows "if free_path path (su_fs st)
    then x = None \<and> map_of (su_fs st') = (map_of (su_fs st))(path \<mapsto> \<lparr>in_socket = True, in_mode = cf_unix_socket_perms c\<rparr>)
    else x = Some (OSErr EADDRINUSE) \<and> su_fs st' = su_fs st"
proof (cases "free_path path (su_fs st)")
  case True
  with assms show ?thesis
    by (auto simp: bind_server_socket_def seq_def on_fs_def on_disp_def cleanup_free bind_unix_def Let_def bind_path_def
        disp_bind_def on_socket_def chmod_existing_def update_conv' delete_conv' fun_eq_iff)
next
  case False
  then have "map_of (su_fs st) path \<noteq> None" by (simp add: free_path_def split: option.splits)
  with False assms show ?thesis
    by (auto simp: bind_server_socket_def seq_def on_fs_def cleanup_free bind_unix_def Let_def bind_path_def)
qed

definition sample_srv :: "fs \<Rightarrow> srv" where
  "sample_srv fs = (srv_init 0 [] fs)\<lparr>su_disp := (su_disp (srv_init 0 [] fs))\<lparr>dp_socket := Some (given_socket
     \<lparr>sk_family = AF_UNIX, sk_stream = True, sk_fileno = 4\<rparr>)\<rparr>\<rparr>"

theorem unix_socket_replaced_witness:
  "map_of (su_fs (snd (bind_server_socket (sample_os 3) default_config (Unix_Address ''w.sock'')
       (sample_srv [(''w.sock'', \<lparr>in_socket = True, in_mode = 0\<rparr>)])))) ''w.sock''
     = Some \<lparr>in_socket = True, in_mode = 384\<rparr>"
proof -
  let ?st = "sample_srv [(''w.sock'', \<lparr>in_socket = True, in_mode = 0\<rparr>)]"
  obtain x st' where r: "bind_server_socket (sample_os 3) default_config (Unix_Address ''w.sock'') ?st = (x, st')" by fastforce
  have d: "dp_socket (su_disp ?st) = Some (given_socket \<lparr>sk_family = AF_UNIX, sk_stream = True, sk_fileno = 4\<rparr>)"
    by (simp add: sample_srv_def)
  have os: "os_stat (sample_os 3) p = None" "os_remove (sample_os 3) p = None" "os_bind (sample_os 3) a = None"
    "os_chmod (sample_os 3) p = None" for p a by (simp_all add: sample_os_def)
  have f: "su_fs ?st = [(''w.sock'', \<lparr>in_socket = True, in_mode = 0\<rparr>)]" by (simp add: sample_srv_def srv_init_def)
  have "cf_unix_socket_perms default_config = 384" by code_simp
  with unix_socket_replaced [OF os d r] show ?thesis by (simp add: r f free_path_def)
qed

theorem non_socket_files_survive_witness:
  "map_of (snd (snd (open_servers default_config 0 [(sample_os 3, Unix_Path ''data'')]
      ([], [(''data'', \<lparr>in_socket = False, in_mode = 420\<rparr>)])))) ''data''
     = Some \<lparr>in_socket = False, in_mode = 420\<rparr>"
  by (rule non_socket_files_survive) simp_all

end
