(* ===== verification/Accepting.thy ===== *)
theory Accepting
  imports Sockets Environ
begin

text \<open>
  From \<^verbatim>\<open>accept\<close> to the environment of a request: how the outcome of \<^verbatim>\<open>handle_accept\<close> (\<open>accepted\<close> in \<open>Server\<close>) comes
  about for the two kinds of server, with the options of the socket and the address of the client; and what the
  application is told of both ends.
\<close>

section \<open>The new connection\<close>










section \<open>Properties\<close>







end
