(* ===== verification/Help.thy ===== *)
theory Help
  imports Command_Line
begin

text \<open>
  The help text of \<^verbatim>\<open>runner.py\<close>, line by line, with \<^verbatim>\<open>show_help\<close>, what \<^verbatim>\<open>run\<close> prints and its exit status; and
  that the options which the text names are those that \<^verbatim>\<open>parse_args\<close> knows.
\<close>

section \<open>The text\<close>

definition HELP_1 :: "string list" where
  "HELP_1 =
     [''Usage:'',
      [],
      ''    {0} [OPTS] [MODULE:OBJECT]'',
      [],
      ''Standard options:'',
      [],
      ''    --help'',
      ''        Show this information.'',
      [],
      ''    --app=MODULE:OBJECT'',
      ''        Run the given callable object the WSGI application.'',
      [],
      ''        You can specify the WSGI application using this flag or as a positional'',
      ''        argument.'',
      [],
      ''    --call'',
      ''        Call the given object to get the WSGI application.'',
      [],
      ''    --host=ADDR'',
      ''        Hostname or IP address on which to listen, default is '0.0.0.0','',
      ''        which means \"all IP addresses on this host\".'',
      [],
      ''        Note: May not be used together with --listen'',
      [],
      ''    --port=PORT'',
      ''        TCP port on which to listen, default is '8080'' @ [CHR 0x27],
      [],
      ''        Note: May not be used together with --listen'',
      [],
      ''    --listen=ip:port'',
      ''        Tell waitress to listen on an ip port combination.'',
      [],
      ''        Example:'',
      [],
      ''            --listen=127.0.0.1:8080'',
      ''            --listen=[::1]:8080'',
      ''            --listen=*:8080'',
      [],
      ''        This option may be used multiple times to listen on multiple sockets.'',
      ''        A wildcard for the hostname is also supported and will bind to both'',
      ''        IPv4/IPv6 depending on whether they are enabled or disabled.'',
      [],
      ''    --server-name=NAME'',
      ''        This is the value that will be placed in the WSGI environment as'',
      ''        ``SERVER_NAME``, the only time that this value is used in the WSGI'',
      ''        environment for a request is if the client sent a HTTP/1.0 request'',
      ''        without a ``Host`` header set, and no other proxy headers.'',
      [],
      ''        The default is value is ``waitress.invalid``, if your WSGI application'',
      ''        is creating URL's that include this as the hostname and you are using a'',
      ''        reverse proxy setup, you may want to validate that your reverse proxy'',
      ''        is sending the appropriate headers.'',
      [],
      ''        In most situations you will not need to set this value.'',
      [],
      ''    --[no-]ipv4'',
      ''        Toggle on/off IPv4 support.'',
      [],
      ''        Example:'',
      [],
      ''            --no-ipv4'',
      [],
      ''        This will disable IPv4 socket support. This affects wildcard matching'',
      ''        when generating the list of sockets.'',
      [],
      ''    --[no-]ipv6'',
      ''        Toggle on/off IPv6 support.'',
      [],
      ''        Example:'',
      [],
      ''            --no-ipv6'',
      [],
      ''        This will turn on IPv6 socket support. This affects wildcard matching'',
      ''        when generating a list of sockets.'',
      []]"

definition HELP_2 :: "string list" where
  "HELP_2 =
     [''    --unix-socket=PATH'',
      ''        Path of Unix socket. If a socket path is specified, a Unix domain'',
      ''        socket is made instead of the usual inet domain socket.'',
      [],
      ''        Not available on Windows.'',
      [],
      ''    --unix-socket-perms=PERMS'',
      ''        Octal permissions to use for the Unix domain socket, default is'',
      ''        '600'.'',
      [],
      ''    --url-scheme=STR'',
      ''        Default wsgi.url_scheme value, default is 'http'.'',
      [],
      ''    --url-prefix=STR'',
      ''        The 'SCRIPT_NAME' WSGI environment value.  Setting this to anything'',
      ''        except the empty string will cause the WSGI 'SCRIPT_NAME' value to be'',
      ''        the value passed minus any trailing slashes you add, and it will cause'',
      ''        the 'PATH_INFO' of any request which is prefixed with this value to be'',
      ''        stripped of the prefix.  Default is the empty string.'',
      [],
      ''    --ident=STR'',
      ''        Server identity used in the 'Server' header in responses. Default'',
      ''        is 'waitress'.'',
      [],
      ''    --trusted-proxy=IP'',
      ''        IP address of a remote peer allowed to override various WSGI environment'',
      ''        variables using proxy headers.'',
      [],
      ''        For unix sockets, set this value to 'localhost' instead of an IP'',
      ''        address.'',
      [],
      ''        The value '*' (wildcard) may be used to signify that all remote peers'',
      ''        are to be trusted.'',
      [],
      ''    --trusted-proxy-count=INT'',
      ''        How many proxies we trust when chained. For example,'',
      [],
      ''            X-Forwarded-For: 192.0.2.1, \"[2001:db8::1]\"'',
      [],
      ''        or'',
      [],
      ''            Forwarded: for=192.0.2.1, For=\"[2001:db8::1]\"'',
      [],
      ''        means there were (potentially), two proxies involved. If we know there'',
      ''        is only 1 valid proxy, then that initial IP address \"192.0.2.1\" is not'',
      ''        trusted and we completely ignore it.'',
      [],
      ''        If there are two trusted proxies in the path, this value should be set'',
      ''        to 2. If there are more proxies, this value should be set higher.'',
      [],
      ''        Default: 1'',
      [],
      ''    --trusted-proxy-headers=LIST'',
      ''        Which of the proxy headers should we trust, this is a set where you'',
      ''        either specify \"forwarded\" or one or more of \"x-forwarded-host\",'',
      ''        \"x-forwarded-for\", \"x-forwarded-proto\", \"x-forwarded-port\",'',
      ''        \"x-forwarded-by\".'',
      [],
      ''        This list of trusted headers is used when 'trusted_proxy' is set and'',
      ''        will allow waitress to modify the WSGI environment using the values'',
      ''        provided by the proxy.'',
      [],
      ''        It is an error to set this value without setting --trusted-proxy.'',
      [],
      ''        WARNING: If --trusted-proxy is set, the default is 'x-forwarded-proto'' @ [CHR 0x27],
      ''        to match older versions of Waitress. Users should explicitly opt-in by'',
      ''        selecting the headers to be trusted as future versions of waitress will'',
      ''        use an empty default.'',
      [],
      ''    --[no-]log-untrusted-proxy-headers'',
      ''        Should waitress log warning messages about proxy headers that are being'',
      ''        sent from upstream that are not trusted by --trusted-proxy-headers but'',
      ''        are being cleared due to --clear-untrusted-proxy-headers?'',
      [],
      ''        This may be useful for debugging if you expect your upstream proxy'',
      ''        server to only send specific headers.'',
      [],
      ''        It is a no-op to set this value without also setting'',
      ''        --clear-untrusted-proxy-headers and --trusted-proxy.'',
      []]"

definition HELP_3 :: "string list" where
  "HELP_3 =
     [''    --[no-]clear-untrusted-proxy-headers'',
      ''       This tells Waitress to remove any untrusted proxy headers (\"Forwarded\",'',
      ''       \"X-Forwared-For\", \"X-Forwarded-By\", \"X-Forwarded-Host\",'',
      ''       \"X-Forwarded-Port\", \"X-Forwarded-Proto\") not explicitly allowed by'',
      ''       --trusted-proxy-headers.'',
      [],
      ''       This is active by default.'',
      [],
      ''       It is an error to set this value without setting --trusted-proxy.'',
      [],
      ''Tuning options:'',
      [],
      ''    --threads=INT'',
      ''        Number of threads used to process application logic, default is 4.'',
      [],
      ''    --backlog=INT'',
      ''        Connection backlog for the server. Default is 1024.'',
      [],
      ''    --recv-bytes=INT'',
      ''        Number of bytes to request when calling socket.recv(). Default is'',
      ''        8192.'',
      [],
      ''    --send-bytes=INT'',
      ''        Number of bytes to send to socket.send(). Default is 18000.'',
      ''        Multiples of 9000 should avoid partly-filled TCP packets.'',
      [],
      ''    --outbuf-overflow=INT'',
      ''        A temporary file should be created if the pending output is larger'',
      ''        than this. Default is 1048576 (1MB).'',
      [],
      ''    --outbuf-high-watermark=INT'',
      ''        The app_iter will pause when pending output is larger than this value'',
      ''        and will resume once enough data is written to the socket to fall below'',
      ''        this threshold. Default is 16777216 (16MB).'',
      [],
      ''    --inbuf-overflow=INT'',
      ''        A temporary file should be created if the pending input is larger'',
      ''        than this. Default is 524288 (512KB).'',
      [],
      ''    --connection-limit=INT'',
      ''        Stop creating new channels if too many are already active.'',
      ''        Default is 100.'',
      [],
      ''    --cleanup-interval=INT'',
      ''        Minimum seconds between cleaning up inactive channels. Default'',
      ''        is 30. See '--channel-timeout'.'',
      [],
      ''    --channel-timeout=INT'',
      ''        Maximum number of seconds to leave inactive connections open.'',
      ''        Default is 120. 'Inactive' is defined as 'has received no data'',
      ''        from the client and has sent no data to the client'.'',
      [],
      ''    --channel-request-lookahead=INT'',
      ''        Sets the amount of requests we can continue to read from the socket,'',
      ''        while we are processing current requests. The default value won't allow'',
      ''        any lookahead, increase it above '0' to enable.'',
      [],
      ''        When enabled this inserts a callable 'waitress.client_disconnected'' @ [CHR 0x27],
      ''        into the environment that allows the task to check if the client'',
      ''        disconnected while waiting for the response at strategic points in the'',
      ''        execution and to cancel the operation.'',
      [],
      ''        Default: '0'' @ [CHR 0x27],
      [],
      ''    --[no-]log-socket-errors'',
      ''        Toggle whether premature client disconnect tracebacks ought to be'',
      ''        logged. On by default.'',
      [],
      ''    --max-request-header-size=INT'',
      ''        Maximum size of all request headers combined. Default is 262144'',
      ''        (256KB).'',
      []]"

definition HELP_4 :: "string list" where
  "HELP_4 =
     [''    --max-request-body-size=INT'',
      ''        Maximum size of request body. Default is 1073741824 (1GB).'',
      [],
      ''    --[no-]expose-tracebacks'',
      ''        Toggle whether to expose tracebacks of unhandled exceptions to the'',
      ''        client. Off by default.'',
      [],
      ''    --asyncore-loop-timeout=INT'',
      ''        The timeout value in seconds passed to asyncore.loop(). Default is 1.'',
      [],
      ''    --asyncore-use-poll'',
      ''        The use_poll argument passed to asyncore.loop(). Helps overcome'',
      ''        open file descriptors limit. Default is False.'',
      [],
      ''    --channel-request-lookahead=INT'',
      ''        Allows channels to stay readable and buffer more requests up to the'',
      ''        given maximum even if a request is already being processed. This allows'',
      ''        detecting if a client closed the connection while its request is being'',
      ''        processed. Default is 0.'',
      []]"

definition HELP :: string where
  "HELP = concat (map (\<lambda>l. l @ [LF]) (HELP_1 @ HELP_2 @ HELP_3 @ HELP_4))"

section \<open>str.format\<close>

text \<open>
  The fields \<^verbatim>\<open>{}\<close> and \<^verbatim>\<open>{0}\<close>, doubled braces; \<open>n\<close> counts the fields without a number. Other fields do not
  occur in the program.
\<close>

definition index_error :: exn where
  "index_error = AppError ''IndexError''"

definition nth_arg :: "string list \<Rightarrow> nat \<Rightarrow> exn + string" where
  "nth_arg args n = (if n < length args then Inr (args ! n) else Inl index_error)"

fun str_format :: "nat \<Rightarrow> string list \<Rightarrow> string \<Rightarrow> exn + string" where
  "str_format n args [] = Inr []"
| "str_format n args (c # s) =
     (if c = CHR ''{''
      then (case s of
              d # t \<Rightarrow>
                if d = CHR ''{'' then map_sum id (\<lambda>r. CHR ''{'' # r) (str_format n args t)
                else if d = CHR ''}''
                then (case nth_arg args n of Inl e \<Rightarrow> Inl e | Inr v \<Rightarrow> map_sum id (\<lambda>r. v @ r) (str_format (Suc n) args t))
                else (case t of
                        CHR ''}'' # u \<Rightarrow>
                          if d = CHR ''0''
                          then (case nth_arg args 0 of Inl e \<Rightarrow> Inl e | Inr v \<Rightarrow> map_sum id (\<lambda>r. v @ r) (str_format n args u))
                          else Inl (ValueError ''field'')
                      | _ \<Rightarrow> Inl (ValueError ''field''))
            | [] \<Rightarrow> Inl (ValueError ''Single '{' encountered in format string''))
      else if c = CHR ''}''
      then (case s of
              CHR ''}'' # t \<Rightarrow> map_sum id (\<lambda>r. CHR ''}'' # r) (str_format n args t)
            | _ \<Rightarrow> Inl (ValueError ''Single '}' encountered in format string''))
      else map_sum id (\<lambda>r. c # r) (str_format n args s))"

section \<open>show_help and the output of run\<close>

definition show_help :: "string \<Rightarrow> string option \<Rightarrow> exn + string" where
  "show_help name error =
     map_sum id (\<lambda>text. (case error of None \<Rightarrow> [] | Some e \<Rightarrow> ''Error: '' @ e @ [LF, LF]) @ text @ [LF]) (str_format 0 [name] HELP)"

text \<open>\<^verbatim>\<open>os.path.basename\<close>: what follows the last slash.\<close>

definition basename :: "string \<Rightarrow> string" where
  "basename p = rev (takeWhile (\<lambda>c. c \<noteq> CHR ''/'') (rev p))"

text \<open>What \<^verbatim>\<open>run\<close> writes to standard output and standard error before it returns a status; a server that runs returns 0 at its end.\<close>

datatype 'a command =
    Exits_With int string string     \<comment> \<open>status, standard output, standard error without the traceback\<close>
  | Runs "'a arg" kwargs
  | Fails exn

definition run_command ::
  "(string \<Rightarrow> (string + exn) + 'a) \<Rightarrow> ('a \<Rightarrow> exn + 'a) \<Rightarrow> string list \<Rightarrow> 'a command" where
  "run_command resolve_name call_app argv =
     (let name = basename (hd argv)
      in case run resolve_name call_app argv of
           Shows_Error msg \<Rightarrow> (case show_help name (Some msg) of Inl e \<Rightarrow> Fails e | Inr s \<Rightarrow> Exits_With 1 [] s)
         | Shows_Help \<Rightarrow> (case show_help name None of Inl e \<Rightarrow> Fails e | Inr s \<Rightarrow> Exits_With 0 s [])
         | Serves a kw \<Rightarrow> Runs a kw
         | Raises e \<Rightarrow> Fails e)"

section \<open>The options of the text\<close>

text \<open>A line that starts an option, and the long options it stands for.\<close>

definition header_options :: "string \<Rightarrow> string list" where
  "header_options line =
     (if \<not> prefix ''    --'' line then []
      else let opt = drop 6 line
           in if prefix ''[no-]'' opt then [drop 5 opt, ''no-'' @ drop 5 opt]
              else if CHR ''='' \<in> set opt then [takeWhile (\<lambda>c. c \<noteq> CHR ''='') opt @ ''='']
              else [opt])"

definition help_options :: "string list" where
  "help_options = concat (map header_options (HELP_1 @ HELP_2 @ HELP_3 @ HELP_4))"

section \<open>Properties\<close>

definition no_brace :: "char \<Rightarrow> bool" where
  "no_brace c \<longleftrightarrow> c \<noteq> CHR ''{'' \<and> c \<noteq> CHR ''}''"

lemma format_plain:
  "list_all no_brace s \<Longrightarrow> str_format n args (s @ t) = map_sum id (\<lambda>r. s @ r) (str_format n args t)"
proof (induction s)
  case Nil
  then show ?case by (cases "str_format n args t") simp_all
next
  case (Cons c s)
  then show ?case by (cases "str_format n args t") (simp_all add: no_brace_def)
qed

definition join_lines :: "string list \<Rightarrow> string" where
  "join_lines ls = concat (map (\<lambda>l. l @ [LF]) ls)"

definition help_rest :: string where
  "help_rest = '' [OPTS] [MODULE:OBJECT]'' @ [LF] @ join_lines (drop 3 HELP_1 @ HELP_2 @ HELP_3 @ HELP_4)"

lemma HELP_parts: "HELP = (''Usage:'' @ [LF, LF] @ ''    '') @ ''{0}'' @ help_rest"
proof -
  have "HELP_1 = ''Usage:'' # [] # ''    {0} [OPTS] [MODULE:OBJECT]'' # drop 3 HELP_1" by (simp add: HELP_1_def)
  then have "HELP_1 @ HELP_2 @ HELP_3 @ HELP_4 =
      ''Usage:'' # [] # ''    {0} [OPTS] [MODULE:OBJECT]'' # drop 3 HELP_1 @ HELP_2 @ HELP_3 @ HELP_4"
    by (metis append_Cons)
  then have "HELP = join_lines (''Usage:'' # [] # ''    {0} [OPTS] [MODULE:OBJECT]'' # drop 3 HELP_1 @ HELP_2 @ HELP_3 @ HELP_4)"
    unfolding HELP_def join_lines_def by (rule arg_cong)
  then show ?thesis unfolding help_rest_def join_lines_def list.map concat.simps by simp
qed

lemma help_lines_plain:
  "list_all (list_all no_brace) (drop 3 HELP_1)" "list_all (list_all no_brace) HELP_2"
  "list_all (list_all no_brace) HELP_3" "list_all (list_all no_brace) HELP_4"
  by code_simp+

lemma join_lines_plain: "list_all (list_all no_brace) ls \<Longrightarrow> list_all no_brace (join_lines ls)"
  by (induction ls) (simp_all add: join_lines_def no_brace_def)

lemma help_rest_plain: "list_all no_brace help_rest"
proof -
  have "list_all (list_all no_brace) (drop 3 HELP_1 @ HELP_2 @ HELP_3 @ HELP_4)"
    unfolding list_all_append using help_lines_plain by blast
  from join_lines_plain [OF this] have "list_all no_brace (join_lines (drop 3 HELP_1 @ HELP_2 @ HELP_3 @ HELP_4))" .
  moreover have "list_all no_brace ('' [OPTS] [MODULE:OBJECT]'' @ [LF])" by code_simp
  ultimately show ?thesis unfolding help_rest_def by (simp only: list_all_append append_assoc)
qed

text \<open>The text as it is printed for a program name.\<close>

definition usage :: "string \<Rightarrow> string" where
  "usage name = ''Usage:'' @ [LF, LF] @ ''    '' @ name @ help_rest @ [LF]"

lemma format_HELP: "str_format 0 [name] HELP = Inr (''Usage:'' @ [LF, LF] @ ''    '' @ name @ help_rest)"
proof -
  have "str_format 0 [name] help_rest = Inr help_rest"
    using format_plain [OF help_rest_plain, of 0 "[name]" "[]"] by simp
  then have "str_format 0 [name] (''{0}'' @ help_rest) = Inr (name @ help_rest)" by (simp add: nth_arg_def)
  moreover have "list_all no_brace (''Usage:'' @ [LF, LF] @ ''    '')" by code_simp
  ultimately show ?thesis unfolding HELP_parts by (subst format_plain) simp_all
qed

lemma show_help_text:
  "show_help name error = Inr ((case error of None \<Rightarrow> [] | Some e \<Rightarrow> ''Error: '' @ e @ [LF, LF]) @ usage name)"
  by (simp add: show_help_def format_HELP usage_def split: option.split)

text \<open>
  C38: The text that \<^verbatim>\<open>--help\<close> shows and the parser of the command line agree. Every option that the text names is one that
  \<^verbatim>\<open>parse_args\<close> gives to \<^verbatim>\<open>getopt\<close>, with an argument if and only if the text shows one; and the text names all but two,
  \<^verbatim>\<open>--no-asyncore-use-poll\<close> and \<^verbatim>\<open>--sockets\<close>. For any name of the program and any error the text is printed, to
  standard output with status 0 or after the error to standard error with status 1.
\<close>

theorem help_agrees_with_parser:
  "set help_options \<subseteq> set long_opts
   \<and> filter (\<lambda>x. x \<notin> set help_options) long_opts = [''no-asyncore-use-poll'', ''sockets='']
   \<and> (case run resolve_name call_app argv of
        Shows_Help \<Rightarrow> run_command resolve_name call_app argv = Exits_With 0 (usage (basename (hd argv))) []
      | Shows_Error msg \<Rightarrow> run_command resolve_name call_app argv = Exits_With 1 [] (''Error: '' @ msg @ [LF, LF] @ usage (basename (hd argv)))
      | Serves a kw \<Rightarrow> run_command resolve_name call_app argv = Runs a kw
      | Raises e \<Rightarrow> run_command resolve_name call_app argv = Fails e)"
proof -
  have "list_all (\<lambda>x. x \<in> set long_opts) help_options" by code_simp
  then have "set help_options \<subseteq> set long_opts" by (auto simp: list_all_iff)
  moreover have "filter (\<lambda>x. x \<notin> set help_options) long_opts = [''no-asyncore-use-poll'', ''sockets='']" by code_simp
  ultimately show ?thesis
    by (simp add: run_command_def Let_def show_help_text split: run_result.split)
qed

end
