(* ===== verification/Shutdown.thy ===== *)
theory Shutdown
  imports Sockets Help
begin

text \<open>
  The life of the program after \<^verbatim>\<open>create_server\<close>: what is printed, \<^verbatim>\<open>run\<close> of \<^verbatim>\<open>BaseWSGIServer\<close> and of
  \<^verbatim>\<open>MultiSocketServer\<close>, which end the loop on \<^verbatim>\<open>KeyboardInterrupt\<close> or \<^verbatim>\<open>SystemExit\<close>, the shutdown of the dispatcher, and
  \<^verbatim>\<open>waitress.serve\<close>. The queue of the dispatcher holds channels, by their number.
\<close>

section \<open>The shutdown of the dispatcher\<close>

text \<open>What the worker threads do while \<^verbatim>\<open>shutdown\<close> waits for them.\<close>

datatype worker_move = At_Top nat | Woken nat | Served nat

definition worker_step :: "worker_move \<Rightarrow> 't dispatcher \<Rightarrow> 't dispatcher" where
  "worker_step w d =
     (case w of
        At_Top i \<Rightarrow> if i \<in> set (d_threads d) \<and> d_pc d i = Top then handler_top i d else d
      | Woken i \<Rightarrow> if i \<in> set (d_threads d) \<and> d_pc d i = Waiting True then handler_wake i d else d
      | Served i \<Rightarrow> if i \<in> set (d_threads d) \<and> \<not> is_waiting (d_pc d i) \<and> d_pc d i \<noteq> Top then handler_served i d else d)"

definition stop_threads :: "worker_move list \<Rightarrow> 't dispatcher \<Rightarrow> 't dispatcher" where
  "stop_threads ws d = fold worker_step ws (set_thread_count 0 d)"

text \<open>\<^verbatim>\<open>task.cancel()\<close> of a channel that leaves the queue.\<close>

definition cancel_task :: "nat \<Rightarrow> main \<Rightarrow> main" where
  "cancel_task k = change_channel k (\<lambda>c. cancel (c\<lparr>c_tasks := c_tasks c - 1\<rparr>))"

text \<open>\<^verbatim>\<open>shutdown(cancel_pending)\<close>: its result tells whether tasks were cancelled.\<close>

definition shutdown :: "bool \<Rightarrow> worker_move list \<Rightarrow> main \<times> nat dispatcher \<Rightarrow> bool \<times> main \<times> nat dispatcher" where
  "shutdown cancel_tasks ws md =
     (let (m, d0) = md; d = stop_threads ws d0
      in if cancel_tasks then (True, fold cancel_task (d_queue d) m, cancel_pending d) else (False, m, d))"

section \<open>run and close\<close>

definition ends_program :: "exn \<Rightarrow> bool" where
  "ends_program e \<longleftrightarrow> e = system_exit \<or> e = keyboard_interrupt"

text \<open>
  \<^verbatim>\<open>run\<close>: the loop until it raises, or the map is empty; \<open>d\<close> is the dispatcher as it is by then. The others
  that raise are errors of \<^verbatim>\<open>select\<close>.
\<close>

definition base_run :: "bool \<Rightarrow> io list \<Rightarrow> worker_move list \<Rightarrow> main \<times> nat dispatcher \<Rightarrow> exn option \<times> main \<times> nat dispatcher" where
  "base_run use_poll ios ws md =
     (case loop use_poll ios (fst md) of
        (None, m) \<Rightarrow> (None, m, snd md)
      | (Some e, m) \<Rightarrow> if ends_program e then (None, snd (shutdown True ws (m, snd md))) else (Some e, m, snd md))"

definition multi_close :: "worker_move list \<Rightarrow> main \<times> nat dispatcher \<Rightarrow> main \<times> nat dispatcher" where
  "multi_close ws md = (let (b, m, d) = shutdown True ws md in (close_all m, d))"

definition multi_run :: "bool \<Rightarrow> io list \<Rightarrow> worker_move list \<Rightarrow> main \<times> nat dispatcher \<Rightarrow> exn option \<times> main \<times> nat dispatcher" where
  "multi_run use_poll ios ws md =
     (case loop use_poll ios (fst md) of
        (None, m) \<Rightarrow> (None, m, snd md)
      | (Some e, m) \<Rightarrow> if ends_program e then (None, multi_close ws (m, snd md)) else (Some e, m, snd md))"

definition server_run :: "servers \<Rightarrow> bool \<Rightarrow> io list \<Rightarrow> worker_move list \<Rightarrow> main \<times> nat dispatcher \<Rightarrow> exn option \<times> main \<times> nat dispatcher" where
  "server_run ss = (case ss of Single e \<Rightarrow> base_run | Multi es \<Rightarrow> multi_run)"

section \<open>Messages and serve\<close>

definition base_print_listen :: "string \<Rightarrow> string \<times> string \<Rightarrow> exn + string" where
  "base_print_listen format_str hp = str_format 0 [fst hp, snd hp] format_str"

definition bracketed :: "string \<Rightarrow> string" where
  "bracketed host = (if CHR '':'' \<in> set host then ''['' @ host @ '']'' else host)"

fun multi_print_listen :: "string \<Rightarrow> (string \<times> string) list \<Rightarrow> exn + string list" where
  "multi_print_listen format_str [] = Inr []"
| "multi_print_listen format_str (hp # hps) =
     (case str_format 0 [bracketed (fst hp), snd hp] format_str of
        Inl e \<Rightarrow> Inl e
      | Inr msg \<Rightarrow> map_sum id (\<lambda>r. msg # r) (multi_print_listen format_str hps))"

definition listen_format :: string where
  "listen_format = ''Serving on http://{}:{}''"

definition print_listen :: "servers \<Rightarrow> (string \<times> string) list \<Rightarrow> exn + string list" where
  "print_listen ss names =
     (case ss of
        Single e \<Rightarrow> map_sum id (\<lambda>msg. [msg]) (base_print_listen listen_format (hd names))
      | Multi es \<Rightarrow> multi_print_listen listen_format names)"

text \<open>Of the two, only the message of several servers puts an IPv6 address in brackets.\<close>

lemma single_listen_not_bracketed:
  "print_listen (Single e) [(''::1'', ''8080'')] = Inr [''Serving on http://::1:8080'']"
  "print_listen (Multi es) [(''::1'', ''8080'')] = Inr [''Serving on http://[::1]:8080'']"
  by (simp_all add: print_listen_def base_print_listen_def listen_format_def bracketed_def nth_arg_def)

text \<open>
  \<^verbatim>\<open>waitress.serve(app, **kw)\<close>: what it does, in order. The keywords \<^verbatim>\<open>_quiet\<close> and \<^verbatim>\<open>_profile\<close> are arguments here; \<open>names\<close>
  are the names of the sockets.
\<close>

datatype serve_action = Basic_Config | Print string | Profile_Run | Run

definition serve ::
  "platform \<Rightarrow> bool \<Rightarrow> bool \<Rightarrow> (environ \<Rightarrow> app) option \<Rightarrow> kwargs \<Rightarrow> (string \<times> string) list
     \<Rightarrow> exn option \<times> serve_action list" where
  "serve pl quiet profile app kw names =
     (let a0 = (if quiet then [] else [Basic_Config])
      in case Startup.create_server pl app kw of
           Inl e \<Rightarrow> (Some e, a0)
         | Inr (c, ss, app', d) \<Rightarrow>
             (case (if quiet then Inr [] else print_listen ss names) of
                Inl e \<Rightarrow> (Some e, a0)
              | Inr msgs \<Rightarrow> (None, a0 @ map Print msgs @ [if profile then Profile_Run else Run])))"

text \<open>\<^verbatim>\<open>serve_paste\<close> leaves the global configuration aside and returns 0.\<close>

definition serve_paste ::
  "platform \<Rightarrow> (environ \<Rightarrow> app) option \<Rightarrow> kwargs \<Rightarrow> (string \<times> string) list \<Rightarrow> (exn + int) \<times> serve_action list" where
  "serve_paste pl app kw names =
     (case serve pl False False app kw names of (Some e, as) \<Rightarrow> (Inl e, as) | (None, as) \<Rightarrow> (Inr 0, as))"

section \<open>After the end\<close>

























end
