(* ===== verification/Spec2Isabelle.thy ===== *)
theory Spec2Isabelle
  imports Utilities Http_Date_Parse Answers Startup Pipe_Trigger Trigger_Sockets Accepting Shutdown
begin

text \<open>
  A verification development for waitress, the WSGI server (\<^verbatim>\<open>src/src/waitress\<close>).

  The program. One main thread runs the loop of \<^verbatim>\<open>wasyncore.py\<close> over a map of sockets: the listening
  sockets (\<^verbatim>\<open>server.py\<close>), the pipes with which other threads wake it (\<^verbatim>\<open>trigger.py\<close>) and a channel for every
  connection (\<^verbatim>\<open>channel.py\<close>). A channel feeds what it receives to a request parser (\<^verbatim>\<open>parser.py\<close>, with the
  expressions of \<^verbatim>\<open>rfc7230.py\<close>), which writes the body through a receiver (\<^verbatim>\<open>receiver.py\<close>) into a buffer
  (\<^verbatim>\<open>buffers.py\<close>). A complete request makes the channel a task of the dispatcher (\<^verbatim>\<open>task.py\<close>); one of its
  threads runs \<^verbatim>\<open>HTTPChannel.service\<close>, which runs the application, wrapped by the middleware of
  \<^verbatim>\<open>proxy_headers.py\<close>, and writes the response into the output buffers of the channel, from which both
  threads send. \<^verbatim>\<open>adjustments.py\<close> holds the settings, \<^verbatim>\<open>runner.py\<close> the command line, \<^verbatim>\<open>utilities.py\<close> the
  dates and the error responses.

  Conventions. A class is a record, a method a function on it; names are those of the code, with a short
  prefix for the fields (\<open>p_\<close> parser, \<open>t_\<close> task, \<open>c_\<close> channel, \<open>d_\<close> dispatcher, \<open>m_\<close> main thread, \<open>dp_\<close> an
  object of \<^verbatim>\<open>wasyncore.py\<close>, \<open>adj_\<close> and
  \<open>cf_\<close> settings). Bytes, and strings of code points below 256, are lists of characters; integers are \<open>int\<close>, or
  \<open>nat\<close> where the code keeps them from being negative; a dictionary is an association list. What may raise
  returns \<open>exn + 'a\<close>, or an exception next to the new state where the state matters after a raise. Log messages
  are left out, but for those of \<^verbatim>\<open>dispatcher\<close>.

  The theories, from the ground up.

  \<^item> \<open>Prelude\<close>: byte strings and the operations of \<^verbatim>\<open>bytes\<close> and \<^verbatim>\<open>str\<close>, exceptions, numerals, dictionaries, and
    the lemmas about them that all others use. \<open>Regex\<close>: regular expressions with a backtracking matcher in
    the order of the \<^verbatim>\<open>re\<close> module.
  \<^item> \<open>Rfc7230\<close>, \<open>Utilities\<close>, \<open>Http_Date\<close>, \<open>Http_Date_Parse\<close>: \<^verbatim>\<open>rfc7230.py\<close> and \<^verbatim>\<open>utilities.py\<close>: the grammar of
    header fields against a reading without expressions, quoting, the error responses, dates and their round trip.
  \<^item> \<open>Buffers\<close>: \<^verbatim>\<open>buffers.py\<close> over an explicit file with a position. The overflowable buffer refines a queue
    of bytes through its three stages.
  \<^item> \<open>Receiver\<close>: \<^verbatim>\<open>receiver.py\<close>. The chunked receiver accepts exactly the language of chunked bodies and does
    not depend on how the input is cut; the proofs go through an interface for its buffer.
  \<^item> \<open>Adjustments\<close> and \<open>Config\<close>: the settings with their defaults; the conversions, the constructor with its
    checks and the choice of addresses. \<open>Command_Line\<close>: \<^verbatim>\<open>parse_args\<close> with \<^verbatim>\<open>getopt\<close>, and \<^verbatim>\<open>runner.run\<close>.
  \<^item> \<open>Parser\<close>: \<^verbatim>\<open>parser.py\<close>. What is in the header dictionary, that the framing of a body is never ambiguous,
    that a completed request is consistent, progress and limits.
  \<^item> \<open>Task\<close>, \<open>Response\<close>, \<open>Environ\<close>: \<^verbatim>\<open>Task\<close>, \<^verbatim>\<open>ErrorTask\<close> and \<^verbatim>\<open>WSGITask\<close>. An application is a tree of its
    calls (\<open>app\<close>, \<open>gen\<close>), continued by what each call returns or raises, so every theorem holds for all
    applications. \<open>Response\<close> shows the form of the header block and of the body over the contract \<open>channel_writer\<close>
    (what \<^verbatim>\<open>write_soon\<close> promises to a task); \<open>Environ\<close> is the WSGI environment.
  \<^item> \<open>Channel\<close>, \<open>Delivery\<close>, \<open>Service\<close>, \<open>Flush\<close>, \<open>Answers\<close>: \<^verbatim>\<open>HTTPChannel\<close>. \<open>Channel\<close> has its operations and the
    invariant of its buffers; \<open>Delivery\<close> shows that \<^verbatim>\<open>write_soon\<close> keeps the contract, an interpretation of
    \<open>channel_writer\<close>; \<open>Service\<close> has the states that a connection reaches (\<open>reachable\<close>) and what serving a request
    does; \<open>Flush\<close> the watermark and the delivery before closing; \<open>Answers\<close> the stream after a whole task.
  \<^item> \<open>Proxy_Headers\<close>: the middleware: which headers reach the application, and what a client cannot forge.
  \<^item> \<open>Dispatcher\<close>: the threads and the queue of tasks, as a transition system.
  \<^item> \<open>Server\<close>, \<open>Connections\<close>: \<^verbatim>\<open>BaseWSGIServer\<close> and the loop on \<^verbatim>\<open>select\<close> or \<^verbatim>\<open>poll\<close>, over any number of listening
    sockets and all connections. \<open>Connections\<close> has the states of the main thread (\<open>main_reach\<close>): the connection limit,
    the maintenance, and that each channel stays within \<open>reachable\<close>, for both loops. The bound on the map is proved once
    for any sequence of events that grow a state (\<open>growing_steps\<close>) and interpreted for the four kinds.
  \<^item> \<open>Asyncore\<close>, \<open>Events\<close>: the classes of \<^verbatim>\<open>wasyncore.py\<close>. The event methods of \<^verbatim>\<open>dispatcher\<close> over what an object overrides,
    with the contract \<open>event_object\<close> (closing returns and leaves the object closed), from which it follows that no
    exception leaves an event; the default methods with their messages, \<^verbatim>\<open>close_all\<close> and \<^verbatim>\<open>file_dispatcher\<close>. \<open>Events\<close>
    interprets the contract for the channel, the server and the trigger, and shows that \<open>Server\<close>, in which the dispatch is written
    out, is the loop of the class.
  \<^item> \<open>Startup\<close>, \<open>Sockets\<close>, \<open>Accepting\<close>: \<^verbatim>\<open>create_server\<close>; then how each server gets its socket, registers and listens, with the path of
    a UNIX socket in a file system, up to the state in which the loop starts;
    and a new connection, up to what its requests tell the application of both ends.
  \<^item> \<open>Pipe_Trigger\<close>, \<open>Trigger_Sockets\<close>: \<^verbatim>\<open>trigger.py\<close>: the thunks, as a transition system; the descriptors of both variants.
  \<^item> \<open>Help\<close>, \<open>Shutdown\<close>: the help text and the output of the command; \<^verbatim>\<open>serve\<close>, \<^verbatim>\<open>run\<close> and the end of the program.

  Two threads at one channel. Sections under \<^verbatim>\<open>outbuf_lock\<close> or \<^verbatim>\<open>requests_lock\<close> are atomic. The field \<open>c_sched\<close>
  of a channel lists what the main thread does at each point where it may get in between while a worker runs
  \<^verbatim>\<open>service\<close>; \<open>c_net\<close> lists the results of the next calls of \<^verbatim>\<open>send\<close>. The theorems quantify over both lists, so
  over all interleavings and all behaviours of the network. A wait of the worker goes through the schedule; when it
  is over, the wait is ended by an error of the socket, so that waiting returns, as the real wait does when the
  connection is closed.

  Loops. Every loop is a total function: recursion on the data, or a measure (the results to come of \<^verbatim>\<open>send\<close>, the
  bytes that are left; the attempts to connect the trigger of Windows, at most ten). The loop of \<^verbatim>\<open>HTTPChannel.received\<close> ends because each round consumes a byte or makes the
  request pass a stage; a round without progress would be the value \<open>Diverges\<close>, and it is proved that this value is not
  reached. The infinite loop of the main thread is \<open>main_reach\<close>, the states after any number of passes, and
  \<open>loop\<close> for a given number; a thread of the dispatcher is a sequence of steps of \<open>dstep\<close>.

  Parameters. The application and its exceptions' text (\<open>tb\<close>, a traceback), the answers of the operating system
  (\<open>io\<close>, \<open>c_net\<close>, \<open>recv_result\<close>, \<open>os\<close>, \<open>attempt\<close>), \<^verbatim>\<open>getaddrinfo\<close> and the kind of the system (\<open>platform\<close>), the import of the
  application. The hypotheses on them are named: \<open>app_ok\<close> (the identity of the server has no
  line ends, and the files that the application hands over are well-formed), \<open>io_ok\<close>
  (\<^verbatim>\<open>select\<close> and \<^verbatim>\<open>poll\<close> only answer what was asked, once).

  Not modelled. Strings with code points above 255; temporary files beyond their contents, and of the file system only the
  paths with their kind and mode; the passing of time between two passes of the loop and inside a wait; log messages and
  warnings outside \<^verbatim>\<open>wasyncore.py\<close>, among them the traceback that \<^verbatim>\<open>runner.run\<close> prints; the messages of the operating
  system for an error number; \<^verbatim>\<open>profile\<close> in \<^verbatim>\<open>__init__.py\<close>, which calls the profiler of the library; the
  identity of objects in messages is a number. The files under \<^verbatim>\<open>src/docs\<close> configure the documentation.
\<close>

end
